(* ===== verification/Prelude.thy ===== *)
theory Prelude
  imports Main "HOL-Library.Word" "HOL-Library.Sublist"
begin

text \<open>
  Shared vocabulary of the development: fallible computations as sums, bytes as \<open>char\<close>,
  Rust's fixed-width integers as words with their saturating and checked operations, the
  ASCII helpers of Rust's standard library, big-endian encodings, and the list lemmas the
  component theories use.
\<close>

section \<open>Collections of rules\<close>

named_theorems rust_simps "definitions of Rust library operations, for unfolding"

section \<open>Fallible computations\<close>

text \<open>Rust's \<open>?\<close> operator and \<open>Result::and_then\<close>: an error ends the computation.\<close>

definition and_then :: "'e + 'a \<Rightarrow> ('a \<Rightarrow> 'e + 'b) \<Rightarrow> 'e + 'b" where
  "and_then r f = (case r of Inl e \<Rightarrow> Inl e | Inr x \<Rightarrow> f x)"

definition ok_or :: "'a option \<Rightarrow> 'e \<Rightarrow> 'e + 'a" where
  "ok_or x e = (case x of None \<Rightarrow> Inl e | Some y \<Rightarrow> Inr y)"

lemma and_then_Inl [simp]: "and_then (Inl e) f = Inl e"
  by (simp add: and_then_def)

lemma and_then_Inr [simp]: "and_then (Inr x) f = f x"
  by (simp add: and_then_def)

lemma and_then_cong [fundef_cong]:
  "r = r' \<Longrightarrow> (\<And>x. r' = Inr x \<Longrightarrow> f x = g x) \<Longrightarrow> and_then r f = and_then r' g"
  by (auto simp: and_then_def split: sum.splits)

lemma and_then_InrE:
  assumes "and_then r f = Inr y"
  obtains x where "r = Inr x" "f x = Inr y"
  using assms by (cases r) simp_all

lemma and_then_eq_Inr:
  "and_then r f = Inr y \<longleftrightarrow> (\<exists>x. r = Inr x \<and> f x = Inr y)"
  by (auto simp: and_then_def split: sum.splits)

lemma and_then_eq_Inl:
  "and_then r f = Inl e \<longleftrightarrow> r = Inl e \<or> (\<exists>x. r = Inr x \<and> f x = Inl e)"
  by (auto simp: and_then_def split: sum.splits)

lemma ok_or_simps [simp]:
  "ok_or None e = Inl e"
  "ok_or (Some x) e = Inr x"
  by (simp_all add: ok_or_def)

lemma ok_or_eq_Inr [simp]: "ok_or x e = Inr y \<longleftrightarrow> x = Some y"
  by (simp add: ok_or_def split: option.splits)

section \<open>Bytes and ASCII\<close>

text \<open>
  A byte is a \<open>char\<close> (eight bits in HOL), a \<open>Vec<u8>\<close> and a Rust \<open>String\<close> are both
  \<open>char list\<close>; a Rust string holds the bytes of its UTF-8 encoding.
\<close>

type_synonym byte = char
type_synonym bytes = "char list"

abbreviation byte_val :: "byte \<Rightarrow> nat" where
  "byte_val c \<equiv> of_char c"

abbreviation (input) LF :: byte where "LF \<equiv> CHR 0x0A"
abbreviation (input) CR :: byte where "CR \<equiv> CHR 0x0D"
abbreviation (input) HT :: byte where "HT \<equiv> CHR 0x09"
abbreviation (input) CRLF :: bytes where "CRLF \<equiv> [CHR 0x0D, CHR 0x0A]"

definition is_ascii :: "byte \<Rightarrow> bool" where
  "is_ascii c \<longleftrightarrow> byte_val c < 128"

definition is_ascii_uppercase :: "byte \<Rightarrow> bool" where
  "is_ascii_uppercase c \<longleftrightarrow> 65 \<le> byte_val c \<and> byte_val c \<le> 90"

definition is_ascii_lowercase :: "byte \<Rightarrow> bool" where
  "is_ascii_lowercase c \<longleftrightarrow> 97 \<le> byte_val c \<and> byte_val c \<le> 122"

definition is_ascii_digit :: "byte \<Rightarrow> bool" where
  "is_ascii_digit c \<longleftrightarrow> 48 \<le> byte_val c \<and> byte_val c \<le> 57"

definition is_ascii_hexdigit :: "byte \<Rightarrow> bool" where
  "is_ascii_hexdigit c \<longleftrightarrow> is_ascii_digit c
     \<or> (65 \<le> byte_val c \<and> byte_val c \<le> 70) \<or> (97 \<le> byte_val c \<and> byte_val c \<le> 102)"

definition is_ascii_whitespace :: "byte \<Rightarrow> bool" where
  "is_ascii_whitespace c \<longleftrightarrow> byte_val c \<in> {9, 10, 12, 13, 32}"

definition is_ascii_control :: "byte \<Rightarrow> bool" where
  "is_ascii_control c \<longleftrightarrow> byte_val c < 32 \<or> byte_val c = 127"

definition to_ascii_lowercase_byte :: "byte \<Rightarrow> byte" where
  "to_ascii_lowercase_byte c = (if is_ascii_uppercase c then char_of (byte_val c + 32) else c)"

definition to_ascii_uppercase_byte :: "byte \<Rightarrow> byte" where
  "to_ascii_uppercase_byte c = (if is_ascii_lowercase c then char_of (byte_val c - 32) else c)"

definition to_ascii_lowercase :: "bytes \<Rightarrow> bytes" where
  "to_ascii_lowercase s = map to_ascii_lowercase_byte s"

definition eq_ignore_ascii_case :: "bytes \<Rightarrow> bytes \<Rightarrow> bool" where
  "eq_ignore_ascii_case s t \<longleftrightarrow> to_ascii_lowercase s = to_ascii_lowercase t"

lemmas ascii_defs [rust_simps] =
  is_ascii_def is_ascii_uppercase_def is_ascii_lowercase_def is_ascii_digit_def
  is_ascii_hexdigit_def is_ascii_whitespace_def is_ascii_control_def
  to_ascii_lowercase_byte_def to_ascii_uppercase_byte_def to_ascii_lowercase_def
  eq_ignore_ascii_case_def

lemma eq_ignore_ascii_case_refl [simp]: "eq_ignore_ascii_case s s"
  by (simp add: eq_ignore_ascii_case_def)

lemma eq_ignore_ascii_case_sym:
  "eq_ignore_ascii_case s t \<longleftrightarrow> eq_ignore_ascii_case t s"
  by (auto simp: eq_ignore_ascii_case_def)

lemma eq_ignore_ascii_case_trans:
  "eq_ignore_ascii_case s t \<Longrightarrow> eq_ignore_ascii_case t u \<Longrightarrow> eq_ignore_ascii_case s u"
  by (simp add: eq_ignore_ascii_case_def)

lemma length_to_ascii_lowercase [simp]:
  "length (to_ascii_lowercase s) = length s"
  by (simp add: to_ascii_lowercase_def)

text \<open>Decimal numbers: Rust's \<open>Display\<close> for integers, and the value of a digit string.\<close>

definition dec_digit :: "nat \<Rightarrow> byte" where
  "dec_digit d = char_of (48 + d)"

fun show_nat :: "nat \<Rightarrow> bytes" where
  "show_nat n = (if n < 10 then [dec_digit n] else show_nat (n div 10) @ [dec_digit (n mod 10)])"

declare show_nat.simps [simp del]

definition dec_val :: "nat \<Rightarrow> bytes \<Rightarrow> nat" where
  "dec_val v ds = foldl (\<lambda>n d. n * 10 + (byte_val d - 48)) v ds"

lemma dec_digit_val: "d < 10 \<Longrightarrow> byte_val (dec_digit d) = 48 + d"
  by (simp add: dec_digit_def)

lemma show_nat_nonempty [simp]: "show_nat n \<noteq> []"
  by (subst show_nat.simps) simp

lemma show_nat_digits: "d \<in> set (show_nat n) \<Longrightarrow> is_ascii_digit d"
proof (induction n rule: show_nat.induct)
  case (1 n)
  have "is_ascii_digit (dec_digit k)" if "k < 10" for k
    using that by (simp add: is_ascii_digit_def dec_digit_val)
  with 1 show ?case by (cases "n < 10") (auto simp: show_nat.simps [of n])
qed

lemma dec_val_Nil [simp]: "dec_val v [] = v"
  and dec_val_Cons [simp]: "dec_val v (d # ds) = dec_val (v * 10 + (byte_val d - 48)) ds"
  and dec_val_append [simp]: "dec_val v (ds @ es) = dec_val (dec_val v ds) es"
  by (simp_all add: dec_val_def)

lemma dec_val_show_nat [simp]: "dec_val 0 (show_nat n) = n"
proof (induction n rule: show_nat.induct)
  case (1 n)
  show ?case
  proof (cases "n < 10")
    case True
    then show ?thesis by (simp add: show_nat.simps [of n] dec_digit_val)
  next
    case False
    with 1 show ?thesis by (simp add: show_nat.simps [of n] dec_digit_val)
  qed
qed

lemma dec_val_ge: "v \<le> dec_val v ds"
proof (induction ds arbitrary: v)
  case Nil
  then show ?case by simp
next
  case (Cons d ds)
  have "v \<le> v * 10 + (byte_val d - 48)" by simp
  also have "\<dots> \<le> dec_val (v * 10 + (byte_val d - 48)) ds" by (rule Cons)
  finally show ?case by simp
qed

section \<open>Slices\<close>

text \<open>\<open>slice.get(i)\<close>: indexing that reports an index out of range.\<close>

definition get_at :: "'a list \<Rightarrow> nat \<Rightarrow> 'a option" where
  "get_at xs i = (if i < length xs then Some (xs ! i) else None)"

lemma get_at_eq_Some: "get_at xs i = Some x \<longleftrightarrow> i < length xs \<and> xs ! i = x"
  by (auto simp: get_at_def)

lemma get_at_eq_None: "get_at xs i = None \<longleftrightarrow> length xs \<le> i"
  by (auto simp: get_at_def)

lemma get_at_Nil [simp]: "get_at [] i = None"
  by (simp add: get_at_def)

lemma get_at_append_length [simp]: "get_at (xs @ y # ys) (length xs) = Some y"
  by (simp add: get_at_def)

text \<open>Substring search (\<open>str::contains\<close>).\<close>

fun str_contains :: "'a list \<Rightarrow> 'a list \<Rightarrow> bool" where
  "str_contains [] needle = (needle = [])"
| "str_contains (c # s) needle = (prefix needle (c # s) \<or> str_contains s needle)"

lemma str_contains_sublist: "str_contains s needle \<longleftrightarrow> sublist needle s"
  by (induction s) (auto simp: sublist_Cons_right)

text \<open>\<open>split_once\<close> and \<open>rsplit_once\<close> on a single character.\<close>

fun split_once :: "('a \<Rightarrow> bool) \<Rightarrow> 'a list \<Rightarrow> ('a list \<times> 'a list) option" where
  "split_once p [] = None"
| "split_once p (c # s) =
     (if p c then Some ([], s)
      else map_option (\<lambda>(a, b). (c # a, b)) (split_once p s))"

definition rsplit_once :: "('a \<Rightarrow> bool) \<Rightarrow> 'a list \<Rightarrow> ('a list \<times> 'a list) option" where
  "rsplit_once p s = map_option (\<lambda>(a, b). (rev b, rev a)) (split_once p (rev s))"

lemma split_once_Some:
  "split_once p s = Some (a, b) \<Longrightarrow> \<exists>c. s = a @ c # b \<and> p c \<and> (\<forall>x\<in>set a. \<not> p x)"
  by (induction s arbitrary: a) (auto split: if_splits)

lemma split_once_None: "split_once p s = None \<longleftrightarrow> (\<forall>x\<in>set s. \<not> p x)"
  by (induction s) auto

lemma rsplit_once_Some:
  assumes "rsplit_once p s = Some (a, b)"
  shows "\<exists>c. s = a @ c # b \<and> p c \<and> (\<forall>x\<in>set b. \<not> p x)"
proof -
  from assms obtain a' b' where *: "split_once p (rev s) = Some (a', b')" "a = rev b'" "b = rev a'"
    by (auto simp: rsplit_once_def)
  from split_once_Some [OF *(1)] obtain c where
    c: "rev s = a' @ c # b'" "p c" "\<forall>x\<in>set a'. \<not> p x" by blast
  from c(1) have "rev (rev s) = rev (a' @ c # b')" by simp
  then have "s = rev b' @ c # rev a'" by simp
  with c * show ?thesis by auto
qed

lemma rsplit_once_None: "rsplit_once p s = None \<longleftrightarrow> (\<forall>x\<in>set s. \<not> p x)"
  by (simp add: rsplit_once_def split_once_None)

text \<open>\<open>split_ascii_whitespace\<close> and \<open>split_whitespace\<close>: the maximal runs outside \<open>p\<close>.\<close>

fun split_runs_aux :: "('a \<Rightarrow> bool) \<Rightarrow> 'a list \<Rightarrow> 'a list \<Rightarrow> 'a list list" where
  "split_runs_aux p acc [] = (if acc = [] then [] else [rev acc])"
| "split_runs_aux p acc (c # s) =
     (if p c then (if acc = [] then split_runs_aux p [] s else rev acc # split_runs_aux p [] s)
      else split_runs_aux p (c # acc) s)"

definition split_runs :: "('a \<Rightarrow> bool) \<Rightarrow> 'a list \<Rightarrow> 'a list list" where
  "split_runs p s = split_runs_aux p [] s"

definition split_ascii_whitespace :: "bytes \<Rightarrow> bytes list" where
  "split_ascii_whitespace s = split_runs is_ascii_whitespace s"

lemma split_runs_aux_runs:
  "list_all (Not \<circ> p) acc \<Longrightarrow> list_all (\<lambda>r. r \<noteq> [] \<and> list_all (Not \<circ> p) r) (split_runs_aux p acc s)"
  by (induction s arbitrary: acc) simp_all

lemma split_runs_runs: "r \<in> set (split_runs p s) \<Longrightarrow> r \<noteq> [] \<and> (\<forall>c\<in>set r. \<not> p c)"
  using split_runs_aux_runs [of p "[]" s] by (simp add: split_runs_def list_all_iff)

section \<open>Fixed-width integers\<close>

type_synonym u8 = "8 word"
type_synonym u32 = "32 word"
type_synonym u64 = "64 word"
type_synonym i64 = "64 word"

definition saturating_add :: "'a::len word \<Rightarrow> 'a word \<Rightarrow> 'a word" where
  "saturating_add a b = (if unat a + unat b < 2 ^ LENGTH('a) then a + b else - 1)"

definition saturating_mul :: "'a::len word \<Rightarrow> 'a word \<Rightarrow> 'a word" where
  "saturating_mul a b = (if unat a * unat b < 2 ^ LENGTH('a) then a * b else - 1)"

definition saturating_sub :: "'a::len word \<Rightarrow> 'a word \<Rightarrow> 'a word" where
  "saturating_sub a b = (if b \<le> a then a - b else 0)"

definition checked_add :: "'a::len word \<Rightarrow> 'a word \<Rightarrow> 'a word option" where
  "checked_add a b = (if unat a + unat b < 2 ^ LENGTH('a) then Some (a + b) else None)"

definition checked_mul :: "'a::len word \<Rightarrow> 'a word \<Rightarrow> 'a word option" where
  "checked_mul a b = (if unat a * unat b < 2 ^ LENGTH('a) then Some (a * b) else None)"

lemma unat_lt2p_bound: "unat (a :: 'a::len word) < 2 ^ LENGTH('a)"
  by (rule unsigned_less)

lemma unat_max_word: "unat (- 1 :: 'a::len word) = 2 ^ LENGTH('a) - 1"
  by (simp add: unsigned_minus_1_eq_mask mask_eq_exp_minus_1)

lemma unat_saturating_add:
  fixes a b :: "'a::len word"
  shows "unat (saturating_add a b) = min (unat a + unat b) (2 ^ LENGTH('a) - 1)"
  using unat_lt2p_bound [of a] by (auto simp: saturating_add_def unat_word_ariths unat_max_word)

lemma unat_saturating_mul:
  fixes a b :: "'a::len word"
  shows "unat (saturating_mul a b) = min (unat a * unat b) (2 ^ LENGTH('a) - 1)"
  using unat_lt2p_bound [of a] by (auto simp: saturating_mul_def unat_word_ariths unat_max_word)

lemma unat_saturating_sub:
  fixes a b :: "'a::len word"
  shows "unat (saturating_sub a b) = unat a - unat b"
  by (auto simp: saturating_sub_def word_le_nat_alt unat_sub_if')

lemma le_saturating_add [simp]: "a \<le> saturating_add a (b :: 'a::len word)"
proof -
  have "unat a \<le> 2 ^ LENGTH('a) - 1"
    using unat_lt2p_bound [of a] by linarith
  then show ?thesis by (simp add: word_le_nat_alt unat_saturating_add)
qed

lemma checked_add_Some:
  fixes a b :: "'a::len word"
  shows "checked_add a b = Some c \<Longrightarrow> unat c = unat a + unat b"
  by (auto simp: checked_add_def unat_word_ariths split: if_splits)

lemma checked_mul_Some:
  fixes a b :: "'a::len word"
  shows "checked_mul a b = Some c \<Longrightarrow> unat c = unat a * unat b"
  by (auto simp: checked_mul_def unat_word_ariths split: if_splits)

lemma checked_add_None:
  fixes a b :: "'a::len word"
  shows "checked_add a b = None \<longleftrightarrow> 2 ^ LENGTH('a) \<le> unat a + unat b"
  by (auto simp: checked_add_def)

lemma checked_mul_None:
  fixes a b :: "'a::len word"
  shows "checked_mul a b = None \<longleftrightarrow> 2 ^ LENGTH('a) \<le> unat a * unat b"
  by (auto simp: checked_mul_def)

end
