(* ===== verification/Byte_Codec.thy ===== *)
theory Byte_Codec
  imports Prelude "HOL-Library.Char_ord" "HOL-Library.List_Lexorder"
begin

text \<open>
  Fixed-width integers as bytes: the \<open>to_be_bytes\<close>, \<open>from_be_bytes\<close>, \<open>to_le_bytes\<close> and
  \<open>from_le_bytes\<close> of the Rust library, with their round trips.  Byte strings are ordered
  lexicographically by unsigned byte, which is the order of \<open>Vec<u8>\<close>; the big-endian encodings
  keep the order of the numbers, which is what the key layouts of the store rely on.
\<close>

section \<open>Big-endian and little-endian digits\<close>

primrec be_bytes :: "nat \<Rightarrow> nat \<Rightarrow> bytes" where
  "be_bytes 0 k = []"
| "be_bytes (Suc n) k = be_bytes n (k div 256) @ [char_of k]"

primrec le_bytes :: "nat \<Rightarrow> nat \<Rightarrow> bytes" where
  "le_bytes 0 k = []"
| "le_bytes (Suc n) k = char_of k # le_bytes n (k div 256)"

primrec from_be :: "bytes \<Rightarrow> nat" where
  "from_be [] = 0"
| "from_be (c # cs) = byte_val c * 256 ^ length cs + from_be cs"

primrec from_le :: "bytes \<Rightarrow> nat" where
  "from_le [] = 0"
| "from_le (c # cs) = byte_val c + 256 * from_le cs"

lemma length_be_bytes [simp]: "length (be_bytes n k) = n"
  by (induction n arbitrary: k) auto

lemma length_le_bytes [simp]: "length (le_bytes n k) = n"
  by (induction n arbitrary: k) auto

lemma from_be_snoc [simp]: "from_be (cs @ [c]) = from_be cs * 256 + byte_val c"
  by (induction cs) (auto simp: algebra_simps)

lemma byte_val_char_of [simp]: "byte_val (char_of (k :: nat)) = k mod 256"
  by simp

lemma byte_val_less: "byte_val c < 256"
  by simp

lemma mod_mult_div_256: "(k :: nat) mod (256 * 256 ^ n) = (k div 256) mod 256 ^ n * 256 + k mod 256"
  by (metis mod_mult2_eq mult.commute)

lemma from_be_be_bytes: "from_be (be_bytes n k) = k mod 256 ^ n"
  by (induction n arbitrary: k) (simp_all add: mod_mult_div_256)

lemma from_le_le_bytes: "from_le (le_bytes n k) = k mod 256 ^ n"
  by (induction n arbitrary: k) (simp_all add: mod_mult_div_256)

lemma from_be_less: "from_be cs < 256 ^ length cs"
proof (induction cs)
  case (Cons c cs)
  have c: "byte_val c + 1 \<le> 256"
    using byte_val_less [of c] by linarith
  have "byte_val c * 256 ^ length cs + from_be cs < (byte_val c + 1) * 256 ^ length cs"
    using Cons by simp
  also have "\<dots> \<le> 256 * 256 ^ length cs"
    using c mult_le_mono1 by blast
  finally show ?case
    by simp
qed simp

lemma from_le_less: "from_le cs < 256 ^ length cs"
proof (induction cs)
  case (Cons c cs)
  have "byte_val c + 256 * from_le cs < 256 + 256 * from_le cs"
    using byte_val_less [of c] by (rule add_strict_right_mono)
  also have "\<dots> \<le> 256 * 256 ^ length cs"
    using Cons by simp
  finally show ?case
    by simp
qed simp

lemma be_bytes_from_be: "be_bytes (length cs) (from_be cs) = cs"
proof (induction cs rule: rev_induct)
  case (snoc c cs)
  have d: "(from_be cs * 256 + byte_val c) div 256 = from_be cs"
    by (simp add: div_mult_self3)
  have "char_of (from_be cs * 256 + byte_val c) = c"
    by (simp add: char_of_eq_iff take_bit_eq_mod)
  then show ?case
    using snoc by (simp add: d)
qed simp

lemma le_bytes_from_le: "le_bytes (length cs) (from_le cs) = cs"
proof (induction cs)
  case (Cons c cs)
  have d: "(byte_val c + 256 * from_le cs) div 256 = from_le cs"
    by simp
  have "char_of (byte_val c + 256 * from_le cs) = c"
    by (simp add: char_of_eq_iff take_bit_eq_mod)
  then show ?case
    using Cons by (simp add: d)
qed simp

section \<open>Order\<close>

lemma byte_less_iff: "(c :: byte) < d \<longleftrightarrow> byte_val c < byte_val d"
  by (simp add: less_char_def)

lemma from_be_order:
  "length xs = length ys \<Longrightarrow> xs < ys \<longleftrightarrow> from_be xs < from_be ys"
proof (induction xs ys rule: list_induct2)
  case (Cons x xs y ys)
  have bx: "from_be xs < 256 ^ length xs" and by': "from_be ys < 256 ^ length xs"
    using from_be_less [of xs] from_be_less [of ys] Cons.hyps by simp_all
  have lt: "from_be (a # as) < from_be (b # bs)"
    if "byte_val a < byte_val b" "length as = length bs" for a b as bs
  proof -
    have "byte_val a * 256 ^ length as + from_be as < (byte_val a + 1) * 256 ^ length as"
      using from_be_less [of as] by simp
    also have "\<dots> \<le> byte_val b * 256 ^ length as"
      using that(1) by (intro mult_le_mono1) simp
    finally show ?thesis
      using that(2) by simp
  qed
  consider "byte_val x < byte_val y" | "byte_val y < byte_val x" | "x = y"
    by (metis linorder_neqE_nat of_char_eq_iff)
  then show ?case
  proof cases
    case 1
    then show ?thesis
      using lt [of x y xs ys] Cons.hyps by (simp add: byte_less_iff)
  next
    case 2
    then have "from_be (y # ys) < from_be (x # xs)"
      using lt [of y x ys xs] Cons.hyps by simp
    moreover have "\<not> x # xs < y # ys"
      using 2 by (auto simp: byte_less_iff)
    ultimately show ?thesis
      by simp
  next
    case 3
    then show ?thesis
      using Cons by simp
  qed
qed simp

lemma be_bytes_inj:
  "j < 256 ^ n \<Longrightarrow> k < 256 ^ n \<Longrightarrow> be_bytes n j = be_bytes n k \<longleftrightarrow> j = k"
  by (metis from_be_be_bytes mod_less)

lemma le_bytes_inj:
  "j < 256 ^ n \<Longrightarrow> k < 256 ^ n \<Longrightarrow> le_bytes n j = le_bytes n k \<longleftrightarrow> j = k"
  by (metis from_le_le_bytes mod_less)

lemma be_bytes_less:
  "j < 256 ^ n \<Longrightarrow> k < 256 ^ n \<Longrightarrow> be_bytes n j < be_bytes n k \<longleftrightarrow> j < k"
  by (simp add: from_be_order from_be_be_bytes)

lemma append_less_append:
  "length xs = length ys \<Longrightarrow>
    xs @ us < ys @ vs \<longleftrightarrow> xs < ys \<or> (xs = ys \<and> us < (vs :: bytes))"
  by (induction xs ys rule: list_induct2) auto

lemma append_less_same [simp]: "xs @ us < xs @ vs \<longleftrightarrow> us < (vs :: bytes)"
  by (simp add: append_less_append)

lemma append_le_same [simp]: "xs @ us \<le> xs @ vs \<longleftrightarrow> us \<le> (vs :: bytes)"
  by (simp add: le_less)

lemma prefix_le: "prefix p k \<Longrightarrow> p \<le> (k :: bytes)"
  by (metis append_le_same append_Nil2 prefix_def Nil_le_Cons)

section \<open>Machine words\<close>

definition be32 :: "u32 \<Rightarrow> bytes" where
  "be32 w = be_bytes 4 (unat w)"

definition be64 :: "u64 \<Rightarrow> bytes" where
  "be64 w = be_bytes 8 (unat w)"

definition le32 :: "u32 \<Rightarrow> bytes" where
  "le32 w = le_bytes 4 (unat w)"

definition le64 :: "u64 \<Rightarrow> bytes" where
  "le64 w = le_bytes 8 (unat w)"

text \<open>
  \<open>bytes.try_into().map(u64::from_be_bytes)\<close> and its relatives: a slice converts to an array
  only when it has the array's length.
\<close>

definition try_be32 :: "bytes \<Rightarrow> u32 option" where
  "try_be32 bs = (if length bs = 4 then Some (of_nat (from_be bs)) else None)"

definition try_be64 :: "bytes \<Rightarrow> u64 option" where
  "try_be64 bs = (if length bs = 8 then Some (of_nat (from_be bs)) else None)"

definition try_le32 :: "bytes \<Rightarrow> u32 option" where
  "try_le32 bs = (if length bs = 4 then Some (of_nat (from_le bs)) else None)"

definition try_le64 :: "bytes \<Rightarrow> u64 option" where
  "try_le64 bs = (if length bs = 8 then Some (of_nat (from_le bs)) else None)"

lemma unat_u32_less: "unat (w :: u32) < 256 ^ 4"
  using unat_lt2p_bound [of w] by simp

lemma unat_u64_less: "unat (w :: u64) < 256 ^ 8"
  using unat_lt2p_bound [of w] by simp

lemma length_word_bytes [simp]:
  "length (be32 w) = 4" "length (be64 v) = 8" "length (le32 w) = 4" "length (le64 v) = 8"
  by (simp_all add: be32_def be64_def le32_def le64_def)

lemma word_bytes_inj [simp]:
  "be32 w = be32 w' \<longleftrightarrow> w = w'" "be64 v = be64 v' \<longleftrightarrow> v = v'"
  "le32 w = le32 w' \<longleftrightarrow> w = w'" "le64 v = le64 v' \<longleftrightarrow> v = v'"
  unfolding be32_def be64_def le32_def le64_def
  using be_bytes_inj [OF unat_u32_less unat_u32_less, of w w']
    be_bytes_inj [OF unat_u64_less unat_u64_less, of v v']
    le_bytes_inj [OF unat_u32_less unat_u32_less, of w w']
    le_bytes_inj [OF unat_u64_less unat_u64_less, of v v']
  by (simp_all add: word_unat_eq_iff)

lemma be32_less [simp]: "be32 w < be32 w' \<longleftrightarrow> w < w'"
  unfolding be32_def by (subst be_bytes_less) (simp_all add: unat_u32_less word_less_nat_alt del: power_numeral)

lemma be64_less [simp]: "be64 w < be64 w' \<longleftrightarrow> w < w'"
  unfolding be64_def by (subst be_bytes_less) (simp_all add: unat_u64_less word_less_nat_alt del: power_numeral)

lemma try_word_bytes [simp]:
  "try_be32 (be32 w) = Some w" "try_be64 (be64 v) = Some v"
  "try_le32 (le32 w) = Some w" "try_le64 (le64 v) = Some v"
  using unat_u32_less [of w] unat_u64_less [of v]
  by (simp_all add: try_be32_def try_be64_def try_le32_def try_le64_def be32_def be64_def le32_def
      le64_def from_be_be_bytes from_le_le_bytes)

lemma try_be32_Some: "try_be32 bs = Some w \<longleftrightarrow> bs = be32 w"
proof
  assume "try_be32 bs = Some w"
  then have l: "length bs = 4" and w: "w = of_nat (from_be bs)"
    by (auto simp: try_be32_def split: if_splits)
  have "from_be bs < 2 ^ 32"
    using from_be_less [of bs] l by simp
  then have "unat w = from_be bs"
    unfolding w by (simp add: unat_of_nat)
  then show "bs = be32 w"
    using be_bytes_from_be [of bs] l by (simp add: be32_def)
qed simp

lemma try_be64_Some: "try_be64 bs = Some w \<longleftrightarrow> bs = be64 w"
proof
  assume "try_be64 bs = Some w"
  then have l: "length bs = 8" and w: "w = of_nat (from_be bs)"
    by (auto simp: try_be64_def split: if_splits)
  have "from_be bs < 2 ^ 64"
    using from_be_less [of bs] l by simp
  then have "unat w = from_be bs"
    unfolding w by (simp add: unat_of_nat)
  then show "bs = be64 w"
    using be_bytes_from_be [of bs] l by (simp add: be64_def)
qed simp

lemma try_be64_len: "length bs = 8 \<Longrightarrow> \<exists>w. bs = be64 w"
  by (metis try_be64_Some try_be64_def)

lemma try_be32_len: "length bs = 4 \<Longrightarrow> \<exists>w. bs = be32 w"
  by (metis try_be32_Some try_be32_def)

end
