(* ===== verification/Store_Key.thy ===== *)
theory Store_Key
  imports Byte_Codec
begin

text \<open>
  The key layout of the store (\<open>crates/store/src/key.rs\<close>) and the batch builder
  (\<open>crates/store/src/batch.rs\<close>).  A key is the subspace byte, the account identifier and the
  document identifier in big-endian bytes around the collection byte, then a free suffix.  The
  lemmas show that the layout is injective, that scanning the prefix of an account or of a
  collection meets exactly the keys of that account or collection, and that the byte order of
  keys is the order of their components.
\<close>

section \<open>Subspaces and collections\<close>

datatype subspace = Property | Index | ChangeLog | BlobRef | Queue | Registry | Counter

fun subspace_byte :: "subspace \<Rightarrow> byte" where
  "subspace_byte Property = CHR ''p''"
| "subspace_byte Index = CHR ''i''"
| "subspace_byte ChangeLog = CHR ''c''"
| "subspace_byte BlobRef = CHR ''b''"
| "subspace_byte Queue = CHR ''q''"
| "subspace_byte Registry = CHR ''r''"
| "subspace_byte Counter = CHR ''n''"

definition subspace_from_byte :: "byte \<Rightarrow> subspace option" where
  "subspace_from_byte b =
    (if b = CHR ''p'' then Some Property
     else if b = CHR ''i'' then Some Index
     else if b = CHR ''c'' then Some ChangeLog
     else if b = CHR ''b'' then Some BlobRef
     else if b = CHR ''q'' then Some Queue
     else if b = CHR ''r'' then Some Registry
     else if b = CHR ''n'' then Some Counter
     else None)"

fun subspace_name :: "subspace \<Rightarrow> bytes" where
  "subspace_name Property = ''property''"
| "subspace_name Index = ''index''"
| "subspace_name ChangeLog = ''changelog''"
| "subspace_name BlobRef = ''blobref''"
| "subspace_name Queue = ''queue''"
| "subspace_name Registry = ''registry''"
| "subspace_name Counter = ''counter''"

datatype collection = Mailbox | Email | Thread | Identity | EmailSubmission | SieveScript
  | EmailVanished | PushSubscription | Calendar | CalendarEvent | AddressBook | ContactCard

fun collection_byte :: "collection \<Rightarrow> byte" where
  "collection_byte Mailbox = CHR 0x00"
| "collection_byte Email = CHR 0x01"
| "collection_byte Thread = CHR 0x02"
| "collection_byte Identity = CHR 0x03"
| "collection_byte EmailSubmission = CHR 0x04"
| "collection_byte SieveScript = CHR 0x05"
| "collection_byte EmailVanished = CHR 0x06"
| "collection_byte PushSubscription = CHR 0x07"
| "collection_byte Calendar = CHR 0x08"
| "collection_byte CalendarEvent = CHR 0x09"
| "collection_byte AddressBook = CHR 0x0A"
| "collection_byte ContactCard = CHR 0x0B"

definition collection_from_byte :: "byte \<Rightarrow> collection option" where
  "collection_from_byte b =
    (if b = CHR 0x00 then Some Mailbox
     else if b = CHR 0x01 then Some Email
     else if b = CHR 0x02 then Some Thread
     else if b = CHR 0x03 then Some Identity
     else if b = CHR 0x04 then Some EmailSubmission
     else if b = CHR 0x05 then Some SieveScript
     else if b = CHR 0x06 then Some EmailVanished
     else if b = CHR 0x07 then Some PushSubscription
     else if b = CHR 0x08 then Some Calendar
     else if b = CHR 0x09 then Some CalendarEvent
     else if b = CHR 0x0A then Some AddressBook
     else if b = CHR 0x0B then Some ContactCard
     else None)"

fun collection_name :: "collection \<Rightarrow> bytes" where
  "collection_name Mailbox = ''mailbox''"
| "collection_name Email = ''email''"
| "collection_name Thread = ''thread''"
| "collection_name Identity = ''identity''"
| "collection_name EmailSubmission = ''email-submission''"
| "collection_name SieveScript = ''sieve-script''"
| "collection_name EmailVanished = ''email-vanished''"
| "collection_name PushSubscription = ''push-subscription''"
| "collection_name Calendar = ''calendar''"
| "collection_name CalendarEvent = ''calendar-event''"
| "collection_name AddressBook = ''address-book''"
| "collection_name ContactCard = ''contact-card''"

lemma subspace_from_byte_inverse [simp]: "subspace_from_byte (subspace_byte s) = Some s"
  by (cases s) (simp_all add: subspace_from_byte_def)

lemma collection_from_byte_inverse [simp]: "collection_from_byte (collection_byte c) = Some c"
  by (cases c) (simp_all add: collection_from_byte_def)

lemma subspace_from_byte_Some: "subspace_from_byte b = Some s \<Longrightarrow> b = subspace_byte s"
  by (auto simp: subspace_from_byte_def split: if_splits)

lemma subspace_byte_inj [simp]: "subspace_byte s = subspace_byte t \<longleftrightarrow> s = t"
  by (metis option.inject subspace_from_byte_inverse)

lemma collection_byte_inj [simp]: "collection_byte c = collection_byte d \<longleftrightarrow> c = d"
  by (metis option.inject collection_from_byte_inverse)

section \<open>Keys and key prefixes\<close>

record key =
  k_subspace :: subspace
  k_account :: u32
  k_collection :: collection
  k_document :: u32
  k_suffix :: bytes

definition key_new :: "subspace \<Rightarrow> u32 \<Rightarrow> collection \<Rightarrow> u32 \<Rightarrow> key" where
  "key_new s a c d =
    \<lparr>k_subspace = s, k_account = a, k_collection = c, k_document = d, k_suffix = []\<rparr>"

definition with_suffix :: "bytes \<Rightarrow> key \<Rightarrow> key" where
  "with_suffix x k = k\<lparr>k_suffix := x\<rparr>"

definition key_encode :: "key \<Rightarrow> bytes" where
  "key_encode k =
    [subspace_byte (k_subspace k)] @ be32 (k_account k) @ [collection_byte (k_collection k)]
      @ be32 (k_document k) @ k_suffix k"

record key_prefix =
  kp_subspace :: subspace
  kp_account :: "u32 option"
  kp_collection :: "collection option"

definition prefix_subspace :: "subspace \<Rightarrow> key_prefix" where
  "prefix_subspace s = \<lparr>kp_subspace = s, kp_account = None, kp_collection = None\<rparr>"

definition prefix_account :: "subspace \<Rightarrow> u32 \<Rightarrow> key_prefix" where
  "prefix_account s a = \<lparr>kp_subspace = s, kp_account = Some a, kp_collection = None\<rparr>"

definition prefix_collection :: "subspace \<Rightarrow> u32 \<Rightarrow> collection \<Rightarrow> key_prefix" where
  "prefix_collection s a c =
    \<lparr>kp_subspace = s, kp_account = Some a, kp_collection = Some c\<rparr>"

definition prefix_encode :: "key_prefix \<Rightarrow> bytes" where
  "prefix_encode p =
    subspace_byte (kp_subspace p) #
      (case kp_account p of
         None \<Rightarrow> []
       | Some a \<Rightarrow> be32 a @
           (case kp_collection p of None \<Rightarrow> [] | Some c \<Rightarrow> [collection_byte c]))"

lemma key_new_sels [simp]:
  "k_subspace (key_new s a c d) = s" "k_account (key_new s a c d) = a"
  "k_collection (key_new s a c d) = c" "k_document (key_new s a c d) = d"
  "k_suffix (key_new s a c d) = []"
  by (simp_all add: key_new_def)

lemma with_suffix_sels [simp]:
  "k_subspace (with_suffix x k) = k_subspace k" "k_account (with_suffix x k) = k_account k"
  "k_collection (with_suffix x k) = k_collection k"
  "k_document (with_suffix x k) = k_document k" "k_suffix (with_suffix x k) = x"
  by (simp_all add: with_suffix_def)

lemma prefix_encode_subspace [simp]: "prefix_encode (prefix_subspace s) = [subspace_byte s]"
  by (simp add: prefix_encode_def prefix_subspace_def)

section \<open>The layout\<close>

lemma key_encode_inj [simp]: "key_encode j = key_encode k \<longleftrightarrow> j = (k :: key)"
  by (auto simp: key_encode_def intro!: key.equality)

lemma prefix_be32_append:
  "prefix (be32 a @ p) (be32 b @ q) \<longleftrightarrow> a = b \<and> prefix p q"
proof -
  have "prefix (xs @ p) (ys @ q) \<longleftrightarrow> xs = ys \<and> prefix p q" if "length xs = length ys"
    for xs ys :: bytes
    using that by (induction xs ys rule: list_induct2) auto
  then show ?thesis
    by simp
qed

text \<open>The keys below an encoded prefix are those whose components agree with it.\<close>

definition key_under :: "key_prefix \<Rightarrow> key \<Rightarrow> bool" where
  "key_under p k \<longleftrightarrow>
    k_subspace k = kp_subspace p \<and>
    (\<forall>a. kp_account p = Some a \<longrightarrow>
       k_account k = a \<and> (\<forall>c. kp_collection p = Some c \<longrightarrow> k_collection k = c))"

text \<open>
  C22. Scanning a key prefix meets exactly the keys of that subspace, account and collection: an
  encoded key starts with an encoded prefix if and only if the key's subspace is the prefix's,
  its account is the prefix's when the prefix names one, and its collection is the prefix's when
  the prefix names one too.  A scan over one account's records never reaches another account's.
\<close>

theorem prefix_scan_exact:
  "prefix (prefix_encode p) (key_encode k) \<longleftrightarrow> key_under p k"
proof (cases "kp_account p")
  case None
  then show ?thesis
    by (auto simp: prefix_encode_def key_encode_def key_under_def)
next
  case (Some a)
  have nil: "prefix (be32 a) (be32 b @ q) \<longleftrightarrow> a = b" for b q
    using prefix_be32_append [of a "[]" b q] by simp
  show ?thesis
    by (cases "kp_collection p")
      (auto simp: Some prefix_encode_def key_encode_def key_under_def prefix_be32_append nil)
qed

lemma key_encode_less:
  "k_subspace j = k_subspace k \<Longrightarrow> k_account j = k_account k \<Longrightarrow>
   k_collection j = k_collection k \<Longrightarrow>
    key_encode j < key_encode k \<longleftrightarrow>
      k_document j < k_document k \<or>
      (k_document j = k_document k \<and> k_suffix j < k_suffix k)"
  by (simp add: key_encode_def append_less_append)

section \<open>Batches\<close>

datatype write_op =
    Set_Op (op_key: bytes) (op_value: bytes)
  | Delete_Op (op_key: bytes)
  | Add_Op (op_key: bytes) (op_by: i64)

record batch_builder =
  bb_ops :: "write_op list"

definition bb_new :: batch_builder where
  "bb_new = \<lparr>bb_ops = []\<rparr>"

definition bb_push :: "write_op \<Rightarrow> batch_builder \<Rightarrow> batch_builder" where
  "bb_push op b = b\<lparr>bb_ops := bb_ops b @ [op]\<rparr>"

definition bb_set :: "bytes \<Rightarrow> bytes \<Rightarrow> batch_builder \<Rightarrow> batch_builder" where
  "bb_set k v = bb_push (Set_Op k v)"

definition bb_delete :: "bytes \<Rightarrow> batch_builder \<Rightarrow> batch_builder" where
  "bb_delete k = bb_push (Delete_Op k)"

definition bb_add :: "bytes \<Rightarrow> i64 \<Rightarrow> batch_builder \<Rightarrow> batch_builder" where
  "bb_add k amount = bb_push (Add_Op k amount)"

definition bb_extend :: "write_op list \<Rightarrow> batch_builder \<Rightarrow> batch_builder" where
  "bb_extend os b = b\<lparr>bb_ops := bb_ops b @ os\<rparr>"

definition bb_len :: "batch_builder \<Rightarrow> nat" where
  "bb_len b = length (bb_ops b)"

definition bb_is_empty :: "batch_builder \<Rightarrow> bool" where
  "bb_is_empty b \<longleftrightarrow> bb_ops b = []"

definition bb_build :: "batch_builder \<Rightarrow> write_op list" where
  "bb_build b = bb_ops b"

lemma bb_build_simps [simp]:
  "bb_build bb_new = []"
  "bb_build (bb_push op b) = bb_build b @ [op]"
  "bb_build (bb_set k v b) = bb_build b @ [Set_Op k v]"
  "bb_build (bb_delete k b) = bb_build b @ [Delete_Op k]"
  "bb_build (bb_add k n b) = bb_build b @ [Add_Op k n]"
  "bb_build (bb_extend os b) = bb_build b @ os"
  by (simp_all add: bb_build_def bb_new_def bb_push_def bb_set_def bb_delete_def bb_add_def
      bb_extend_def)

end
