(* ===== verification/Store_Trait.thy ===== *)
theory Store_Trait
  imports Store_Key
begin

text \<open>
  The storage interface (\<open>crates/store/src/traits_store.rs\<close>) and the error type of the server
  (\<open>crates/core/src/error.rs\<close>).  A backend is the record of the methods of the \<open>Store\<close> trait,
  each taking the backend's state explicitly; the components that hold a \<open>dyn Store\<close> take that
  record.  The locale \<open>kv_store\<close> is the contract the components rely on: the backend holds a
  finite map from byte strings to byte strings, a successful operation has its effect on the map,
  a failing one has none, and a scan yields the rows below a prefix in key order.
\<close>

section \<open>Errors\<close>

datatype error =
    Config_Error bytes | Io_Error bytes | Store_Error bytes | Serialize_Error bytes
  | NotFound_Error bytes | InvalidInput_Error bytes | Unauthorized_Error bytes
  | Forbidden_Error bytes | Protocol_Error bytes | Internal_Error bytes

fun is_client_error :: "error \<Rightarrow> bool" where
  "is_client_error (NotFound_Error m) = True"
| "is_client_error (InvalidInput_Error m) = True"
| "is_client_error (Unauthorized_Error m) = True"
| "is_client_error (Forbidden_Error m) = True"
| "is_client_error (Protocol_Error m) = True"
| "is_client_error e = False"

section \<open>The trait\<close>

record value_assert =
  va_key :: bytes
  va_expected :: "bytes option"

datatype flow = Continue | Stop

type_synonym row = "bytes \<times> bytes"

text \<open>
  \<open>iterate\<close> and \<open>iterate_from\<close> call a visitor on the rows one by one.  The record holds the
  sequence of rows a scan produces, an \<open>Inl\<close> standing for the error that ends it, and
  \<open>visit_rows\<close> runs the visitor, which carries its captured variables as a state.
\<close>

record 's store =
  st_get :: "'s \<Rightarrow> bytes \<Rightarrow> error + bytes option"
  st_put :: "'s \<Rightarrow> bytes \<Rightarrow> bytes \<Rightarrow> (error + unit) \<times> 's"
  st_delete :: "'s \<Rightarrow> bytes \<Rightarrow> (error + unit) \<times> 's"
  st_iterate :: "'s \<Rightarrow> key_prefix \<Rightarrow> (error + row) list"
  st_iterate_from :: "'s \<Rightarrow> key_prefix \<Rightarrow> bytes \<Rightarrow> (error + row) list"
  st_batch :: "'s \<Rightarrow> write_op list \<Rightarrow> (error + unit) \<times> 's"
  st_batch_conditional :: "'s \<Rightarrow> value_assert list \<Rightarrow> write_op list \<Rightarrow> (error + bool) \<times> 's"
  st_add_and_get :: "'s \<Rightarrow> bytes \<Rightarrow> i64 \<Rightarrow> (error + i64) \<times> 's"
  st_counter :: "'s \<Rightarrow> bytes \<Rightarrow> error + i64"

type_synonym 'a visitor = "bytes \<Rightarrow> bytes \<Rightarrow> 'a \<Rightarrow> error + (flow \<times> 'a)"

fun visit_rows :: "'a visitor \<Rightarrow> (error + row) list \<Rightarrow> 'a \<Rightarrow> error + 'a" where
  "visit_rows visit [] a = Inr a"
| "visit_rows visit (Inl e # rows) a = Inl e"
| "visit_rows visit (Inr (k, v) # rows) a =
    (case visit k v a of
       Inl e \<Rightarrow> Inl e
     | Inr (Stop, a') \<Rightarrow> Inr a'
     | Inr (Continue, a') \<Rightarrow> visit_rows visit rows a')"

definition exists_key :: "'s store \<Rightarrow> 's \<Rightarrow> bytes \<Rightarrow> error + bool" where
  "exists_key S s k = and_then (st_get S s k) (\<lambda>v. Inr (v \<noteq> None))"

text \<open>The default bodies of \<open>iterate_from\<close> and \<open>batch_conditional\<close>.\<close>

definition default_iterate_from :: "'s store \<Rightarrow> 's \<Rightarrow> key_prefix \<Rightarrow> bytes \<Rightarrow> 'a visitor \<Rightarrow> 'a \<Rightarrow> error + 'a" where
  "default_iterate_from S s p start visit a =
    visit_rows (\<lambda>k v a. if k < start then Inr (Continue, a) else visit k v a) (st_iterate S s p) a"

fun check_asserts :: "'s store \<Rightarrow> 's \<Rightarrow> value_assert list \<Rightarrow> error + bool" where
  "check_asserts S s [] = Inr True"
| "check_asserts S s (a # as) =
    and_then (st_get S s (va_key a))
      (\<lambda>v. if v \<noteq> va_expected a then Inr False else check_asserts S s as)"

definition default_batch_conditional ::
  "'s store \<Rightarrow> 's \<Rightarrow> value_assert list \<Rightarrow> write_op list \<Rightarrow> (error + bool) \<times> 's" where
  "default_batch_conditional S s as os =
    (case check_asserts S s as of
       Inl e \<Rightarrow> (Inl e, s)
     | Inr False \<Rightarrow> (Inr False, s)
     | Inr True \<Rightarrow>
         (case st_batch S s os of
            (Inl e, s') \<Rightarrow> (Inl e, s')
          | (Inr _, s') \<Rightarrow> (Inr True, s')))"

section \<open>What the operations mean\<close>

type_synonym content = "bytes \<Rightarrow> bytes option"

text \<open>A counter is eight little-endian bytes; an absent one counts as zero.\<close>

definition counter_at :: "content \<Rightarrow> bytes \<Rightarrow> i64 option" where
  "counter_at m k = (case m k of None \<Rightarrow> Some 0 | Some b \<Rightarrow> try_le64 b)"

text \<open>Only the keys of the counter and blob-reference subspaces can be added to in a batch.\<close>

definition countable_key :: "bytes \<Rightarrow> bool" where
  "countable_key k \<longleftrightarrow>
    (case k of [] \<Rightarrow> False | b # _ \<Rightarrow> b = subspace_byte Counter \<or> b = subspace_byte BlobRef)"

fun op_effect :: "write_op \<Rightarrow> content \<Rightarrow> content option" where
  "op_effect (Set_Op k v) m = Some (m(k \<mapsto> v))"
| "op_effect (Delete_Op k) m = Some (m(k := None))"
| "op_effect (Add_Op k n) m =
    (if countable_key k
     then (case counter_at m k of None \<Rightarrow> None | Some c \<Rightarrow> Some (m(k \<mapsto> le64 (c + n))))
     else None)"

fun ops_effect :: "write_op list \<Rightarrow> content \<Rightarrow> content option" where
  "ops_effect [] m = Some m"
| "ops_effect (p # ps) m = (case op_effect p m of None \<Rightarrow> None | Some m' \<Rightarrow> ops_effect ps m')"

definition scan :: "content \<Rightarrow> bytes \<Rightarrow> bytes \<Rightarrow> row list" where
  "scan m bound start =
    map (\<lambda>k. (k, the (m k))) (sorted_list_of_set {k \<in> dom m. prefix bound k \<and> start \<le> k})"

text \<open>\<open>rows_follow rows xs\<close>: the rows are \<open>xs\<close>, possibly cut short by an error.\<close>

definition rows_follow :: "('e + row) list \<Rightarrow> row list \<Rightarrow> bool" where
  "rows_follow rows xs \<longleftrightarrow>
    rows = map Inr xs \<or> (\<exists>ys e zs. prefix ys xs \<and> rows = map Inr ys @ Inl e # zs)"

lemma visit_rows_follow:
  assumes "rows_follow rows xs" and "visit_rows visit rows a = Inr b"
  shows "visit_rows visit (map Inr xs) a = Inr b"
proof -
  have cut: "visit_rows visit (map Inr (ys @ us)) a = Inr b"
    if "visit_rows visit (map Inr ys @ Inl e # zs) a = Inr b" for ys us e zs
    using that
  proof (induction ys arbitrary: a)
    case (Cons y ys)
    then show ?case
      by (cases y) (auto split: sum.splits flow.splits prod.splits)
  qed simp
  from assms show ?thesis
    by (auto simp: rows_follow_def prefix_def simp del: map_append dest: cut)
qed

lemma rows_follow_exact [simp]: "rows_follow (map Inr xs) xs"
  by (simp add: rows_follow_def)

lemma rows_follow_cut: "rows_follow (Inl e # rows) xs"
proof -
  have "prefix [] xs" "Inl e # rows = map Inr [] @ Inl e # rows"
    by simp_all
  then show ?thesis
    unfolding rows_follow_def by blast
qed

lemma rows_follow_Cons: "rows_follow rows xs \<Longrightarrow> rows_follow (Inr x # rows) (x # xs)"
proof -
  assume "rows_follow rows xs"
  then consider "rows = map Inr xs"
    | ys e zs where "prefix ys xs" "rows = map Inr ys @ Inl e # zs"
    unfolding rows_follow_def by blast
  then show ?thesis
  proof cases
    case (2 ys e zs)
    then have "prefix (x # ys) (x # xs)" "Inr x # rows = map Inr (x # ys) @ Inl e # zs"
      by simp_all
    then show ?thesis
      unfolding rows_follow_def by blast
  qed (simp add: rows_follow_def)
qed

text \<open>A scan that stops nowhere folds over its rows.\<close>

lemma visit_rows_Continue:
  assumes "\<And>k v a. (k, v) \<in> set xs \<Longrightarrow> visit k v a = Inr (Continue, f k v a)"
  shows "visit_rows visit (map Inr xs) a = Inr (fold (\<lambda>(k, v). f k v) xs a)"
  using assms by (induction xs arbitrary: a) auto

lemma ops_effect_append:
  "ops_effect (ps @ qs) m = (case ops_effect ps m of None \<Rightarrow> None | Some m' \<Rightarrow> ops_effect qs m')"
  by (induction ps arbitrary: m) (auto split: option.splits)

lemma ops_effect_deletes:
  "ops_effect (map Delete_Op ks) m = Some (\<lambda>k. if k \<in> set ks then None else m k)"
  by (induction ks arbitrary: m) auto

section \<open>Scans\<close>

lemma scan_sorted: "sorted (map fst (scan m bound start))" "distinct (map fst (scan m bound start))"
  by (simp_all add: scan_def comp_def)

lemma set_scan:
  "finite (dom m) \<Longrightarrow> (k, v) \<in> set (scan m bound start) \<longleftrightarrow> m k = Some v \<and> prefix bound k \<and> start \<le> k"
  by (auto simp: scan_def image_iff)

lemma scan_cong:
  "(\<And>k. prefix bound k \<Longrightarrow> start \<le> k \<Longrightarrow> m k = m' k) \<Longrightarrow> (\<And>k. prefix bound k \<Longrightarrow> start \<le> k \<longleftrightarrow> start' \<le> k) \<Longrightarrow>
    scan m bound start = scan m' bound start'"
proof -
  assume m: "\<And>k. prefix bound k \<Longrightarrow> start \<le> k \<Longrightarrow> m k = m' k"
    and st: "\<And>k. prefix bound k \<Longrightarrow> start \<le> k \<longleftrightarrow> start' \<le> k"
  have eq: "{k \<in> dom m. prefix bound k \<and> start \<le> k} = {k \<in> dom m'. prefix bound k \<and> start' \<le> k}"
    using m st by (auto simp: dom_def)
  show ?thesis
  proof (cases "finite {k \<in> dom m'. prefix bound k \<and> start' \<le> k}")
    case True
    then show ?thesis
      unfolding scan_def eq using m st by (auto intro!: map_cong)
  next
    case False
    then show ?thesis
      unfolding scan_def eq by simp
  qed
qed

lemma sorted_map_unique:
  "sorted (map fst xs) \<Longrightarrow> distinct (map fst xs) \<Longrightarrow> sorted (map fst ys) \<Longrightarrow> distinct (map fst ys) \<Longrightarrow>
    set xs = set ys \<Longrightarrow> xs = (ys :: row list)"
proof -
  assume x: "sorted (map fst xs)" "distinct (map fst xs)" and y: "sorted (map fst ys)" "distinct (map fst ys)"
    and eq: "set xs = set ys"
  have m: "map fst xs = map fst ys"
    using x y eq by (metis list.set_map sorted_distinct_set_unique)
  have "inj_on fst (set xs \<union> set ys)"
    using x(2) eq by (simp add: distinct_map)
  then show "xs = ys"
    using m by (meson inj_on_map_eq_map)
qed

lemma scan_filter:
  assumes "finite (dom m)"
  shows "scan m bound start = filter (\<lambda>(k, v). prefix bound k) (scan m [] start)"
proof (rule sorted_map_unique)
  have s: "sorted (map fst (filter P xs))" if "sorted (map fst xs)" for P and xs :: "row list"
    using that by (induction xs) auto
  show "sorted (map fst (filter (\<lambda>(k, v). prefix bound k) (scan m [] start)))"
    by (intro s scan_sorted)
  show "distinct (map fst (filter (\<lambda>(k, v). prefix bound k) (scan m [] start)))"
    using scan_sorted(2) distinct_map_filter by blast
  show "set (scan m bound start) = set (filter (\<lambda>(k, v). prefix bound k) (scan m [] start))"
    using set_scan [OF assms] by auto
qed (rule scan_sorted)+

section \<open>The contract\<close>

locale kv_store =
  fixes S :: "'s store" and content :: "'s \<Rightarrow> content"
  assumes finite_content: "finite (dom (content s))"
    and get_ok: "st_get S s k = Inr r \<Longrightarrow> content s k = r"
    and put_ok: "st_put S s k v = (Inr u, s') \<Longrightarrow> content s' = (content s)(k \<mapsto> v)"
    and put_err: "st_put S s k v = (Inl e, s') \<Longrightarrow> content s' = content s"
    and delete_ok: "st_delete S s k = (Inr u, s') \<Longrightarrow> content s' = (content s)(k := None)"
    and delete_err: "st_delete S s k = (Inl e, s') \<Longrightarrow> content s' = content s"
    and iterate_rows:
      "rows_follow (st_iterate S s p) (scan (content s) (prefix_encode p) [])"
    and iterate_from_rows:
      "rows_follow (st_iterate_from S s p start) (scan (content s) (prefix_encode p) start)"
    and batch_ok:
      "st_batch S s ps = (Inr u, s') \<Longrightarrow> ops_effect ps (content s) = Some m \<Longrightarrow> content s' = m"
    and batch_err: "st_batch S s ps = (Inl e, s') \<Longrightarrow> content s' = content s"
    and conditional_ok:
      "st_batch_conditional S s as ps = (Inr True, s') \<Longrightarrow> ops_effect ps (content s) = Some m \<Longrightarrow>
        content s' = m \<and> (\<forall>a\<in>set as. content s (va_key a) = va_expected a)"
    and conditional_no:
      "st_batch_conditional S s as ps = (Inr False, s') \<Longrightarrow>
        content s' = content s \<and> (\<exists>a\<in>set as. content s (va_key a) \<noteq> va_expected a)"
    and conditional_err:
      "st_batch_conditional S s as ps = (Inl e, s') \<Longrightarrow> content s' = content s"
    and add_ok:
      "st_add_and_get S s k n = (Inr i, s') \<Longrightarrow>
        (\<exists>c. counter_at (content s) k = Some c \<and> i = c + n) \<and>
        content s' = (content s)(k \<mapsto> le64 i)"
    and add_err: "st_add_and_get S s k n = (Inl e, s') \<Longrightarrow> content s' = content s"
    and counter_ok: "st_counter S s k = Inr i \<Longrightarrow> counter_at (content s) k = Some i"
begin

lemmas set_scan_content = set_scan [OF finite_content]

lemma iterate_visit:
  "visit_rows visit (st_iterate S s p) a = Inr b \<Longrightarrow>
    visit_rows visit (map Inr (scan (content s) (prefix_encode p) [])) a = Inr b"
  using visit_rows_follow [OF iterate_rows] .

lemma iterate_from_visit:
  "visit_rows visit (st_iterate_from S s p start) a = Inr b \<Longrightarrow>
    visit_rows visit (map Inr (scan (content s) (prefix_encode p) start)) a = Inr b"
  using visit_rows_follow [OF iterate_from_rows] .

lemma exists_key_ok: "exists_key S s k = Inr b \<Longrightarrow> b \<longleftrightarrow> content s k \<noteq> None"
  by (auto simp: exists_key_def and_then_eq_Inr dest: get_ok)

lemma check_asserts_ok:
  "check_asserts S s as = Inr b \<Longrightarrow> b \<longleftrightarrow> (\<forall>a\<in>set as. content s (va_key a) = va_expected a)"
  by (induction as) (auto simp: and_then_eq_Inr split: if_splits dest: get_ok)

end

end
