(* ===== verification/Store_Tags.thy ===== *)
theory Store_Tags
  imports Store_Trait
begin

text \<open>
  Scans of one tag.  Several components keep their records in the registry subspace below a tag
  byte and read them by a scan that starts at the tag and stops at the first larger one.  The
  lemmas here say what such a scan visits.
\<close>

definition tagged :: "byte \<Rightarrow> byte \<Rightarrow> bytes \<Rightarrow> bool" where
  "tagged r t k \<longleftrightarrow> prefix [r, t] k"

lemma tagged_Cons [simp]: "tagged r t (r' # t' # j) \<longleftrightarrow> r = r' \<and> t = t'"
  by (simp add: tagged_def)

lemma tagged_from: "prefix [r] k \<Longrightarrow> [r, t] \<le> k \<Longrightarrow> \<exists>u j. k = r # u # j \<and> t \<le> (u :: byte)"
  by (cases k; cases "tl k") auto

lemma tagged_split:
  assumes "sorted (map fst rows)" and "\<forall>x\<in>set rows. \<exists>u j. fst x = r # u # j \<and> t \<le> u"
  shows "rows = filter (\<lambda>(k, v). tagged r t k) rows @ filter (\<lambda>(k, v). \<not> tagged r t k) (rows :: row list)"
  using assms
proof (induction rows)
  case (Cons x rows)
  obtain u j v where x: "x = (r # u # j, v)" "t \<le> u"
    using Cons.prems(2) by (cases x) auto
  show ?case
  proof (cases "u = t")
    case True
    then show ?thesis
      using Cons x by simp
  next
    case False
    have "\<not> tagged r t k'" if "(k', v') \<in> set rows" for k' v'
    proof -
      have "\<exists>u j. fst (k', v') = r # u # j \<and> t \<le> u"
        using bspec [OF Cons.prems(2), of "(k', v')"] that by simp
      then obtain u' j' where k': "k' = r # u' # j'" "t \<le> u'"
        by auto
      have "fst x \<le> fst (k', v')"
        using Cons.prems(1) bspec [of "set rows" "\<lambda>y. fst x \<le> fst y", OF _ that] by simp
      then have "u \<le> u'"
        using x k' by (auto simp: less_le)
      then show ?thesis
        using k' x False by auto
    qed
    then have "filter (\<lambda>(k, v). tagged r t k) rows = []" "filter (\<lambda>(k, v). \<not> tagged r t k) rows = rows"
      by (auto simp: filter_empty_conv filter_id_conv)
    then show ?thesis
      using x False by simp
  qed
qed simp

text \<open>
  A visitor that appends the output of \<open>g\<close> on the rows of the tag and stops behind them returns
  the outputs of all rows of the tag.
\<close>

lemma visit_tagged_rows:
  assumes "\<forall>(k, v)\<in>set xs. tagged r t k"
    and "\<forall>x\<in>set ys. \<exists>u j. fst x = r # u # j \<and> t < u"
    and "\<And>j v a. visit (r # t # j) v a = Inr (Continue, a @ g (r # t # j) v)"
    and "\<And>u j v a. t < u \<Longrightarrow> visit (r # u # j) v a = Inr (Stop, a)"
  shows "visit_rows visit (map Inr (xs @ ys)) a = Inr (a @ concat (map (\<lambda>(k, v). g k v) xs))"
  using assms(1)
proof (induction xs arbitrary: a)
  case Nil
  show ?case
  proof (cases ys)
    case (Cons y ys')
    then obtain u j v where "y = (r # u # j, v)" "t < u"
      using assms(2) by (cases y) auto
    then show ?thesis
      using Cons assms(4) by simp
  qed simp
next
  case (Cons x xs)
  then obtain j v where "x = (r # t # j, v)"
    by (cases x) (auto simp: tagged_def prefix_def)
  then show ?case
    using Cons assms(3) by simp
qed

text \<open>Operations that set and delete keys of one kind only.\<close>

definition ops_on :: "(bytes \<Rightarrow> bool) \<Rightarrow> write_op list \<Rightarrow> bool" where
  "ops_on P ops \<longleftrightarrow>
    list_all (\<lambda>p. case p of Set_Op k _ \<Rightarrow> P k | Delete_Op k \<Rightarrow> P k | Add_Op _ _ \<Rightarrow> False) ops"

lemma ops_on_simps [simp]:
  "ops_on P []" "ops_on P (Set_Op k v # ops) \<longleftrightarrow> P k \<and> ops_on P ops"
  "ops_on P (Delete_Op k # ops) \<longleftrightarrow> P k \<and> ops_on P ops" "\<not> ops_on P (Add_Op k n # ops)"
  "ops_on P (ops @ ops') \<longleftrightarrow> ops_on P ops \<and> ops_on P ops'"
  by (simp_all add: ops_on_def)

lemma ops_on_effect:
  "ops_on P ops \<Longrightarrow> \<exists>m'. ops_effect ops m = Some m' \<and> (\<forall>k. \<not> P k \<longrightarrow> m' k = m k)"
proof (induction ops arbitrary: m)
  case (Cons p ops)
  then show ?case
    by (cases p) fastforce+
qed simp

context kv_store
begin

definition tag_rows :: "'s \<Rightarrow> subspace \<Rightarrow> byte \<Rightarrow> row list" where
  "tag_rows s sub t =
    filter (\<lambda>(k, v). tagged (subspace_byte sub) t k) (scan (content s) [subspace_byte sub] [subspace_byte sub, t])"

lemma set_tag_rows:
  "(k, v) \<in> set (tag_rows s sub t) \<longleftrightarrow> content s k = Some v \<and> tagged (subspace_byte sub) t k"
proof -
  have "prefix [b] k \<and> [b, t] \<le> k" if "tagged b t k" for b
    using that by (auto simp: tagged_def prefix_def)
  then show ?thesis
    by (auto simp: tag_rows_def set_scan_content)
qed

lemma tag_visit:
  assumes "visit_rows visit (st_iterate_from S s (prefix_subspace sub) [subspace_byte sub, t]) [] = Inr b"
    and "\<And>j v a. visit (subspace_byte sub # t # j) v a = Inr (Continue, a @ g (subspace_byte sub # t # j) v)"
    and "\<And>u j v a. t < u \<Longrightarrow> visit (subspace_byte sub # u # j) v a = Inr (Stop, a)"
  shows "b = concat (map (\<lambda>(k, v). g k v) (tag_rows s sub t))"
proof -
  let ?r = "subspace_byte sub"
  let ?rows = "scan (content s) [?r] [?r, t]"
  let ?ys = "filter (\<lambda>(k, v). \<not> tagged ?r t k) ?rows"
  have from_t: "\<forall>x\<in>set ?rows. \<exists>u j. fst x = ?r # u # j \<and> t \<le> u"
    by (auto simp: set_scan_content dest!: tagged_from)
  have "\<forall>x\<in>set ?ys. \<exists>u j. fst x = ?r # u # j \<and> t < u"
    using from_t by (fastforce simp: less_le)
  moreover have "\<forall>(k, v)\<in>set (tag_rows s sub t). tagged ?r t k"
    by (auto simp: tag_rows_def)
  ultimately have "visit_rows visit (map Inr (tag_rows s sub t @ ?ys)) [] =
      Inr ([] @ concat (map (\<lambda>(k, v). g k v) (tag_rows s sub t)))"
    using assms(2,3) by (intro visit_tagged_rows) auto
  moreover have "tag_rows s sub t @ ?ys = ?rows"
    unfolding tag_rows_def using tagged_split [OF scan_sorted(1) from_t] by simp
  moreover have "visit_rows visit (map Inr ?rows) [] = Inr b"
    using iterate_from_visit [OF assms(1)] by simp
  ultimately show ?thesis
    by simp
qed

end

end
