(* ===== verification/Store_Rocksdb.thy ===== *)
theory Store_Rocksdb
  imports Store_Trait
begin

text \<open>
  The production backend (\<open>crates/store/src/rocksdb_store.rs\<close>, \<open>rocksdb_write.rs\<close>).  RocksDB
  itself is not part of the repository: the record \<open>rocksdb\<close> has the calls the backend makes of
  it, and the locale \<open>rocksdb_laws\<close> states what its documentation promises of them.  Every
  definition takes the record as an argument.  The main result is that the backend built on such
  a database meets the contract \<open>kv_store\<close> of the \<open>Store\<close> trait.
\<close>

section \<open>The database interface\<close>

datatype rk_kind = Rk_Busy | Rk_TryAgain | Rk_MergeInProgress | Rk_Other

record rk_error =
  rk_kind :: rk_kind
  rk_message :: bytes

datatype txn_op =
    Txn_Put subspace bytes bytes
  | Txn_Delete subspace bytes
  | Txn_Merge subspace bytes bytes

record 'd rocksdb =
  rk_cf_handle :: "'d \<Rightarrow> bytes \<Rightarrow> bool"
  rk_get_cf :: "'d \<Rightarrow> subspace \<Rightarrow> bytes \<Rightarrow> rk_error + bytes option"
  rk_put_cf :: "'d \<Rightarrow> subspace \<Rightarrow> bytes \<Rightarrow> bytes \<Rightarrow> (rk_error + unit) \<times> 'd"
  rk_delete_cf :: "'d \<Rightarrow> subspace \<Rightarrow> bytes \<Rightarrow> (rk_error + unit) \<times> 'd"
  rk_iterator_cf :: "'d \<Rightarrow> subspace \<Rightarrow> bytes \<Rightarrow> (rk_error + row) list"
  rk_get_for_update :: "'d \<Rightarrow> subspace \<Rightarrow> bytes \<Rightarrow> rk_error + bytes option"
  rk_stage :: "'d \<Rightarrow> txn_op \<Rightarrow> rk_error + unit"
  rk_commit :: "'d \<Rightarrow> txn_op list \<Rightarrow> (rk_error + unit) \<times> 'd"

section \<open>Reading and single writes\<close>

definition column_family_name :: "subspace \<Rightarrow> bytes" where
  "column_family_name s = [subspace_byte s]"

definition cf :: "'d rocksdb \<Rightarrow> 'd \<Rightarrow> subspace \<Rightarrow> error + subspace" where
  "cf R d s =
    (if rk_cf_handle R d (column_family_name s) then Inr s
     else Inl (Store_Error (''rocksdb column family for '' @ subspace_name s @ '' is missing'')))"

definition subspace_of :: "bytes \<Rightarrow> error + subspace" where
  "subspace_of k =
    ok_or (case k of [] \<Rightarrow> None | b # _ \<Rightarrow> subspace_from_byte b)
      (Store_Error ''key does not begin with a known subspace byte'')"

definition cf_of :: "'d rocksdb \<Rightarrow> 'd \<Rightarrow> bytes \<Rightarrow> error + subspace" where
  "cf_of R d k = and_then (subspace_of k) (cf R d)"

definition rk_fail :: "bytes \<Rightarrow> rk_error \<Rightarrow> error" where
  "rk_fail what e = Store_Error (what @ rk_message e)"

definition rocksdb_get :: "'d rocksdb \<Rightarrow> 'd \<Rightarrow> bytes \<Rightarrow> error + bytes option" where
  "rocksdb_get R d k =
    and_then (cf_of R d k)
      (\<lambda>h. case rk_get_cf R d h k of
         Inl e \<Rightarrow> Inl (rk_fail ''rocksdb get failed: '' e)
       | Inr v \<Rightarrow> Inr v)"

definition rocksdb_put :: "'d rocksdb \<Rightarrow> 'd \<Rightarrow> bytes \<Rightarrow> bytes \<Rightarrow> (error + unit) \<times> 'd" where
  "rocksdb_put R d k v =
    (case cf_of R d k of
       Inl e \<Rightarrow> (Inl e, d)
     | Inr h \<Rightarrow>
         (case rk_put_cf R d h k v of
            (Inl e, d') \<Rightarrow> (Inl (rk_fail ''rocksdb put failed: '' e), d')
          | (Inr u, d') \<Rightarrow> (Inr u, d')))"

definition rocksdb_delete :: "'d rocksdb \<Rightarrow> 'd \<Rightarrow> bytes \<Rightarrow> (error + unit) \<times> 'd" where
  "rocksdb_delete R d k =
    (case cf_of R d k of
       Inl e \<Rightarrow> (Inl e, d)
     | Inr h \<Rightarrow>
         (case rk_delete_cf R d h k of
            (Inl e, d') \<Rightarrow> (Inl (rk_fail ''rocksdb delete failed: '' e), d')
          | (Inr u, d') \<Rightarrow> (Inr u, d')))"

text \<open>The rows \<open>iterate_bounded\<close> hands to its visitor.\<close>

fun bounded_rows :: "bytes \<Rightarrow> (rk_error + row) list \<Rightarrow> (error + row) list" where
  "bounded_rows bound [] = []"
| "bounded_rows bound (Inl e # rows) = [Inl (rk_fail ''rocksdb iterate failed: '' e)]"
| "bounded_rows bound (Inr (k, v) # rows) =
    (if \<not> prefix bound k then [] else Inr (k, v) # bounded_rows bound rows)"

definition iterate_bounded :: "'d rocksdb \<Rightarrow> 'd \<Rightarrow> bytes \<Rightarrow> bytes \<Rightarrow> (error + row) list" where
  "iterate_bounded R d bound seek =
    (case cf_of R d bound of
       Inl e \<Rightarrow> [Inl e]
     | Inr h \<Rightarrow> bounded_rows bound (rk_iterator_cf R d h seek))"

definition rocksdb_iterate :: "'d rocksdb \<Rightarrow> 'd \<Rightarrow> key_prefix \<Rightarrow> (error + row) list" where
  "rocksdb_iterate R d p = iterate_bounded R d (prefix_encode p) (prefix_encode p)"

definition rocksdb_iterate_from ::
  "'d rocksdb \<Rightarrow> 'd \<Rightarrow> key_prefix \<Rightarrow> bytes \<Rightarrow> (error + row) list" where
  "rocksdb_iterate_from R d p start =
    (let bound = prefix_encode p;
         seek = (if bound < start then start else bound)
     in iterate_bounded R d bound seek)"

text \<open>The merge operator of the counter column families; \<open>None\<close> marks a failed merge.\<close>

fun merge_operands :: "i64 \<Rightarrow> bytes list \<Rightarrow> i64 option" where
  "merge_operands acc [] = Some acc"
| "merge_operands acc (x # xs) =
    (case try_le64 x of None \<Rightarrow> None | Some n \<Rightarrow> merge_operands (acc + n) xs)"

definition counter_merge :: "bytes option \<Rightarrow> bytes list \<Rightarrow> bytes option" where
  "counter_merge existing operands =
    (case (case existing of Some b \<Rightarrow> try_le64 b | None \<Rightarrow> Some 0) of
       None \<Rightarrow> None
     | Some start \<Rightarrow> map_option le64 (merge_operands start operands))"

definition has_merge_operator :: "subspace \<Rightarrow> bool" where
  "has_merge_operator s \<longleftrightarrow> s = Counter \<or> s = BlobRef"

definition SCHEMA_VERSION :: u32 where
  "SCHEMA_VERSION = 1"

definition schema_version_key :: bytes where
  "schema_version_key = [subspace_byte Registry, CHR 0x02]"

definition check_schema_version :: "'d rocksdb \<Rightarrow> bytes \<Rightarrow> 'd \<Rightarrow> (error + unit) \<times> 'd" where
  "check_schema_version R path d =
    (case rocksdb_get R d schema_version_key of
       Inl e \<Rightarrow> (Inl e, d)
     | Inr None \<Rightarrow> rocksdb_put R d schema_version_key (le32 SCHEMA_VERSION)
     | Inr (Some b) \<Rightarrow>
         (case try_le32 b of
            None \<Rightarrow> (Inl (Store_Error (''corrupt schema version stamp in the store at '' @ path)), d)
          | Some stored \<Rightarrow>
              if stored = SCHEMA_VERSION then (Inr (), d)
              else (Inl (Store_Error (''the store at '' @ path @ '' has schema version ''
                @ show_nat (unat stored) @ '' but this build expects ''
                @ show_nat (unat SCHEMA_VERSION) @ ''; refusing to open it'')), d)))"

section \<open>Transactions\<close>

datatype commit_error = Commit_RocksDb rk_error | Commit_Internal error

definition COMMIT_RETRY_LIMIT :: nat where
  "COMMIT_RETRY_LIMIT = 16"

definition COMMIT_RETRY_BUDGET :: nat where
  "COMMIT_RETRY_BUDGET = 5 * 10 ^ 9"

definition recoverable :: "rk_error \<Rightarrow> bool" where
  "recoverable e \<longleftrightarrow> rk_kind e = Rk_Busy \<or> rk_kind e = Rk_TryAgain \<or> rk_kind e = Rk_MergeInProgress"

definition checked_shl64 :: "u64 \<Rightarrow> nat \<Rightarrow> u64 option" where
  "checked_shl64 w n = (if n < 64 then Some (push_bit n w) else None)"

definition backoff_ceiling :: "nat \<Rightarrow> u64" where
  "backoff_ceiling attempt =
    (case checked_shl64 5 attempt of None \<Rightarrow> 50 | Some grown \<Rightarrow> min grown 50)"

text \<open>
  The loop asks the clock how many nanoseconds have passed since it started (\<open>elapsed\<close>, by
  attempt), and between two attempts other threads may write to the database (\<open>others\<close>).
\<close>

function with_retry ::
  "(nat \<Rightarrow> nat) \<Rightarrow> (nat \<Rightarrow> 'd \<Rightarrow> 'd) \<Rightarrow> ('d \<Rightarrow> (commit_error + 'a) \<times> 'd) \<Rightarrow> nat \<Rightarrow> 'd \<Rightarrow>
    (error + 'a) \<times> 'd" where
  "with_retry elapsed others commit attempt d =
    (case commit d of
       (Inr v, d') \<Rightarrow> (Inr v, d')
     | (Inl (Commit_Internal e), d') \<Rightarrow> (Inl e, d')
     | (Inl (Commit_RocksDb e), d') \<Rightarrow>
         if recoverable e \<and> attempt < COMMIT_RETRY_LIMIT \<and> elapsed attempt < COMMIT_RETRY_BUDGET
         then with_retry elapsed others commit (attempt + 1) (others attempt d')
         else (Inl (rk_fail ''rocksdb write failed: '' e), d'))"
  by pat_completeness auto
termination
  by (relation "measure (\<lambda>(_, _, _, attempt, _). COMMIT_RETRY_LIMIT - attempt)") auto

declare with_retry.simps [simp del]

definition internal :: "error + 'a \<Rightarrow> commit_error + 'a" where
  "internal r = (case r of Inl e \<Rightarrow> Inl (Commit_Internal e) | Inr v \<Rightarrow> Inr v)"

definition rocks :: "rk_error + 'a \<Rightarrow> commit_error + 'a" where
  "rocks r = (case r of Inl e \<Rightarrow> Inl (Commit_RocksDb e) | Inr v \<Rightarrow> Inr v)"

fun txn_op_of :: "'d rocksdb \<Rightarrow> 'd \<Rightarrow> write_op \<Rightarrow> commit_error + txn_op" where
  "txn_op_of R d (Set_Op k v) = and_then (internal (cf_of R d k)) (\<lambda>h. Inr (Txn_Put h k v))"
| "txn_op_of R d (Delete_Op k) = and_then (internal (cf_of R d k)) (\<lambda>h. Inr (Txn_Delete h k))"
| "txn_op_of R d (Add_Op k n) = and_then (internal (cf_of R d k)) (\<lambda>h. Inr (Txn_Merge h k (le64 n)))"

fun stage_ops :: "'d rocksdb \<Rightarrow> 'd \<Rightarrow> write_op list \<Rightarrow> commit_error + txn_op list" where
  "stage_ops R d [] = Inr []"
| "stage_ops R d (p # ps) =
    and_then (txn_op_of R d p) (\<lambda>t.
    and_then (rocks (rk_stage R d t)) (\<lambda>_.
    and_then (stage_ops R d ps) (\<lambda>ts. Inr (t # ts))))"

definition commit_txn :: "'d rocksdb \<Rightarrow> txn_op list \<Rightarrow> 'a \<Rightarrow> 'd \<Rightarrow> (commit_error + 'a) \<times> 'd" where
  "commit_txn R ts v d =
    (case rk_commit R d ts of
       (Inl e, d') \<Rightarrow> (Inl (Commit_RocksDb e), d')
     | (Inr _, d') \<Rightarrow> (Inr v, d'))"

definition batch_attempt :: "'d rocksdb \<Rightarrow> write_op list \<Rightarrow> 'a \<Rightarrow> 'd \<Rightarrow> (commit_error + 'a) \<times> 'd" where
  "batch_attempt R ps v d =
    (case stage_ops R d ps of
       Inl e \<Rightarrow> (Inl e, d)
     | Inr ts \<Rightarrow> commit_txn R ts v d)"

definition apply_batch ::
  "'d rocksdb \<Rightarrow> (nat \<Rightarrow> nat) \<Rightarrow> (nat \<Rightarrow> 'd \<Rightarrow> 'd) \<Rightarrow> 'd \<Rightarrow> write_op list \<Rightarrow> (error + unit) \<times> 'd" where
  "apply_batch R elapsed others d ps =
    (if ps = [] then (Inr (), d)
     else with_retry elapsed others (batch_attempt R ps ()) 0 d)"

fun txn_asserts :: "'d rocksdb \<Rightarrow> 'd \<Rightarrow> value_assert list \<Rightarrow> commit_error + bool" where
  "txn_asserts R d [] = Inr True"
| "txn_asserts R d (a # as) =
    and_then (internal (cf_of R d (va_key a))) (\<lambda>h.
    and_then (rocks (rk_get_for_update R d h (va_key a))) (\<lambda>current.
      let matches = (case (current, va_expected a) of
          (Some b, Some expected) \<Rightarrow> b = expected
        | (None, None) \<Rightarrow> True
        | _ \<Rightarrow> False)
      in if \<not> matches then Inr False else txn_asserts R d as))"

definition conditional_attempt ::
  "'d rocksdb \<Rightarrow> value_assert list \<Rightarrow> write_op list \<Rightarrow> 'd \<Rightarrow> (commit_error + bool) \<times> 'd" where
  "conditional_attempt R as ps d =
    (case txn_asserts R d as of
       Inl e \<Rightarrow> (Inl e, d)
     | Inr False \<Rightarrow> (Inr False, d)
     | Inr True \<Rightarrow> batch_attempt R ps True d)"

definition apply_batch_conditional ::
  "'d rocksdb \<Rightarrow> (nat \<Rightarrow> nat) \<Rightarrow> (nat \<Rightarrow> 'd \<Rightarrow> 'd) \<Rightarrow> 'd \<Rightarrow> value_assert list \<Rightarrow> write_op list \<Rightarrow>
    (error + bool) \<times> 'd" where
  "apply_batch_conditional R elapsed others d as ps =
    (if as = [] then
       (case apply_batch R elapsed others d ps of
          (Inl e, d') \<Rightarrow> (Inl e, d')
        | (Inr _, d') \<Rightarrow> (Inr True, d'))
     else with_retry elapsed others (conditional_attempt R as ps) 0 d)"

definition decode_counter :: "bytes \<Rightarrow> error + i64" where
  "decode_counter b = ok_or (try_le64 b) (Store_Error ''counter value is not eight bytes'')"

definition add_attempt :: "'d rocksdb \<Rightarrow> bytes \<Rightarrow> i64 \<Rightarrow> 'd \<Rightarrow> (commit_error + i64) \<times> 'd" where
  "add_attempt R k n d =
    (case and_then (internal (cf_of R d k)) (\<lambda>h.
          and_then (rocks (rk_get_for_update R d h k)) (\<lambda>b.
          and_then (internal (case b of None \<Rightarrow> Inr 0 | Some b \<Rightarrow> decode_counter b)) (\<lambda>current.
          let nxt = current + n; t = Txn_Put h k (le64 nxt)
          in and_then (rocks (rk_stage R d t)) (\<lambda>_. Inr (nxt, t))))) of
       Inl e \<Rightarrow> (Inl e, d)
     | Inr (nxt, t) \<Rightarrow> commit_txn R [t] nxt d)"

definition add_counter ::
  "'d rocksdb \<Rightarrow> (nat \<Rightarrow> nat) \<Rightarrow> (nat \<Rightarrow> 'd \<Rightarrow> 'd) \<Rightarrow> 'd \<Rightarrow> bytes \<Rightarrow> i64 \<Rightarrow> (error + i64) \<times> 'd" where
  "add_counter R elapsed others d k n = with_retry elapsed others (add_attempt R k n) 0 d"

definition read_counter :: "'d rocksdb \<Rightarrow> 'd \<Rightarrow> bytes \<Rightarrow> error + i64" where
  "read_counter R d k =
    and_then (rocksdb_get R d k)
      (\<lambda>b. case b of Some b \<Rightarrow> decode_counter b | None \<Rightarrow> Inr 0)"

text \<open>\<open>impl Store for RocksdbStore\<close>, as one thread sees it.\<close>

definition rocksdb_store :: "'d rocksdb \<Rightarrow> (nat \<Rightarrow> nat) \<Rightarrow> 'd store" where
  "rocksdb_store R elapsed =
    \<lparr>st_get = rocksdb_get R,
     st_put = rocksdb_put R,
     st_delete = rocksdb_delete R,
     st_iterate = rocksdb_iterate R,
     st_iterate_from = rocksdb_iterate_from R,
     st_batch = apply_batch R elapsed (\<lambda>_ d. d),
     st_batch_conditional = apply_batch_conditional R elapsed (\<lambda>_ d. d),
     st_add_and_get = add_counter R elapsed (\<lambda>_ d. d),
     st_counter = read_counter R\<rparr>"

section \<open>What RocksDB promises\<close>

type_synonym cf_data = "subspace \<Rightarrow> bytes \<Rightarrow> bytes option"

fun txn_op_effect :: "txn_op \<Rightarrow> cf_data \<Rightarrow> cf_data option" where
  "txn_op_effect (Txn_Put s k v) m = Some (m(s := (m s)(k \<mapsto> v)))"
| "txn_op_effect (Txn_Delete s k) m = Some (m(s := (m s)(k := None)))"
| "txn_op_effect (Txn_Merge s k x) m =
    (if has_merge_operator s
     then map_option (\<lambda>v. m(s := (m s)(k \<mapsto> v))) (counter_merge (m s k) [x])
     else None)"

fun txn_effect :: "txn_op list \<Rightarrow> cf_data \<Rightarrow> cf_data option" where
  "txn_effect [] m = Some m"
| "txn_effect (t # ts) m = (case txn_op_effect t m of None \<Rightarrow> None | Some m' \<Rightarrow> txn_effect ts m')"

locale rocksdb_laws =
  fixes R :: "'d rocksdb" and data :: "'d \<Rightarrow> cf_data" and elapsed :: "nat \<Rightarrow> nat"
  assumes finite_data: "finite (dom (data d s))"
    and get_cf_ok: "rk_get_cf R d s k = Inr r \<Longrightarrow> data d s k = r"
    and put_cf_ok:
      "rk_put_cf R d s k v = (Inr u, d') \<Longrightarrow> data d' = (data d)(s := (data d s)(k \<mapsto> v))"
    and put_cf_err: "rk_put_cf R d s k v = (Inl e, d') \<Longrightarrow> data d' = data d"
    and delete_cf_ok:
      "rk_delete_cf R d s k = (Inr u, d') \<Longrightarrow> data d' = (data d)(s := (data d s)(k := None))"
    and delete_cf_err: "rk_delete_cf R d s k = (Inl e, d') \<Longrightarrow> data d' = data d"
    and iterator_cf_rows: "rows_follow (rk_iterator_cf R d s k) (scan (data d s) [] k)"
    and get_for_update_ok: "rk_get_for_update R d s k = Inr r \<Longrightarrow> data d s k = r"
    and commit_ok:
      "rk_commit R d ts = (Inr u, d') \<Longrightarrow> txn_effect ts (data d) = Some m \<Longrightarrow> data d' = m"
    and commit_err: "rk_commit R d ts = (Inl e, d') \<Longrightarrow> data d' = data d"

section \<open>Helper lemmas\<close>

definition content_map :: "cf_data \<Rightarrow> content" where
  "content_map m k = (case subspace_of k of Inl _ \<Rightarrow> None | Inr s \<Rightarrow> m s k)"

lemma subspace_of_key_encode [simp]: "subspace_of (key_encode k) = Inr (k_subspace k)"
  by (simp add: subspace_of_def key_encode_def)

lemma subspace_of_subspace_byte [simp]: "subspace_of (subspace_byte s # k) = Inr s"
  by (simp add: subspace_of_def)

lemma cf_of_subspace: "cf_of R d k = Inr h \<Longrightarrow> subspace_of k = Inr h"
  by (auto simp: cf_of_def cf_def and_then_eq_Inr split: if_splits)

lemma content_map_at: "subspace_of k = Inr h \<Longrightarrow> content_map m k = m h k"
  by (simp add: content_map_def)

lemma content_map_upd:
  "subspace_of k = Inr h \<Longrightarrow> content_map (m(h := (m h)(k := x))) = (content_map m)(k := x)"
  by (rule ext) (auto simp: content_map_def split: sum.splits)

lemma finite_content_map:
  assumes "\<And>s. finite (dom (m s))"
  shows "finite (dom (content_map m))"
proof (rule finite_subset)
  show "dom (content_map m) \<subseteq> (\<Union>s. dom (m s))"
  proof
    fix k
    assume "k \<in> dom (content_map m)"
    then show "k \<in> (\<Union>s. dom (m s))"
      by (cases "subspace_of k") (auto simp: content_map_def dom_def)
  qed
  have "(UNIV :: subspace set) = {Property, Index, ChangeLog, BlobRef, Queue, Registry, Counter}"
    using subspace.exhaust by blast
  then have "finite (UNIV :: subspace set)"
    by (metis finite.emptyI finite_insert)
  then show "finite (\<Union>s. dom (m s))"
    using assms by blast
qed

lemma subspace_of_prefix:
  "subspace_of p = Inr h \<Longrightarrow> prefix p k \<Longrightarrow> subspace_of k = Inr h"
  by (cases p; cases k) (auto simp: subspace_of_def)

lemma scan_content_map:
  assumes "subspace_of bound = Inr h"
  shows "scan (content_map m) bound start = scan (m h) bound start"
  by (rule scan_cong) (simp_all add: content_map_at subspace_of_prefix [OF assms])

lemma counter_merge_add:
  "counter_at m k = Some c \<Longrightarrow> counter_merge (m k) [le64 n] = Some (le64 (c + n))"
  by (auto simp: counter_at_def counter_merge_def split: option.splits)

lemma countable_key_merge:
  "countable_key k \<Longrightarrow> subspace_of k = Inr h \<Longrightarrow> has_merge_operator h"
  by (cases k) (auto simp: countable_key_def subspace_of_def has_merge_operator_def
      subspace_from_byte_def split: if_splits)

lemma txn_op_of_effect:
  assumes "txn_op_of R d p = Inr t" and "op_effect p (content_map m) = Some c"
  shows "\<exists>m'. txn_op_effect t m = Some m' \<and> content_map m' = c"
proof -
  have h: "\<exists>h. cf_of R d (op_key p) = Inr h"
    using assms(1) by (cases p) (auto simp: and_then_eq_Inr internal_def split: sum.splits)
  then obtain h where cf: "cf_of R d (op_key p) = Inr h" ..
  then have sub: "subspace_of (op_key p) = Inr h"
    by (rule cf_of_subspace)
  show ?thesis
  proof (cases p)
    case (Add_Op k n)
    with assms(2) obtain v where k: "countable_key k" "counter_at (content_map m) k = Some v"
      and c: "c = (content_map m)(k \<mapsto> le64 (v + n))"
      by (auto split: if_splits option.splits)
    have "counter_merge (m h k) [le64 n] = Some (le64 (v + n))"
      using counter_merge_add [OF k(2)] sub Add_Op by (simp add: content_map_at)
    then show ?thesis
      using assms(1) cf sub Add_Op c countable_key_merge [OF k(1)]
      by (auto simp: internal_def content_map_upd)
  qed (use assms cf sub in \<open>auto simp: internal_def content_map_upd\<close>)
qed

lemma stage_ops_effect:
  "stage_ops R d ps = Inr ts \<Longrightarrow> ops_effect ps (content_map m) = Some c \<Longrightarrow>
    \<exists>m'. txn_effect ts m = Some m' \<and> content_map m' = c"
proof (induction ps arbitrary: ts m)
  case (Cons p ps)
  from Cons.prems(1) obtain t us where t: "txn_op_of R d p = Inr t"
    and us: "stage_ops R d ps = Inr us" and ts: "ts = t # us"
    by (auto simp: and_then_eq_Inr)
  from Cons.prems(2) obtain c1 where c1: "op_effect p (content_map m) = Some c1"
    and c: "ops_effect ps c1 = Some c"
    by (auto split: option.splits)
  from txn_op_of_effect [OF t c1] obtain m1
    where m1: "txn_op_effect t m = Some m1" "content_map m1 = c1"
    by blast
  show ?case
    using Cons.IH [OF us, of m1] c m1 ts by simp
qed simp

text \<open>
  A property that failing attempts and the other threads keep holds where the loop commits or
  gives up.
\<close>

lemma with_retry_inv:
  assumes "with_retry elapsed others commit n d = (r, d')" and "I d"
    and fail: "\<And>d e d'. I d \<Longrightarrow> commit d = (Inl e, d') \<Longrightarrow> I d'"
    and others: "\<And>n d. I d \<Longrightarrow> I (others n d)"
  shows "(case r of Inl e \<Rightarrow> I d' | Inr v \<Rightarrow> (\<exists>d0. I d0 \<and> commit d0 = (Inr v, d')))"
  using assms(1,2)
proof (induction "COMMIT_RETRY_LIMIT - n" arbitrary: n d rule: less_induct)
  case less
  obtain x d1 where c: "commit d = (x, d1)"
    by (cases "commit d")
  show ?case
  proof (cases x)
    case (Inr v)
    then show ?thesis
      using less.prems c by (auto simp: with_retry.simps)
  next
    case (Inl ce)
    then have I: "I d1"
      using fail less.prems(2) c by blast
    show ?thesis
    proof (cases ce)
      case (Commit_Internal e)
      then show ?thesis
        using less.prems(1) c Inl I by (auto simp: with_retry.simps)
    next
      case (Commit_RocksDb e)
      show ?thesis
      proof (cases "recoverable e \<and> n < COMMIT_RETRY_LIMIT \<and> elapsed n < COMMIT_RETRY_BUDGET")
        case True
        then have "with_retry elapsed others commit (n + 1) (others n d1) = (r, d')"
          using less.prems(1) c Inl Commit_RocksDb by (subst (asm) with_retry.simps) simp
        moreover have "COMMIT_RETRY_LIMIT - (n + 1) < COMMIT_RETRY_LIMIT - n"
          using True by arith
        ultimately show ?thesis
          using less.hyps [of "n + 1" "others n d1"] I others by blast
      next
        case False
        then show ?thesis
          using less.prems(1) c Inl Commit_RocksDb I
          by (subst (asm) with_retry.simps) auto
      qed
    qed
  qed
qed

lemma iterator_prefix_segment:
  assumes "bound \<le> (j :: bytes)" "j \<le> k" "prefix bound k"
  shows "prefix bound j"
  using assms
proof (induction bound arbitrary: j k)
  case (Cons b bs)
  then show ?case
    by (cases j; cases k) auto
qed simp

lemma bounded_rows_follow:
  assumes "rows_follow rows xs" and "sorted (map fst xs)" and "\<And>k v. (k, v) \<in> set xs \<Longrightarrow> bound \<le> k"
  shows "rows_follow (bounded_rows bound rows) (filter (\<lambda>(k, v). prefix bound k) xs)"
proof -
  have none: "filter (\<lambda>(k, v). prefix bound k) zs = []"
    if "sorted (map fst zs)" "\<And>k v. (k, v) \<in> set zs \<Longrightarrow> bound \<le> k" "zs = (k, v) # ys" "\<not> prefix bound k"
    for zs ys :: "row list" and k v
    using that by (fastforce simp: filter_empty_conv intro: iterator_prefix_segment)
  have exact: "bounded_rows bound (map Inr ys) = map Inr (filter (\<lambda>(k, v). prefix bound k) ys)"
    if "sorted (map fst ys)" "\<And>k v. (k, v) \<in> set ys \<Longrightarrow> bound \<le> k" for ys
    using that
  proof (induction ys)
    case (Cons y ys)
    then show ?case
      using none [of "y # ys"] by (cases y) auto
  qed simp
  have cut: "rows_follow (bounded_rows bound (map Inr ys @ Inl e # zs))
      (filter (\<lambda>(k, v). prefix bound k) (ys @ us))"
    if "sorted (map fst (ys @ us))" "\<And>k v. (k, v) \<in> set (ys @ us) \<Longrightarrow> bound \<le> k" for ys us e zs
    using that
  proof (induction ys)
    case Nil
    then show ?case
      by (simp add: rows_follow_cut)
  next
    case (Cons y ys)
    obtain k v where y: "y = (k, v)"
      by (cases y)
    have IH: "rows_follow (bounded_rows bound (map Inr ys @ Inl e # zs))
      (filter (\<lambda>(k, v). prefix bound k) (ys @ us))"
      using Cons by auto
    show ?case
    proof (cases "prefix bound k")
      case True
      then show ?thesis
        using rows_follow_Cons [OF IH, of y] y by simp
    next
      case False
      then show ?thesis
        using none [of "y # ys @ us"] Cons.prems y by (auto simp: rows_follow_def)
    qed
  qed
  show ?thesis
    using assms exact cut by (auto simp: rows_follow_def [of rows] prefix_def simp del: map_append filter_append)
qed

section \<open>The backend meets the contract of the trait\<close>

text \<open>The states another thread may have left behind before the attempt that commits.\<close>

inductive interleaved :: "('d \<Rightarrow> cf_data) \<Rightarrow> (nat \<Rightarrow> 'd \<Rightarrow> 'd) \<Rightarrow> 'd \<Rightarrow> 'd \<Rightarrow> bool"
  for data others d where
  start: "interleaved data others d d"
| same: "interleaved data others d x \<Longrightarrow> data y = data x \<Longrightarrow> interleaved data others d y"
| other: "interleaved data others d x \<Longrightarrow> interleaved data others d (others n x)"

lemma interleaved_alone: "interleaved data (\<lambda>_ x. x) d y \<Longrightarrow> data y = data d"
  by (induction rule: interleaved.induct) auto

context rocksdb_laws
begin

abbreviation cont :: "'d \<Rightarrow> content" where
  "cont d \<equiv> content_map (data d)"

text \<open>A failing attempt leaves the data as they were.\<close>

definition keeps_data :: "('d \<Rightarrow> (commit_error + 'a) \<times> 'd) \<Rightarrow> bool" where
  "keeps_data commit \<longleftrightarrow> (\<forall>d e d'. commit d = (Inl e, d') \<longrightarrow> data d' = data d)"

lemma commit_txn_err: "commit_txn R ts v d = (Inl e, d') \<Longrightarrow> data d' = data d"
  by (auto simp: commit_txn_def split: prod.splits sum.splits dest: commit_err)

lemma batch_attempt_err: "batch_attempt R ps v d = (Inl e, d') \<Longrightarrow> data d' = data d"
  by (auto simp: batch_attempt_def split: sum.splits dest: commit_txn_err)

lemma batch_attempt_ok:
  assumes "batch_attempt R ps v d = (Inr v', d')"
  shows "v' = v" and "ops_effect ps (cont d) = Some m \<Longrightarrow> cont d' = m"
proof -
  from assms obtain ts u where ts: "stage_ops R d ps = Inr ts" and c: "rk_commit R d ts = (Inr u, d')"
    and v: "v' = v"
    by (auto simp: batch_attempt_def commit_txn_def split: prod.splits sum.splits)
  show "v' = v"
    by (rule v)
  assume "ops_effect ps (cont d) = Some m"
  from stage_ops_effect [OF ts this] obtain m' where "txn_effect ts (data d) = Some m'" "content_map m' = m"
    by blast
  then show "cont d' = m"
    using commit_ok [OF c] by blast
qed

lemma conditional_attempt_err: "conditional_attempt R as ps d = (Inl e, d') \<Longrightarrow> data d' = data d"
  by (auto simp: conditional_attempt_def split: sum.splits bool.splits dest: batch_attempt_err)

lemma txn_asserts_ok:
  "txn_asserts R d as = Inr b \<Longrightarrow> b \<longleftrightarrow> (\<forall>a\<in>set as. cont d (va_key a) = va_expected a)"
proof (induction as)
  case (Cons a as)
  from Cons.prems obtain h r where h: "cf_of R d (va_key a) = Inr h"
    and r: "rk_get_for_update R d h (va_key a) = Inr r"
    by (auto simp: and_then_eq_Inr internal_def rocks_def split: sum.splits)
  have "cont d (va_key a) = r"
    using get_for_update_ok [OF r] cf_of_subspace [OF h] by (simp add: content_map_at)
  then show ?case
    using Cons h r
    by (auto simp: internal_def rocks_def Let_def split: if_splits option.splits)
qed simp

lemma conditional_attempt_ok:
  assumes "conditional_attempt R as ps d = (Inr b, d')"
  shows "b \<longleftrightarrow> (\<forall>a\<in>set as. cont d (va_key a) = va_expected a)"
    and "\<not> b \<Longrightarrow> data d' = data d"
    and "b \<Longrightarrow> ops_effect ps (cont d) = Some m \<Longrightarrow> cont d' = m"
proof -
  from assms obtain t where t: "txn_asserts R d as = Inr t"
    and c: "if t then batch_attempt R ps True d = (Inr b, d') else (b, d') = (False, d)"
    by (auto simp: conditional_attempt_def split: sum.splits bool.splits)
  have b: "b \<longleftrightarrow> t"
    using c batch_attempt_ok(1) [of ps True d b d'] by (cases t) auto
  show "b \<longleftrightarrow> (\<forall>a\<in>set as. cont d (va_key a) = va_expected a)"
    using txn_asserts_ok [OF t] b by simp
  show "\<not> b \<Longrightarrow> data d' = data d"
    using b c by simp
  show "b \<Longrightarrow> ops_effect ps (cont d) = Some m \<Longrightarrow> cont d' = m"
    using b c batch_attempt_ok(2) by auto
qed

lemma add_attempt_err: "add_attempt R k n d = (Inl e, d') \<Longrightarrow> data d' = data d"
  by (auto simp: add_attempt_def split: sum.splits prod.splits dest: commit_txn_err)

lemma add_attempt_ok:
  assumes "add_attempt R k n d = (Inr v, d')"
  shows "(\<exists>c. counter_at (cont d) k = Some c \<and> v = c + n) \<and> cont d' = (cont d)(k \<mapsto> le64 v)"
proof -
  from assms obtain h r c u where h: "cf_of R d k = Inr h" and r: "rk_get_for_update R d h k = Inr r"
    and c: "(case r of None \<Rightarrow> Inr 0 | Some b \<Rightarrow> decode_counter b) = Inr c"
    and v: "v = c + n" and cm: "rk_commit R d [Txn_Put h k (le64 v)] = (Inr u, d')"
    by (auto simp: add_attempt_def commit_txn_def internal_def rocks_def Let_def and_then_eq_Inr
        split: sum.splits prod.splits)
  have sub: "subspace_of k = Inr h"
    using cf_of_subspace [OF h] .
  have "counter_at (cont d) k = Some c"
    using get_for_update_ok [OF r] c
    by (cases r) (auto simp: counter_at_def content_map_at [OF sub] decode_counter_def)
  moreover have "cont d' = (cont d)(k \<mapsto> le64 v)"
    using commit_ok [OF cm] content_map_upd [OF sub, of "data d"] by simp
  ultimately show ?thesis
    using v by blast
qed

lemma attempts_keep_data:
  "keeps_data (batch_attempt R ps v)" "keeps_data (conditional_attempt R as ps)"
  "keeps_data (add_attempt R k n)"
  using batch_attempt_err conditional_attempt_err add_attempt_err by (auto simp: keeps_data_def)

lemma retry_result:
  assumes "with_retry elapsed others commit 0 d = (r, d')"
    and "keeps_data commit"
  shows "(case r of Inl e \<Rightarrow> interleaved data others d d'
    | Inr v \<Rightarrow> (\<exists>d0. interleaved data others d d0 \<and> commit d0 = (Inr v, d')))"
proof (rule with_retry_inv [OF assms(1)])
  show "\<And>x e y. interleaved data others d x \<Longrightarrow> commit x = (Inl e, y) \<Longrightarrow> interleaved data others d y"
    using assms(2) by (auto simp: keeps_data_def intro: interleaved.same)
qed (auto intro: interleaved.intros)

lemma retry_alone_err:
  assumes "with_retry elapsed (\<lambda>_ d. d) commit 0 d = (Inl e, d')"
    and "keeps_data commit"
  shows "data d' = data d"
  using retry_result [OF assms] interleaved_alone [of data d d'] by simp

lemma retry_alone_ok:
  assumes "with_retry elapsed (\<lambda>_ d. d) commit 0 d = (Inr v, d')"
    and "keeps_data commit"
  shows "\<exists>d0. data d0 = data d \<and> commit d0 = (Inr v, d')"
proof -
  from retry_result [OF assms] obtain d0
    where i: "interleaved data (\<lambda>_ d. d) d d0" and c: "commit d0 = (Inr v, d')"
    by auto
  show ?thesis
    using interleaved_alone [OF i] c by blast
qed

lemma apply_batch_ok:
  "apply_batch R elapsed (\<lambda>_ d. d) d ps = (Inr u, d') \<Longrightarrow> ops_effect ps (cont d) = Some m \<Longrightarrow>
    cont d' = m"
proof (cases "ps = []")
  case False
  assume "apply_batch R elapsed (\<lambda>_ d. d) d ps = (Inr u, d')" and m: "ops_effect ps (cont d) = Some m"
  then have "with_retry elapsed (\<lambda>_ d. d) (batch_attempt R ps ()) 0 d = (Inr u, d')"
    using False by (simp add: apply_batch_def)
  from retry_alone_ok [OF this attempts_keep_data(1)] obtain d0
    where "data d0 = data d" "batch_attempt R ps () d0 = (Inr u, d')"
    by blast
  then show ?thesis
    using batch_attempt_ok(2) [of ps "()" d0 u d' m] m by simp
qed (simp add: apply_batch_def)

lemma apply_batch_err:
  "apply_batch R elapsed (\<lambda>_ d. d) d ps = (Inl e, d') \<Longrightarrow> data d' = data d"
  by (cases "ps = []") (simp_all add: apply_batch_def retry_alone_err [OF _ attempts_keep_data(1)])

lemma conditional_ok':
  assumes "apply_batch_conditional R elapsed (\<lambda>_ d. d) d as ps = (Inr b, d')"
  shows "b \<longleftrightarrow> (\<forall>a\<in>set as. cont d (va_key a) = va_expected a)"
    and "\<not> b \<Longrightarrow> data d' = data d"
    and "b \<Longrightarrow> ops_effect ps (cont d) = Some m \<Longrightarrow> cont d' = m"
proof -
  have "(b \<longleftrightarrow> (\<forall>a\<in>set as. cont d (va_key a) = va_expected a)) \<and> (\<not> b \<longrightarrow> data d' = data d) \<and>
    (b \<longrightarrow> ops_effect ps (cont d) = Some m \<longrightarrow> cont d' = m)"
  proof (cases "as = []")
    case True
    then show ?thesis
      using assms by (auto simp: apply_batch_conditional_def split: prod.splits sum.splits dest: apply_batch_ok)
  next
    case False
    with assms obtain d0 where "data d0 = data d" "conditional_attempt R as ps d0 = (Inr b, d')"
      using retry_alone_ok [OF _ attempts_keep_data(2), of as ps d b d']
      by (auto simp: apply_batch_conditional_def)
    then show ?thesis
      using conditional_attempt_ok [of as ps d0 b d'] by auto
  qed
  then show "b \<longleftrightarrow> (\<forall>a\<in>set as. cont d (va_key a) = va_expected a)"
    and "\<not> b \<Longrightarrow> data d' = data d"
    and "b \<Longrightarrow> ops_effect ps (cont d) = Some m \<Longrightarrow> cont d' = m"
    by blast+
qed

lemma conditional_err':
  "apply_batch_conditional R elapsed (\<lambda>_ d. d) d as ps = (Inl e, d') \<Longrightarrow> data d' = data d"
  by (cases "as = []")
    (auto simp: apply_batch_conditional_def split: prod.splits sum.splits
      dest: apply_batch_err retry_alone_err [OF _ attempts_keep_data(2)])

lemma add_counter_ok':
  "add_counter R elapsed (\<lambda>_ d. d) d k n = (Inr i, d') \<Longrightarrow>
    (\<exists>c. counter_at (cont d) k = Some c \<and> i = c + n) \<and> cont d' = (cont d)(k \<mapsto> le64 i)"
proof -
  assume "add_counter R elapsed (\<lambda>_ d. d) d k n = (Inr i, d')"
  then obtain d0 where "data d0 = data d" "add_attempt R k n d0 = (Inr i, d')"
    using retry_alone_ok [OF _ attempts_keep_data(3), of k n d i d'] by (auto simp: add_counter_def)
  then show ?thesis
    using add_attempt_ok [of k n d0 i d'] by simp
qed

lemma add_counter_err':
  "add_counter R elapsed (\<lambda>_ d. d) d k n = (Inl e, d') \<Longrightarrow> data d' = data d"
  using retry_alone_err [OF _ attempts_keep_data(3)] by (simp add: add_counter_def)

lemma rocksdb_get_ok: "rocksdb_get R d k = Inr r \<Longrightarrow> cont d k = r"
proof -
  assume "rocksdb_get R d k = Inr r"
  then obtain h where "cf_of R d k = Inr h" "rk_get_cf R d h k = Inr r"
    by (cases "cf_of R d k") (auto simp: rocksdb_get_def split: sum.splits)
  then show ?thesis
    by (simp add: content_map_at [OF cf_of_subspace] get_cf_ok)
qed

lemma rocksdb_put_effect:
  "rocksdb_put R d k v = (r, d') \<Longrightarrow> cont d' = (case r of Inl e \<Rightarrow> cont d | Inr u \<Rightarrow> (cont d)(k \<mapsto> v))"
  by (auto simp: rocksdb_put_def content_map_upd dest!: cf_of_subspace put_cf_ok put_cf_err
      split: sum.splits prod.splits)

lemma rocksdb_delete_effect:
  "rocksdb_delete R d k = (r, d') \<Longrightarrow>
    cont d' = (case r of Inl e \<Rightarrow> cont d | Inr u \<Rightarrow> (cont d)(k := None))"
  by (auto simp: rocksdb_delete_def content_map_upd dest!: cf_of_subspace delete_cf_ok delete_cf_err
      split: sum.splits prod.splits)

lemma iterate_bounded_rows:
  assumes "bound \<le> seek"
  shows "rows_follow (iterate_bounded R d bound seek) (scan (cont d) bound seek)"
proof (cases "cf_of R d bound")
  case (Inl e)
  then show ?thesis
    by (simp add: iterate_bounded_def rows_follow_cut)
next
  case (Inr h)
  have "rows_follow (bounded_rows bound (rk_iterator_cf R d h seek))
      (filter (\<lambda>(k, v). prefix bound k) (scan (data d h) [] seek))"
    using assms set_scan [OF finite_data]
    by (intro bounded_rows_follow iterator_cf_rows scan_sorted(1)) (auto intro: order_trans)
  then show ?thesis
    using scan_filter [OF finite_data, of d h bound seek]
      scan_content_map [OF cf_of_subspace [OF Inr], of "data d" seek] Inr
    by (simp add: iterate_bounded_def)
qed

lemma iterate_from_rows':
  "rows_follow (rocksdb_iterate_from R d p start) (scan (cont d) (prefix_encode p) start)"
proof -
  let ?b = "prefix_encode p" and ?s = "if prefix_encode p < start then start else prefix_encode p"
  have eq: "scan (cont d) ?b start = scan (cont d) ?b ?s"
  proof (rule scan_cong)
    fix k
    assume "prefix ?b k"
    then have "?b \<le> k"
      by (rule prefix_le)
    then show "start \<le> k \<longleftrightarrow> ?s \<le> k"
      by (cases "?b < start") (simp_all add: not_less)
  qed simp
  have "?b \<le> ?s"
    by (simp add: less_imp_le)
  from iterate_bounded_rows [OF this] show ?thesis
    unfolding rocksdb_iterate_from_def Let_def by (subst eq)
qed

lemma iterate_rows':
  "rows_follow (rocksdb_iterate R d p) (scan (cont d) (prefix_encode p) [])"
proof -
  have "scan (cont d) (prefix_encode p) (prefix_encode p) = scan (cont d) (prefix_encode p) []"
    by (rule scan_cong) (simp_all add: prefix_le)
  then show ?thesis
    using iterate_bounded_rows [of "prefix_encode p" "prefix_encode p" d]
    by (simp add: rocksdb_iterate_def)
qed

lemma read_counter_ok: "read_counter R d k = Inr i \<Longrightarrow> counter_at (cont d) k = Some i"
  by (auto simp: read_counter_def and_then_eq_Inr counter_at_def decode_counter_def split: option.splits
      dest!: rocksdb_get_ok)

end

sublocale rocksdb_laws \<subseteq> st: kv_store "rocksdb_store R elapsed" "\<lambda>d. content_map (data d)"
proof unfold_locales
  note sel = rocksdb_store_def
  fix s :: 'd and k v :: bytes and e :: error and s' :: 'd and p start r n i m as ps and u :: unit
  show "finite (dom (cont s))"
    using finite_content_map finite_data by blast
  show "st_get (rocksdb_store R elapsed) s k = Inr r \<Longrightarrow> cont s k = r"
    by (simp add: sel rocksdb_get_ok)
  show "st_put (rocksdb_store R elapsed) s k v = (Inr u, s') \<Longrightarrow> cont s' = (cont s)(k \<mapsto> v)"
    "st_put (rocksdb_store R elapsed) s k v = (Inl e, s') \<Longrightarrow> cont s' = cont s"
    by (auto simp: sel dest!: rocksdb_put_effect)
  show "st_delete (rocksdb_store R elapsed) s k = (Inr u, s') \<Longrightarrow> cont s' = (cont s)(k := None)"
    "st_delete (rocksdb_store R elapsed) s k = (Inl e, s') \<Longrightarrow> cont s' = cont s"
    by (auto simp: sel dest!: rocksdb_delete_effect)
  show "rows_follow (st_iterate (rocksdb_store R elapsed) s p) (scan (cont s) (prefix_encode p) [])"
    by (simp add: sel iterate_rows')
  show "rows_follow (st_iterate_from (rocksdb_store R elapsed) s p start)
    (scan (cont s) (prefix_encode p) start)"
    by (simp add: sel iterate_from_rows')
  show "st_batch (rocksdb_store R elapsed) s ps = (Inr u, s') \<Longrightarrow>
      ops_effect ps (cont s) = Some m \<Longrightarrow> cont s' = m"
    "st_batch (rocksdb_store R elapsed) s ps = (Inl e, s') \<Longrightarrow> cont s' = cont s"
    using apply_batch_ok apply_batch_err by (simp_all add: sel)
  show "st_batch_conditional (rocksdb_store R elapsed) s as ps = (Inr True, s') \<Longrightarrow>
      ops_effect ps (cont s) = Some m \<Longrightarrow>
      cont s' = m \<and> (\<forall>a\<in>set as. cont s (va_key a) = va_expected a)"
    "st_batch_conditional (rocksdb_store R elapsed) s as ps = (Inr False, s') \<Longrightarrow>
      cont s' = cont s \<and> (\<exists>a\<in>set as. cont s (va_key a) \<noteq> va_expected a)"
    "st_batch_conditional (rocksdb_store R elapsed) s as ps = (Inl e, s') \<Longrightarrow> cont s' = cont s"
    using conditional_ok' [of s as ps True s'] conditional_ok' [of s as ps False s']
      conditional_err' [of s as ps e s'] by (auto simp: sel)
  show "st_add_and_get (rocksdb_store R elapsed) s k n = (Inr i, s') \<Longrightarrow>
      (\<exists>c. counter_at (cont s) k = Some c \<and> i = c + n) \<and> cont s' = (cont s)(k \<mapsto> le64 i)"
    "st_add_and_get (rocksdb_store R elapsed) s k n = (Inl e, s') \<Longrightarrow> cont s' = cont s"
    using add_counter_ok' [of s k n i s'] add_counter_err' [of s k n e s'] by (simp_all add: sel)
  show "st_counter (rocksdb_store R elapsed) s k = Inr i \<Longrightarrow> counter_at (cont s) k = Some i"
    by (simp add: sel read_counter_ok)
qed

context rocksdb_laws
begin

lemma store_contract: "kv_store (rocksdb_store R elapsed) (\<lambda>d. content_map (data d))"
  by unfold_locales

end

end
