(* ===== verification/Store_Memory.thy ===== *)
theory Store_Memory
  imports Store_Rocksdb
begin

text \<open>
  An ordered map with transactions, the instance on which the laws of \<open>rocksdb_laws\<close> are shown
  to hold together and on which the components are evaluated; then the properties of the
  RocksDB backend.
\<close>

section \<open>An ordered map as a database\<close>

type_synonym mem_db = "((subspace \<times> bytes) \<times> bytes) list"

definition mem_data :: "mem_db \<Rightarrow> cf_data" where
  "mem_data d s k = map_of d (s, k)"

definition mem_set :: "subspace \<Rightarrow> bytes \<Rightarrow> bytes option \<Rightarrow> mem_db \<Rightarrow> mem_db" where
  "mem_set s k v d =
    (case v of None \<Rightarrow> [] | Some x \<Rightarrow> [((s, k), x)]) @ filter (\<lambda>(q, x). q \<noteq> (s, k)) d"

definition mem_rows :: "mem_db \<Rightarrow> subspace \<Rightarrow> bytes \<Rightarrow> row list" where
  "mem_rows d s seek =
    map (\<lambda>k. (k, the (map_of d (s, k))))
      (filter (\<lambda>k. seek \<le> k) (sort (remdups (map (snd \<circ> fst) (filter (\<lambda>((t, k), x). t = s) d)))))"

fun mem_txn_op :: "txn_op \<Rightarrow> mem_db \<Rightarrow> mem_db option" where
  "mem_txn_op (Txn_Put s k v) d = Some (mem_set s k (Some v) d)"
| "mem_txn_op (Txn_Delete s k) d = Some (mem_set s k None d)"
| "mem_txn_op (Txn_Merge s k x) d =
    (if has_merge_operator s
     then map_option (\<lambda>v. mem_set s k (Some v) d) (counter_merge (mem_data d s k) [x])
     else None)"

fun mem_txn :: "txn_op list \<Rightarrow> mem_db \<Rightarrow> mem_db option" where
  "mem_txn [] d = Some d"
| "mem_txn (t # ts) d = (case mem_txn_op t d of None \<Rightarrow> None | Some d' \<Rightarrow> mem_txn ts d')"

definition mem_rocksdb :: "mem_db rocksdb" where
  "mem_rocksdb =
    \<lparr>rk_cf_handle = (\<lambda>d name. True),
     rk_get_cf = (\<lambda>d s k. Inr (mem_data d s k)),
     rk_put_cf = (\<lambda>d s k v. (Inr (), mem_set s k (Some v) d)),
     rk_delete_cf = (\<lambda>d s k. (Inr (), mem_set s k None d)),
     rk_iterator_cf = (\<lambda>d s seek. map Inr (mem_rows d s seek)),
     rk_get_for_update = (\<lambda>d s k. Inr (mem_data d s k)),
     rk_stage = (\<lambda>d t. Inr ()),
     rk_commit = (\<lambda>d ts. case mem_txn ts d of
        None \<Rightarrow> (Inl \<lparr>rk_kind = Rk_Other, rk_message = ''merge failed''\<rparr>, d)
      | Some d' \<Rightarrow> (Inr (), d'))\<rparr>"

lemma mem_data_set: "mem_data (mem_set s k v d) = (mem_data d)(s := (mem_data d s)(k := v))"
proof (intro ext)
  fix t j
  have "map_of (filter (\<lambda>(q, x). q \<noteq> (s, k)) d) (t, j) = (if (t, j) = (s, k) then None else map_of d (t, j))"
    by (induction d) auto
  then show "mem_data (mem_set s k v d) t j = ((mem_data d)(s := (mem_data d s)(k := v))) t j"
    by (cases v) (auto simp: mem_data_def mem_set_def)
qed

lemma mem_txn_effect: "map_option mem_data (mem_txn ts d) = txn_effect ts (mem_data d)"
proof (induction ts arbitrary: d)
  case (Cons t ts)
  have "map_option mem_data (mem_txn_op t d) = txn_op_effect t (mem_data d)"
    by (cases t) (auto simp: mem_data_set option.map_comp comp_def)
  then show ?case
    using Cons by (cases "mem_txn_op t d") (auto split: option.splits)
qed simp

lemma mem_data_dom: "dom (mem_data d s) = set (map (snd \<circ> fst) (filter (\<lambda>((t, k), x). t = s) d))"
proof -
  have "k \<in> dom (mem_data d s) \<longleftrightarrow> (s, k) \<in> fst ` set d" for k
    using dom_map_of_conv_image_fst [of d] by (auto simp: mem_data_def dom_def)
  moreover have "k \<in> set (map (snd \<circ> fst) (filter (\<lambda>((t, k), x). t = s) d)) \<longleftrightarrow> (s, k) \<in> fst ` set d" for k
    by (induction d) auto
  ultimately show ?thesis
    by blast
qed

lemma mem_rows_scan: "mem_rows d s seek = scan (mem_data d s) [] seek"
proof -
  let ?ks = "map (snd \<circ> fst) (filter (\<lambda>((t, k), x). t = s) d)"
  have "sorted_list_of_set {k \<in> dom (mem_data d s). seek \<le> k} = filter (\<lambda>k. seek \<le> k) (sort (remdups ?ks))"
    by (rule sorted_distinct_set_unique) (auto simp: mem_data_dom sorted_wrt_filter)
  then show ?thesis
    by (simp add: mem_rows_def scan_def mem_data_def)
qed

interpretation mem: rocksdb_laws mem_rocksdb mem_data elapsed for elapsed
proof unfold_locales
  fix d s
  show "finite (dom (mem_data d s))"
    by (simp add: mem_data_dom)
next
  fix d ts u d' m
  assume "rk_commit mem_rocksdb d ts = (Inr u, d')" "txn_effect ts (mem_data d) = Some m"
  then show "mem_data d' = m"
    using mem_txn_effect [of ts d] by (auto simp: mem_rocksdb_def split: option.splits)
qed (auto simp: mem_rocksdb_def mem_data_set mem_rows_scan split: option.splits)

lemma mem_laws: "rocksdb_laws mem_rocksdb mem_data"
  by (rule mem.rocksdb_laws_axioms)

section \<open>Evaluating the backend on the map\<close>

definition mem_store :: "mem_db store" where
  "mem_store = rocksdb_store mem_rocksdb (\<lambda>_. 0)"

lemma mem_rocksdb_sels [simp]:
  "rk_cf_handle mem_rocksdb d name = True"
  "rk_get_cf mem_rocksdb d s k = Inr (map_of d (s, k))"
  "rk_put_cf mem_rocksdb d s k v = (Inr (), mem_set s k (Some v) d)"
  "rk_delete_cf mem_rocksdb d s k = (Inr (), mem_set s k None d)"
  "rk_iterator_cf mem_rocksdb d s seek = map Inr (mem_rows d s seek)"
  "rk_get_for_update mem_rocksdb d s k = Inr (map_of d (s, k))"
  "rk_stage mem_rocksdb d t = Inr ()"
  "rk_commit mem_rocksdb d ts = (case mem_txn ts d of
      None \<Rightarrow> (Inl \<lparr>rk_kind = Rk_Other, rk_message = ''merge failed''\<rparr>, d)
    | Some d' \<Rightarrow> (Inr (), d'))"
  by (simp_all add: mem_rocksdb_def mem_data_def)

lemma mem_cf_of [simp]: "cf_of mem_rocksdb d k = subspace_of k"
  by (cases "subspace_of k") (simp_all add: cf_of_def cf_def)

lemma bounded_rows_Inr [simp]:
  "bounded_rows bound (map Inr xs) = map Inr (takeWhile (\<lambda>(k, v). prefix bound k) xs)"
  by (induction xs) auto

lemma mem_store_reads:
  "subspace_of k = Inr s \<Longrightarrow> st_get mem_store d k = Inr (map_of d (s, k))"
  "subspace_of k = Inr s \<Longrightarrow> st_counter mem_store d k =
    (case map_of d (s, k) of None \<Rightarrow> Inr 0 | Some b \<Rightarrow> decode_counter b)"
  "subspace_of (prefix_encode p) = Inr s \<Longrightarrow> st_iterate mem_store d p =
    map Inr (takeWhile (\<lambda>(k, v). prefix (prefix_encode p) k) (mem_rows d s (prefix_encode p)))"
  "subspace_of (prefix_encode p) = Inr s \<Longrightarrow> st_iterate_from mem_store d p start =
    map Inr (takeWhile (\<lambda>(k, v). prefix (prefix_encode p) k)
      (mem_rows d s (if prefix_encode p < start then start else prefix_encode p)))"
  by (auto simp: mem_store_def rocksdb_store_def rocksdb_get_def read_counter_def
      rocksdb_iterate_def rocksdb_iterate_from_def iterate_bounded_def Let_def split: option.splits)

lemma mem_store_writes:
  "subspace_of k = Inr s \<Longrightarrow> st_put mem_store d k v = (Inr (), mem_set s k (Some v) d)"
  "subspace_of k = Inr s \<Longrightarrow> st_delete mem_store d k = (Inr (), mem_set s k None d)"
  "subspace_of k = Inr s \<Longrightarrow> st_add_and_get mem_store d k n =
    (case (case map_of d (s, k) of None \<Rightarrow> Inr 0 | Some b \<Rightarrow> decode_counter b) of
       Inl e \<Rightarrow> (Inl e, d)
     | Inr c \<Rightarrow> (Inr (c + n), mem_set s k (Some (le64 (c + n))) d))"
  by (auto simp: mem_store_def rocksdb_store_def rocksdb_put_def rocksdb_delete_def add_counter_def
      with_retry.simps add_attempt_def internal_def rocks_def commit_txn_def Let_def
      split: option.splits sum.splits)

fun mem_ops :: "write_op list \<Rightarrow> mem_db \<Rightarrow> mem_db option" where
  "mem_ops [] d = Some d"
| "mem_ops (p # ps) d =
    (case txn_op_of mem_rocksdb d p of Inl e \<Rightarrow> None
     | Inr t \<Rightarrow> (case mem_txn_op t d of None \<Rightarrow> None | Some d' \<Rightarrow> mem_ops ps d'))"

lemma mem_txn_op_of: "txn_op_of mem_rocksdb d p = txn_op_of mem_rocksdb d' p"
  by (cases p) simp_all

lemma mem_stage: "mem_ops ps d = Some d' \<Longrightarrow> \<exists>ts. stage_ops mem_rocksdb d0 ps = Inr ts \<and> mem_txn ts d = Some d'"
proof (induction ps arbitrary: d)
  case (Cons p ps)
  from Cons.prems obtain t d1 where t: "txn_op_of mem_rocksdb d p = Inr t" "mem_txn_op t d = Some d1"
    and rest: "mem_ops ps d1 = Some d'"
    by (auto split: sum.splits option.splits)
  from Cons.IH [OF rest] obtain ts where "stage_ops mem_rocksdb d0 ps = Inr ts" "mem_txn ts d1 = Some d'"
    by blast
  moreover have "txn_op_of mem_rocksdb d0 p = Inr t"
    using t(1) mem_txn_op_of by metis
  ultimately show ?case
    using t(2) by (simp add: rocks_def)
qed simp

lemma mem_store_batch: "mem_ops ps d = Some d' \<Longrightarrow> st_batch mem_store d ps = (Inr (), d')"
  using mem_stage [of ps d d' d]
  by (cases "ps = []") (auto simp: mem_store_def rocksdb_store_def apply_batch_def with_retry.simps
      batch_attempt_def commit_txn_def)

section \<open>Properties of the backend\<close>

text \<open>
  C2. The RocksDB backend implements the storage contract: over any database that keeps the laws
  of \<open>rocksdb_laws\<close>, the methods of \<open>RocksdbStore\<close> act on one finite map of byte strings; reads
  return it, successful writes, batches, conditional batches and counter additions change it as
  the trait says, failing ones leave it as it was, and scans yield in key order exactly the rows
  below the prefix and from the start key on.
\<close>

theorem rocksdb_store_refines:
  assumes "rocksdb_laws R data"
  shows "kv_store (rocksdb_store R elapsed) (\<lambda>d. content_map (data d))"
  using rocksdb_laws.store_contract [OF assms] .

theorem rocksdb_store_refines_witness:
  "rocksdb_laws mem_rocksdb mem_data \<and>
   kv_store (rocksdb_store mem_rocksdb (\<lambda>n. n)) (\<lambda>d. content_map (mem_data d))"
  using rocksdb_store_refines [OF mem_laws] mem_laws by blast



text \<open>
  The backoff range is never empty: for every attempt number the ceiling handed to the random
  generator lies between the minimum of 5 and the maximum of 50 milliseconds, also where the
  shift drops bits or is refused.
\<close>

theorem backoff_ceiling_range: "5 \<le> backoff_ceiling attempt \<and> backoff_ceiling attempt \<le> 50"
proof (cases "attempt < 64")
  case True
  have "5 \<le> push_bit attempt (5 :: u64)"
  proof (cases "attempt < 62")
    case True
    then have "(2 :: nat) ^ attempt \<le> 2 ^ 61"
      by (intro power_increasing) simp_all
    then have "(5 * 2 ^ attempt) mod 2 ^ 64 = (5 * 2 ^ attempt :: nat)"
      by simp
    then have "unat (of_nat (5 * 2 ^ attempt) :: u64) = 5 * 2 ^ attempt"
      by (simp only: unat_of_nat) simp
    then have "unat (push_bit attempt (5 :: u64)) = 5 * 2 ^ attempt"
      by (simp add: push_bit_eq_mult)
    then show ?thesis
      by (simp add: word_le_nat_alt)
  next
    case False
    then have "attempt = 62 \<or> attempt = 63"
      using True by linarith
    then show ?thesis
      by auto
  qed
  then show ?thesis
    using True by (simp add: backoff_ceiling_def checked_shl64_def)
qed (simp add: backoff_ceiling_def checked_shl64_def)

definition counting ::
  "('d \<Rightarrow> (commit_error + 'a) \<times> 'd) \<Rightarrow> 'd \<times> nat \<Rightarrow> (commit_error + 'a) \<times> ('d \<times> nat)" where
  "counting commit = (\<lambda>(d, n). case commit d of (r, d') \<Rightarrow> (r, (d', n + 1)))"

lemma with_retry_counting:
  "snd (snd (with_retry elapsed (\<lambda>i (d, n). (others i d, n)) (counting commit) a (d, n)))
    \<le> n + (COMMIT_RETRY_LIMIT - a) + 1"
proof (induction "COMMIT_RETRY_LIMIT - a" arbitrary: a d n rule: less_induct)
  case less
  obtain r d1 where c: "commit d = (r, d1)"
    by (cases "commit d")
  show ?case
  proof (cases "\<exists>e. r = Inl (Commit_RocksDb e) \<and> recoverable e \<and> a < COMMIT_RETRY_LIMIT \<and>
      elapsed a < COMMIT_RETRY_BUDGET")
    case True
    then have "with_retry elapsed (\<lambda>i (d, n). (others i d, n)) (counting commit) a (d, n) =
      with_retry elapsed (\<lambda>i (d, n). (others i d, n)) (counting commit) (a + 1) (others a d1, n + 1)"
      using c by (subst with_retry.simps) (auto simp: counting_def)
    moreover have "COMMIT_RETRY_LIMIT - (a + 1) < COMMIT_RETRY_LIMIT - a"
      using True by arith
    ultimately show ?thesis
      using less [of "a + 1" "others a d1" "n + 1"] by simp
  next
    case False
    then show ?thesis
      using c by (subst with_retry.simps) (auto simp: counting_def split: sum.splits commit_error.splits)
  qed
qed

text \<open>
  C38. The commit loop ends and is bounded: however the clock runs, whatever the database answers
  and whatever other threads do, \<open>with_retry\<close> makes at most one attempt more than the retry
  limit.  The attempts are counted by a second component of the state.
\<close>

theorem with_retry_bounded:
  "snd (snd (with_retry elapsed (\<lambda>i (d, n). (others i d, n)) (counting commit) 0 (d, 0)))
    \<le> COMMIT_RETRY_LIMIT + 1"
  using with_retry_counting [of elapsed others commit 0 d 0] by simp

end
