(* ===== verification/Http_Sessions.thy ===== *)
theory Http_Sessions
  imports Store_Tags Store_Memory
begin

text \<open>
  The login sessions of the web interface (\<open>crates/http/src/sessions.rs\<close>), kept in the registry
  below a tag byte, and the marker of the attachment backfill
  (\<open>crates/mail/src/attachment_backfill.rs\<close>), which is kept below the same byte.  The hash
  function and the JSON codec are library code: the record \<open>session_codec\<close> holds them as
  parameters.
\<close>

section \<open>Records\<close>

definition TAG_SESSION :: byte where
  "TAG_SESSION = CHR 0x36"

definition WEBMAIL_IDLE_SECS :: u64 where
  "WEBMAIL_IDLE_SECS = 90 * 24 * 60 * 60"

definition ADMIN_IDLE_SECS :: u64 where
  "ADMIN_IDLE_SECS = 12 * 60 * 60"

definition RENEW_AFTER_SECS :: u64 where
  "RENEW_AFTER_SECS = 60 * 60"

datatype session_kind = Session_Admin | Session_Webmail

fun session_kind_str :: "session_kind \<Rightarrow> bytes" where
  "session_kind_str Session_Admin = ''admin''"
| "session_kind_str Session_Webmail = ''webmail''"

fun idle_limit :: "session_kind \<Rightarrow> u64" where
  "idle_limit Session_Admin = ADMIN_IDLE_SECS"
| "idle_limit Session_Webmail = WEBMAIL_IDLE_SECS"

record token_info =
  ti_account_id :: u64
  ti_username :: bytes
  ti_is_admin :: bool
  ti_kind :: session_kind

record session_record =
  sr_account_id :: u64
  sr_username :: bytes
  sr_is_admin :: bool
  sr_kind :: session_kind
  sr_issued_at :: u64
  sr_last_used_at :: u64

definition session_expired :: "session_record \<Rightarrow> u64 \<Rightarrow> bool" where
  "session_expired r now \<longleftrightarrow> idle_limit (sr_kind r) \<le> saturating_sub now (sr_last_used_at r)"

definition session_info :: "session_record \<Rightarrow> token_info" where
  "session_info r =
    \<lparr>ti_account_id = sr_account_id r, ti_username = sr_username r,
     ti_is_admin = sr_is_admin r, ti_kind = sr_kind r\<rparr>"

text \<open>
  The library functions: \<open>blake3::hash\<close>, \<open>serde_json::to_vec\<close> and \<open>serde_json::from_slice\<close>,
  whose errors are given by their message.
\<close>

record session_codec =
  sc_hash :: "bytes \<Rightarrow> bytes"
  sc_to_vec :: "session_record \<Rightarrow> bytes + bytes"
  sc_from_slice :: "bytes \<Rightarrow> bytes + session_record"

definition session_encode :: "session_codec \<Rightarrow> session_record \<Rightarrow> error + bytes" where
  "session_encode J r =
    (case sc_to_vec J r of
       Inl err \<Rightarrow> Inl (Serialize_Error (''could not encode a session: '' @ err))
     | Inr v \<Rightarrow> Inr v)"

definition session_decode :: "session_codec \<Rightarrow> bytes \<Rightarrow> error + session_record" where
  "session_decode J v =
    (case sc_from_slice J v of
       Inl err \<Rightarrow> Inl (Serialize_Error (''could not decode a session: '' @ err))
     | Inr r \<Rightarrow> Inr r)"

definition session_key :: "session_codec \<Rightarrow> bytes \<Rightarrow> bytes" where
  "session_key J token = [subspace_byte Registry, TAG_SESSION] @ sc_hash J token"

text \<open>\<open>random_token\<close>: two lower-case hexadecimal digits per random byte.\<close>

definition lower_hex :: "nat \<Rightarrow> byte" where
  "lower_hex n = (if n < 10 then char_of (48 + n) else char_of (87 + n))"

definition random_token :: "bytes \<Rightarrow> bytes" where
  "random_token random = concat (map (\<lambda>b. [lower_hex (byte_val b div 16), lower_hex (byte_val b mod 16)]) random)"

section \<open>Operations\<close>

definition session_issue_at ::
  "session_codec \<Rightarrow> 's store \<Rightarrow> bytes \<Rightarrow> token_info \<Rightarrow> u64 \<Rightarrow> 's \<Rightarrow> (error + bytes) \<times> 's" where
  "session_issue_at J S random info now s =
    (let token = random_token random;
         r = \<lparr>sr_account_id = ti_account_id info, sr_username = ti_username info,
              sr_is_admin = ti_is_admin info, sr_kind = ti_kind info,
              sr_issued_at = now, sr_last_used_at = now\<rparr>
     in case session_encode J r of
          Inl e \<Rightarrow> (Inl e, s)
        | Inr v \<Rightarrow>
            (case st_put S s (session_key J token) v of
               (Inl e, s') \<Rightarrow> (Inl e, s')
             | (Inr _, s') \<Rightarrow> (Inr token, s')))"

definition session_validate_at ::
  "session_codec \<Rightarrow> 's store \<Rightarrow> bytes \<Rightarrow> u64 \<Rightarrow> 's \<Rightarrow> token_info option \<times> 's" where
  "session_validate_at J S token now s =
    (let k = session_key J token in
     case st_get S s k of
       Inl _ \<Rightarrow> (None, s)
     | Inr None \<Rightarrow> (None, s)
     | Inr (Some v) \<Rightarrow>
         (case session_decode J v of
            Inl _ \<Rightarrow> (None, s)
          | Inr r \<Rightarrow>
              if session_expired r now then (None, snd (st_delete S s k))
              else if RENEW_AFTER_SECS \<le> saturating_sub now (sr_last_used_at r) then
                (let r' = r\<lparr>sr_last_used_at := now\<rparr> in
                 (Some (session_info r'),
                  case session_encode J r' of
                    Inl _ \<Rightarrow> s
                  | Inr v' \<Rightarrow> snd (st_put S s k v')))
              else (Some (session_info r), s)))"

definition session_revoke :: "session_codec \<Rightarrow> 's store \<Rightarrow> bytes \<Rightarrow> 's \<Rightarrow> bool \<times> 's" where
  "session_revoke J S token s =
    (let k = session_key J token in
     case exists_key S s k of
       Inr True \<Rightarrow>
         (case st_delete S s k of
            (Inl e, s') \<Rightarrow> (False, s')
          | (Inr _, s') \<Rightarrow> (True, s'))
     | _ \<Rightarrow> (False, s))"

definition doomed_visit ::
  "session_codec \<Rightarrow> (session_record \<Rightarrow> bytes \<Rightarrow> bool) \<Rightarrow> write_op list visitor" where
  "doomed_visit J keep_out k v doomed =
    (if length k < 2 \<or> k ! 1 \<noteq> TAG_SESSION then
       Inr (if (case get_at k 1 of Some tag \<Rightarrow> TAG_SESSION < tag | None \<Rightarrow> False) then Stop else Continue, doomed)
     else
       Inr (Continue,
         case session_decode J v of
           Inr r \<Rightarrow> if keep_out r k then doomed @ [Delete_Op k] else doomed
         | Inl _ \<Rightarrow> doomed @ [Delete_Op k]))"

definition session_remove_where ::
  "session_codec \<Rightarrow> 's store \<Rightarrow> (session_record \<Rightarrow> bytes \<Rightarrow> bool) \<Rightarrow> 's \<Rightarrow> (error + nat) \<times> 's" where
  "session_remove_where J S keep_out s =
    (case visit_rows (doomed_visit J keep_out)
        (st_iterate_from S s (prefix_subspace Registry) [subspace_byte Registry, TAG_SESSION]) [] of
       Inl e \<Rightarrow> (Inl e, s)
     | Inr doomed \<Rightarrow>
         (let removed = length doomed in
          if 0 < removed then
            (case st_batch S s doomed of
               (Inl e, s') \<Rightarrow> (Inl e, s')
             | (Inr _, s') \<Rightarrow> (Inr removed, s'))
          else (Inr removed, s)))"

definition session_revoke_account ::
  "session_codec \<Rightarrow> 's store \<Rightarrow> u64 \<Rightarrow> 's \<Rightarrow> (error + nat) \<times> 's" where
  "session_revoke_account J S account_id s =
    session_remove_where J S (\<lambda>r _. sr_account_id r = account_id) s"

definition session_sweep_expired_at ::
  "session_codec \<Rightarrow> 's store \<Rightarrow> u64 \<Rightarrow> 's \<Rightarrow> (error + nat) \<times> 's" where
  "session_sweep_expired_at J S now s = session_remove_where J S (\<lambda>r _. session_expired r now) s"

text \<open>The marker that the attachment backfill leaves when it has run.\<close>

definition BACKFILL_MARKER_TAG :: byte where
  "BACKFILL_MARKER_TAG = CHR 0x36"

definition marker_key :: bytes where
  "marker_key = [subspace_byte Registry, BACKFILL_MARKER_TAG]"

section \<open>What the operations do to the store\<close>

text \<open>The rows that \<open>remove_where\<close> deletes.\<close>

definition doomed_row :: "session_codec \<Rightarrow> (session_record \<Rightarrow> bytes \<Rightarrow> bool) \<Rightarrow> bytes \<Rightarrow> bytes \<Rightarrow> bool" where
  "doomed_row J keep_out k v \<longleftrightarrow> (case session_decode J v of Inl _ \<Rightarrow> True | Inr r \<Rightarrow> keep_out r k)"

lemma doomed_visit_steps:
  "doomed_visit J keep_out (b # TAG_SESSION # j) v a =
    Inr (Continue, a @ (if doomed_row J keep_out (b # TAG_SESSION # j) v then [Delete_Op (b # TAG_SESSION # j)] else []))"
  "TAG_SESSION < u \<Longrightarrow> doomed_visit J keep_out (b # u # j) v a = Inr (Stop, a)"
  by (auto simp: doomed_visit_def doomed_row_def get_at_def split: sum.splits)

lemma concat_if_filter:
  "concat (map (\<lambda>(k, v). if p k v then [Delete_Op k] else []) rows) =
    map Delete_Op (map fst (filter (\<lambda>(k, v). p k v) rows))"
  by (induction rows) auto

context kv_store
begin

lemma remove_where_effect:
  assumes "session_remove_where J S keep_out s = (Inr n, s')"
  shows "content s' k =
    (if tagged (subspace_byte Registry) TAG_SESSION k \<and> (\<exists>v. content s k = Some v \<and> doomed_row J keep_out k v)
     then None else content s k)"
proof -
  let ?rows = "tag_rows s Registry TAG_SESSION"
  let ?ks = "map fst (filter (\<lambda>(k, v). doomed_row J keep_out k v) ?rows)"
  from assms obtain ds where v: "visit_rows (doomed_visit J keep_out)
      (st_iterate_from S s (prefix_subspace Registry) [subspace_byte Registry, TAG_SESSION]) [] = Inr ds"
    by (auto simp: session_remove_where_def split: sum.splits)
  have ds: "ds = map Delete_Op ?ks"
    using tag_visit [OF v doomed_visit_steps] by (simp add: concat_if_filter)
  have "content s' = (\<lambda>k. if k \<in> set ?ks then None else content s k)"
  proof (cases "ds = []")
    case True
    then show ?thesis
      using assms v ds by (auto simp: session_remove_where_def)
  next
    case False
    then obtain u where "st_batch S s ds = (Inr u, s')"
      using assms v by (auto simp: session_remove_where_def Let_def split: sum.splits prod.splits)
    then show ?thesis
      unfolding ds by (rule batch_ok) (rule ops_effect_deletes)
  qed
  then show ?thesis
    by (auto simp: set_tag_rows image_iff)
qed

lemma validate_reads:
  assumes "session_validate_at J S token now s = (Some info, s')"
  shows "\<exists>v r. content s (session_key J token) = Some v \<and> session_decode J v = Inr r \<and>
    \<not> session_expired r now \<and> info = session_info r"
  using assms
  by (auto simp: session_validate_at_def Let_def session_info_def split: sum.splits option.splits if_splits
      dest!: get_ok)

lemma validate_keeps_others:
  assumes "session_validate_at J S token now s = (r, s')" and "k \<noteq> session_key J token"
  shows "content s' k = content s k"
proof -
  have "content (snd (st_delete S s (session_key J token))) k = content s k"
    "content (snd (st_put S s (session_key J token) v)) k = content s k" for v
    using assms(2)
    by (cases "st_delete S s (session_key J token)"; cases "fst (st_delete S s (session_key J token))";
        auto dest: delete_ok delete_err)
      (cases "st_put S s (session_key J token) v"; cases "fst (st_put S s (session_key J token) v)";
        use assms(2) in \<open>auto dest: put_ok put_err\<close>)
  then show ?thesis
    using assms(1)
    by (auto simp: session_validate_at_def Let_def split: sum.splits option.splits if_splits)
qed

lemma issue_stores:
  assumes "session_issue_at J S random info now s = (Inr token, s')"
  shows "\<exists>v. token = random_token random \<and> content s' = (content s)(session_key J token \<mapsto> v) \<and>
    session_encode J \<lparr>sr_account_id = ti_account_id info, sr_username = ti_username info,
      sr_is_admin = ti_is_admin info, sr_kind = ti_kind info, sr_issued_at = now, sr_last_used_at = now\<rparr> = Inr v"
  using assms
  by (auto simp: session_issue_at_def Let_def split: sum.splits prod.splits dest!: put_ok)

end

lemma session_key_tagged [simp]: "tagged (CHR ''r'') TAG_SESSION (session_key J token)"
  by (simp add: session_key_def)

section \<open>A codec\<close>

text \<open>A concrete codec, on which the operations are evaluated: fixed fields behind an opening brace.\<close>

definition plain_to_vec :: "session_record \<Rightarrow> bytes" where
  "plain_to_vec r =
    (CHR ''{'') # (if sr_is_admin r then CHR ''y'' else CHR ''n'')
    # (case sr_kind r of Session_Admin \<Rightarrow> CHR ''a'' | Session_Webmail \<Rightarrow> CHR ''w'')
    # be64 (sr_account_id r) @ be64 (sr_issued_at r) @ be64 (sr_last_used_at r) @ sr_username r"

definition plain_from_slice :: "bytes \<Rightarrow> bytes + session_record" where
  "plain_from_slice v =
    (case v of
       b # a # c # w \<Rightarrow>
         if b \<noteq> CHR ''{'' then Inl ''expected value''
         else (case (try_be64 (take 8 w), try_be64 (take 8 (drop 8 w)), try_be64 (take 8 (drop 16 w))) of
           (Some i, Some t, Some u) \<Rightarrow>
             Inr \<lparr>sr_account_id = i, sr_username = drop 24 w, sr_is_admin = (a = CHR ''y''),
               sr_kind = (if c = CHR ''a'' then Session_Admin else Session_Webmail),
               sr_issued_at = t, sr_last_used_at = u\<rparr>
         | _ \<Rightarrow> Inl ''missing field'')
     | _ \<Rightarrow> Inl ''expected value'')"

definition plain_codec :: session_codec where
  "plain_codec = \<lparr>sc_hash = (\<lambda>t. t), sc_to_vec = (\<lambda>r. Inr (plain_to_vec r)), sc_from_slice = plain_from_slice\<rparr>"

lemma plain_roundtrip [simp]: "plain_from_slice (plain_to_vec r) = Inr r"
  by (cases r; cases "sr_kind r") (simp_all add: plain_from_slice_def plain_to_vec_def)

lemma plain_codec_sels [simp]:
  "sc_hash plain_codec t = t" "sc_to_vec plain_codec r = Inr (plain_to_vec r)"
  "sc_from_slice plain_codec v = plain_from_slice v"
  by (simp_all add: plain_codec_def)

definition ann :: session_record where
  "ann = \<lparr>sr_account_id = 7, sr_username = ''ann'', sr_is_admin = False, sr_kind = Session_Webmail,
    sr_issued_at = 100, sr_last_used_at = 100\<rparr>"

definition session_db :: mem_db where
  "session_db = [((Registry, marker_key), [CHR 0x01]), ((Registry, session_key plain_codec ''t''), plain_to_vec ann)]"

lemma subspace_of_session [simp]:
  "subspace_of (session_key J t) = Inr Registry" "subspace_of marker_key = Inr Registry"
  "subspace_of [CHR ''r''] = Inr Registry"
  using subspace_of_subspace_byte [of Registry]
  by (simp_all add: session_key_def marker_key_def)

lemma session_db_rows:
  "st_iterate_from mem_store session_db (prefix_subspace Registry) [subspace_byte Registry, TAG_SESSION] =
    map Inr [(marker_key, [CHR 0x01]), (session_key plain_codec ''t'', plain_to_vec ann)]"
  by (simp add: mem_store_reads mem_rows_def session_db_def marker_key_def session_key_def
      BACKFILL_MARKER_TAG_def TAG_SESSION_def)

lemma session_db_remove:
  "plain_from_slice [CHR 0x01] = Inl ''expected value'' \<and>
    (\<exists>d. session_remove_where plain_codec mem_store keep_out session_db =
      (Inr (if keep_out ann (session_key plain_codec ''t'') then 2 else 1), d))"
proof -
  have m: "plain_from_slice [CHR 0x01] = Inl ''expected value''"
    by (simp add: plain_from_slice_def)
  have l: "\<not> length (session_key plain_codec ''t'') < 2" "session_key plain_codec ''t'' ! 1 = TAG_SESSION"
    "\<not> length marker_key < 2" "marker_key ! 1 = TAG_SESSION"
    by (simp_all add: session_key_def marker_key_def TAG_SESSION_def BACKFILL_MARKER_TAG_def)
  have "\<exists>d. st_batch mem_store session_db (map Delete_Op ks) = (Inr (), d)"
    if "set ks \<subseteq> {marker_key, session_key plain_codec ''t''}" for ks
  proof -
    have "\<exists>d. mem_ops (map Delete_Op ks) e = Some d" for e
      using that by (induction ks arbitrary: e) (auto simp: internal_def)
    then show ?thesis
      using mem_store_batch by blast
  qed
  from this [of "[marker_key]"] this [of "[marker_key, session_key plain_codec ''t'']"] show ?thesis
    using m l
    by (auto simp: session_remove_where_def session_db_rows [simplified] doomed_visit_def session_decode_def)
qed

section \<open>Guarantees\<close>

text \<open>
  C17. Revoking an account ends all its sessions and no others: after a successful
  \<open>revoke_account\<close> no token is accepted for the account at any time, and a token of another
  account has its record as before.
\<close>

theorem revoke_account_ends_sessions:
  assumes "rocksdb_laws R data"
    and "session_revoke_account J (rocksdb_store R elapsed) account_id d = (Inr n, d')"
  shows "(\<forall>token now. case session_validate_at J (rocksdb_store R elapsed) token now d' of
      (Some info, _) \<Rightarrow> ti_account_id info \<noteq> account_id | (None, _) \<Rightarrow> True) \<and>
    (\<forall>token v r. content_map (data d) (session_key J token) = Some v \<longrightarrow> session_decode J v = Inr r \<longrightarrow>
      sr_account_id r \<noteq> account_id \<longrightarrow> content_map (data d') (session_key J token) = Some v)"
proof -
  note kv = rocksdb_laws.store_contract [OF assms(1)]
  note eff = kv_store.remove_where_effect [OF kv assms(2) [unfolded session_revoke_account_def]]
  have "ti_account_id info \<noteq> account_id"
    if val: "session_validate_at J (rocksdb_store R elapsed) token now d' = (Some info, d'')" for token now info d''
  proof -
    from kv_store.validate_reads [OF kv val] obtain v r
      where v: "content_map (data d') (session_key J token) = Some v" "session_decode J v = Inr r"
        "info = session_info r"
      by blast
    then have "\<not> doomed_row J (\<lambda>r _. sr_account_id r = account_id) (session_key J token) v"
      using eff [of "session_key J token"] by (auto split: if_splits)
    then show ?thesis
      using v by (simp add: doomed_row_def session_info_def)
  qed
  then have "\<forall>token now. case session_validate_at J (rocksdb_store R elapsed) token now d' of
      (Some info, _) \<Rightarrow> ti_account_id info \<noteq> account_id | (None, _) \<Rightarrow> True"
    by (auto split: prod.splits option.splits)
  then show ?thesis
    using eff by (auto simp: doomed_row_def)
qed

theorem revoke_account_ends_sessions_witness:
  "\<exists>d'. session_revoke_account plain_codec mem_store 7 session_db = (Inr 2, d') \<and>
    (case session_validate_at plain_codec mem_store ''t'' 200 d' of
      (Some info, _) \<Rightarrow> ti_account_id info \<noteq> 7 | (None, _) \<Rightarrow> True)"
proof -
  obtain d' where d': "session_revoke_account plain_codec mem_store 7 session_db = (Inr 2, d')"
    using session_db_remove [of "\<lambda>r _. sr_account_id r = 7"] by (auto simp: session_revoke_account_def ann_def)
  show ?thesis
    using revoke_account_ends_sessions [OF mem_laws d' [unfolded mem_store_def],
        THEN conjunct1, THEN spec [of _ "''t''"], THEN spec [of _ 200]] d'
    unfolding mem_store_def by (intro exI [of _ d'] conjI)
qed

text \<open>
  C39. Session housekeeping erases the backfill marker: the marker lies below the tag of the
  sessions, and its one byte is not the JSON text of a session.  A successful sweep of expired
  sessions, at any time, and a successful revocation of any account remove it, so that the
  backfill of attachment keywords runs over all mail again at the next start.
\<close>

theorem session_sweep_drops_marker:
  assumes "rocksdb_laws R data" and "sc_from_slice J [CHR 0x01] = Inl err"
    and "content_map (data d) marker_key = Some [CHR 0x01]"
    and "session_sweep_expired_at J (rocksdb_store R elapsed) now d = (Inr n, d1)"
    and "session_revoke_account J (rocksdb_store R elapsed) account_id d = (Inr m, d2)"
  shows "content_map (data d1) marker_key = None \<and> content_map (data d2) marker_key = None"
proof -
  note kv = rocksdb_laws.store_contract [OF assms(1)]
  have "tagged (subspace_byte Registry) TAG_SESSION marker_key"
    by (simp add: marker_key_def BACKFILL_MARKER_TAG_def TAG_SESSION_def)
  then show ?thesis
    using kv_store.remove_where_effect [OF kv assms(4) [unfolded session_sweep_expired_at_def]]
      kv_store.remove_where_effect [OF kv assms(5) [unfolded session_revoke_account_def]] assms(2,3)
    by (simp add: doomed_row_def session_decode_def)
qed

theorem session_sweep_drops_marker_witness:
  "\<exists>d1. session_sweep_expired_at plain_codec mem_store 200 session_db = (Inr 1, d1) \<and>
    content_map (mem_data session_db) marker_key = Some [CHR 0x01] \<and>
    content_map (mem_data d1) marker_key = None"
proof -
  obtain d1 where d1: "session_sweep_expired_at plain_codec mem_store 200 session_db = (Inr 1, d1)"
    using session_db_remove [of "\<lambda>r _. session_expired r 200"]
    by (auto simp: session_sweep_expired_at_def ann_def session_expired_def saturating_sub_def
        WEBMAIL_IDLE_SECS_def)
  obtain d2 where d2: "session_revoke_account plain_codec mem_store 9 session_db = (Inr 1, d2)"
    using session_db_remove [of "\<lambda>r _. sr_account_id r = 9"] by (auto simp: session_revoke_account_def ann_def)
  have m: "content_map (mem_data session_db) marker_key = Some [CHR 0x01]"
    by (simp add: content_map_def mem_data_def session_db_def)
  have j: "sc_from_slice plain_codec [CHR 0x01] = Inl ''expected value''"
    using session_db_remove by simp
  show ?thesis
    using session_sweep_drops_marker [OF mem_laws j m d1 [unfolded mem_store_def] d2 [unfolded mem_store_def]] d1 m
    by blast
qed

text \<open>
  C29. A session lives as long as its idle limit: a token that was issued at one time and is
  presented at a later one, with no other use in between, is accepted with the information it was
  issued for exactly when less than the idle limit of its kind has passed, where the codec reads
  back what it wrote and the reading does not fail.
\<close>

theorem session_lifetime_exact:
  assumes "rocksdb_laws R data" and "\<forall>r v. sc_to_vec J r = Inr v \<longrightarrow> sc_from_slice J v = Inr r"
    and "session_issue_at J (rocksdb_store R elapsed) random info issued d = (Inr token, d')"
    and "st_get (rocksdb_store R elapsed) d' (session_key J token) = Inr v" and "issued \<le> now"
  shows "fst (session_validate_at J (rocksdb_store R elapsed) token now d') =
    (if unat now - unat issued < unat (idle_limit (ti_kind info)) then Some info else None)"
proof -
  note kv = rocksdb_laws.store_contract [OF assms(1)]
  let ?r = "\<lparr>sr_account_id = ti_account_id info, sr_username = ti_username info,
      sr_is_admin = ti_is_admin info, sr_kind = ti_kind info, sr_issued_at = issued, sr_last_used_at = issued\<rparr>"
  from kv_store.issue_stores [OF kv assms(3)] obtain w
    where w: "content_map (data d') (session_key J token) = Some w" "session_encode J ?r = Inr w"
    by auto
  have v: "v = Some w"
    using kv_store.get_ok [OF kv assms(4)] w(1) by simp
  have dec: "session_decode J w = Inr ?r"
    using w(2) assms(2) by (auto simp: session_encode_def session_decode_def split: sum.splits)
  have "session_expired ?r now \<longleftrightarrow> \<not> unat now - unat issued < unat (idle_limit (ti_kind info))"
    by (simp add: session_expired_def word_le_nat_alt unat_saturating_sub not_less)
  then show ?thesis
    using assms(4) v dec
    by (simp add: session_validate_at_def Let_def) (simp add: session_info_def)
qed

theorem session_lifetime_exact_witness:
  "\<exists>d'. session_issue_at plain_codec mem_store [CHR 0xAB] (session_info ann) 100 [] = (Inr ''ab'', d') \<and>
    fst (session_validate_at plain_codec mem_store ''ab'' 7000 d') = Some (session_info ann) \<and>
    fst (session_validate_at plain_codec mem_store ''ab'' 8000000 d') = None"
proof -
  obtain d' where d': "session_issue_at plain_codec mem_store [CHR 0xAB] (session_info ann) 100 [] = (Inr ''ab'', d')"
    by (simp add: session_issue_at_def Let_def session_encode_def mem_store_writes random_token_def lower_hex_def
        char_of_eq_iff take_bit_eq_mod)
  obtain v where v: "st_get mem_store d' (session_key plain_codec ''ab'') = Inr v"
    by (simp add: mem_store_reads)
  have "fst (session_validate_at plain_codec mem_store ''ab'' now d') =
      (if unat now - unat (100 :: u64) < unat (idle_limit (ti_kind (session_info ann))) then Some (session_info ann) else None)"
    if "100 \<le> now" for now
    using session_lifetime_exact [OF mem_laws _ d' [unfolded mem_store_def] v [unfolded mem_store_def] that]
    by (simp add: mem_store_def)
  from this [of 7000] this [of 8000000] show ?thesis
    using d' by (simp add: ann_def session_info_def WEBMAIL_IDLE_SECS_def word_le_nat_alt)
qed

end
