(* ===== verification/Utf8.thy ===== *)
theory Utf8
  imports Prelude
begin

text \<open>
  Rust's \<open>str\<close>: UTF-8 validation (\<open>from_utf8\<close>), lossy decoding (\<open>from_utf8_lossy\<close>),
  iteration over characters (\<open>chars\<close>) and the Unicode-aware trimming and splitting that the
  protocol code calls. A Rust string is the list of its bytes; its characters are code points.
\<close>

section \<open>Decoding one character\<close>

text \<open>A continuation byte, and the range of the second byte that a leading byte admits.\<close>

definition is_cont :: "byte \<Rightarrow> bool" where
  "is_cont c \<longleftrightarrow> 128 \<le> byte_val c \<and> byte_val c < 192"

definition second_ok :: "nat \<Rightarrow> byte \<Rightarrow> bool" where
  "second_ok b0 c \<longleftrightarrow>
     (if b0 = 224 then 160 else if b0 = 240 then 144 else 128) \<le> byte_val c \<and>
     byte_val c < (if b0 = 237 then 160 else if b0 = 244 then 144 else 192)"

text \<open>
  The head of a byte sequence: \<open>Inr (c, n)\<close> is a well-formed character \<open>c\<close> of \<open>n\<close> bytes,
  \<open>Inl n\<close> a maximal ill-formed prefix of \<open>n\<close> bytes.
\<close>

fun utf8_next :: "byte \<Rightarrow> bytes \<Rightarrow> nat + nat \<times> nat" where
  "utf8_next c s =
     (let b0 = byte_val c in
      if b0 < 128 then Inr (b0, 1)
      else if 194 \<le> b0 \<and> b0 < 224 then
        (case s of c1 # _ \<Rightarrow>
           if is_cont c1 then Inr ((b0 mod 32) * 64 + byte_val c1 mod 64, 2) else Inl 1
         | [] \<Rightarrow> Inl 1)
      else if 224 \<le> b0 \<and> b0 < 240 then
        (case s of c1 # s' \<Rightarrow>
           if \<not> second_ok b0 c1 then Inl 1
           else (case s' of c2 # _ \<Rightarrow>
                   if is_cont c2
                   then Inr ((b0 mod 16) * 4096 + (byte_val c1 mod 64) * 64 + byte_val c2 mod 64, 3)
                   else Inl 2
                 | [] \<Rightarrow> Inl 2)
         | [] \<Rightarrow> Inl 1)
      else if 240 \<le> b0 \<and> b0 < 245 then
        (case s of c1 # s' \<Rightarrow>
           if \<not> second_ok b0 c1 then Inl 1
           else (case s' of c2 # s'' \<Rightarrow>
                   if \<not> is_cont c2 then Inl 2
                   else (case s'' of c3 # _ \<Rightarrow>
                           if is_cont c3
                           then Inr ((b0 mod 8) * 262144 + (byte_val c1 mod 64) * 4096
                                     + (byte_val c2 mod 64) * 64 + byte_val c3 mod 64, 4)
                           else Inl 3
                         | [] \<Rightarrow> Inl 3)
                 | [] \<Rightarrow> Inl 2)
         | [] \<Rightarrow> Inl 1)
      else Inl 1)"

declare utf8_next.simps [simp del]

lemma utf8_next_Inl_pos: "utf8_next c s = Inl n \<Longrightarrow> 0 < n"
  by (auto simp: utf8_next.simps Let_def split: if_splits list.splits)

lemma utf8_next_Inr_pos: "utf8_next c s = Inr (x, n) \<Longrightarrow> 0 < n \<and> n \<le> Suc (length s)"
  by (auto simp: utf8_next.simps Let_def split: if_splits list.splits)

section \<open>Whole strings\<close>

text \<open>\<open>std::str::from_utf8\<close> followed by \<open>chars\<close>: the code points, if the bytes are valid.\<close>

function utf8_decode :: "bytes \<Rightarrow> nat list option" where
  "utf8_decode [] = Some []"
| "utf8_decode (c # s) =
     (case utf8_next c s of
        Inl _ \<Rightarrow> None
      | Inr (x, n) \<Rightarrow> map_option ((#) x) (utf8_decode (drop n (c # s))))"
  by pat_completeness auto
termination
  by (relation "measure length") (auto dest!: sym [of "Inr _"] utf8_next_Inr_pos)

definition utf8_valid :: "bytes \<Rightarrow> bool" where
  "utf8_valid s \<longleftrightarrow> utf8_decode s \<noteq> None"

definition str_chars :: "bytes \<Rightarrow> nat list" where
  "str_chars s = (case utf8_decode s of None \<Rightarrow> [] | Some cs \<Rightarrow> cs)"

text \<open>\<open>char::encode_utf8\<close> and \<open>char::from_u32\<close>.\<close>

definition is_scalar :: "nat \<Rightarrow> bool" where
  "is_scalar x \<longleftrightarrow> x < 55296 \<or> (57344 \<le> x \<and> x < 1114112)"

definition utf8_encode :: "nat \<Rightarrow> bytes" where
  "utf8_encode x =
     (if x < 128 then [char_of x]
      else if x < 2048 then [char_of (192 + x div 64), char_of (128 + x mod 64)]
      else if x < 65536 then
        [char_of (224 + x div 4096), char_of (128 + (x div 64) mod 64), char_of (128 + x mod 64)]
      else
        [char_of (240 + x div 262144), char_of (128 + (x div 4096) mod 64),
         char_of (128 + (x div 64) mod 64), char_of (128 + x mod 64)])"

definition str_of :: "nat list \<Rightarrow> bytes" where
  "str_of cs = concat (map utf8_encode cs)"

text \<open>\<open>String::from_utf8_lossy\<close>: every maximal ill-formed part becomes U+FFFD.\<close>

abbreviation (input) replacement :: bytes where
  "replacement \<equiv> [CHR 0xEF, CHR 0xBF, CHR 0xBD]"

function utf8_lossy :: "bytes \<Rightarrow> bytes" where
  "utf8_lossy [] = []"
| "utf8_lossy (c # s) =
     (case utf8_next c s of
        Inl n \<Rightarrow> replacement @ utf8_lossy (drop n (c # s))
      | Inr (x, n) \<Rightarrow> take n (c # s) @ utf8_lossy (drop n (c # s)))"
  by pat_completeness auto
termination
  by (relation "measure length")
    (auto dest!: sym [of "Inr _"] sym [of "Inl _"] utf8_next_Inr_pos utf8_next_Inl_pos)

declare utf8_decode.simps(2) [simp del]
declare utf8_lossy.simps(2) [simp del]

section \<open>Encoding and decoding are inverse\<close>

lemma char_of_byte_val: "n < 256 \<Longrightarrow> byte_val (char_of n) = n"
  by simp

lemma utf8_encode_nonempty [simp]: "utf8_encode x \<noteq> []"
  by (simp add: utf8_encode_def)

lemma div_mod_64_2: "x = (x div 64) * 64 + x mod 64" for x :: nat
  by simp

lemma div_mod_64_3: "x = (x div 4096) * 4096 + (x div 64 mod 64) * 64 + x mod 64" for x :: nat
proof -
  have "x div 64 = (x div 4096) * 64 + x div 64 mod 64"
    using div_mult_mod_eq [of "x div 64" 64] by (simp add: div_mult2_eq [symmetric])
  moreover have "x = (x div 64) * 64 + x mod 64" by simp
  ultimately show ?thesis by linarith
qed

lemma div_mod_64_4:
  "x = (x div 262144) * 262144 + (x div 4096 mod 64) * 4096 + (x div 64 mod 64) * 64 + x mod 64"
  for x :: nat
proof -
  have "x div 4096 = (x div 262144) * 64 + x div 4096 mod 64"
    using div_mult_mod_eq [of "x div 4096" 64] by (simp add: div_mult2_eq [symmetric])
  with div_mod_64_3 [of x] show ?thesis by linarith
qed

lemma mod_64_less: "x mod 64 < (64::nat)"
  by simp

lemma mod_offset: "a < m \<Longrightarrow> (k * m + a) mod m = a" for a m k :: nat
  by simp

lemma cont_byte: "n < 64 \<Longrightarrow> is_cont (char_of (128 + n)) \<and> byte_val (char_of (128 + n)) mod 64 = n"
  using mod_offset [of n 64 2] by (simp add: is_cont_def char_of_byte_val)

lemma utf8_next_1: "a < 128 \<Longrightarrow> utf8_next (char_of a) t = Inr (a, 1)"
  by (simp add: utf8_next.simps Let_def)

lemma utf8_next_2:
  assumes "2 \<le> a" "a < 32" "b < 64"
  shows "utf8_next (char_of (192 + a)) (char_of (128 + b) # t) = Inr (a * 64 + b, 2)"
proof -
  have "(192 + a) mod 32 = a" using mod_offset [of a 32 6] assms by simp
  with assms cont_byte [of b] show ?thesis
    by (simp add: utf8_next.simps Let_def)
qed

lemma utf8_next_3:
  assumes "a < 16" "b < 64" "c < 64" and s: "second_ok (224 + a) (char_of (128 + b))"
  shows "utf8_next (char_of (224 + a)) (char_of (128 + b) # char_of (128 + c) # t)
           = Inr (a * 4096 + b * 64 + c, 3)"
proof -
  have "(224 + a) mod 16 = a" using mod_offset [of a 16 14] assms by simp
  with assms(1-3) s cont_byte [of b] cont_byte [of c] show ?thesis
    by (simp add: utf8_next.simps Let_def)
qed

lemma utf8_next_4:
  assumes "a < 5" "b < 64" "c < 64" "d < 64" and s: "second_ok (240 + a) (char_of (128 + b))"
  shows "utf8_next (char_of (240 + a)) (char_of (128 + b) # char_of (128 + c) # char_of (128 + d) # t)
           = Inr (a * 262144 + b * 4096 + c * 64 + d, 4)"
proof -
  have "(240 + a) mod 8 = a" using mod_offset [of a 8 30] assms by simp
  with assms(1-4) s cont_byte [of b] cont_byte [of c] cont_byte [of d] show ?thesis
    by (simp add: utf8_next.simps Let_def)
qed

lemma second_ok_3:
  assumes "2048 \<le> a * 4096 + b * 64 + c" "is_scalar (a * 4096 + b * 64 + c)"
    "a < 16" "b < 64" "c < 64"
  shows "second_ok (224 + a) (char_of (128 + b))"
  using assms by (auto simp: second_ok_def is_scalar_def)

lemma second_ok_4:
  assumes "65536 \<le> a * 262144 + b * 4096 + c * 64 + d" "a * 262144 + b * 4096 + c * 64 + d < 1114112"
    "a < 5" "b < 64" "c < 64" "d < 64"
  shows "second_ok (240 + a) (char_of (128 + b))"
  using assms by (auto simp: second_ok_def)

lemma utf8_next_encode:
  assumes "is_scalar x"
  shows "\<exists>c s. utf8_encode x = c # s \<and> utf8_next c (s @ t) = Inr (x, length (utf8_encode x))"
proof -
  consider (1) "x < 128" | (2) "128 \<le> x" "x < 2048" | (3) "2048 \<le> x" "x < 65536"
    | (4) "65536 \<le> x" "x < 1114112"
    using assms unfolding is_scalar_def by linarith
  then show ?thesis
  proof cases
    case 1
    then show ?thesis by (simp add: utf8_encode_def utf8_next_1)
  next
    case 2
    then have "2 \<le> x div 64" "x div 64 < 32"
      using div_le_mono [of 128 x 64] by (simp_all add: less_mult_imp_div_less)
    from utf8_next_2 [OF this mod_64_less, of x t] 2 show ?thesis
      by (simp add: utf8_encode_def)
  next
    case 3
    define a b c where "a = x div 4096" and "b = x div 64 mod 64" and "c = x mod 64"
    have x: "x = a * 4096 + b * 64 + c" unfolding a_def b_def c_def by (rule div_mod_64_3)
    have l: "a < 16" "b < 64" "c < 64" using 3 by (simp_all add: a_def b_def c_def less_mult_imp_div_less)
    have "second_ok (224 + a) (char_of (128 + b))"
      by (rule second_ok_3 [of a b c]) (use 3 l assms x in simp_all)
    from utf8_next_3 [OF l this, of t] 3 show ?thesis
      by (simp add: utf8_encode_def a_def [symmetric] b_def [symmetric] c_def [symmetric] x [symmetric])
  next
    case 4
    define a b c d where "a = x div 262144" and "b = x div 4096 mod 64"
      and "c = x div 64 mod 64" and "d = x mod 64"
    have x: "x = a * 262144 + b * 4096 + c * 64 + d"
      unfolding a_def b_def c_def d_def by (rule div_mod_64_4)
    have l: "a < 5" "b < 64" "c < 64" "d < 64"
      using 4 by (simp_all add: a_def b_def c_def d_def less_mult_imp_div_less)
    have "second_ok (240 + a) (char_of (128 + b))"
      by (rule second_ok_4 [of a b c d]) (use 4 l x in simp_all)
    from utf8_next_4 [OF l this, of t] 4 show ?thesis
      by (simp add: utf8_encode_def a_def [symmetric] b_def [symmetric] c_def [symmetric]
          d_def [symmetric] x [symmetric])
  qed
qed

lemma utf8_decode_encode:
  assumes "is_scalar x"
  shows "utf8_decode (utf8_encode x @ t) = map_option ((#) x) (utf8_decode t)"
proof -
  from utf8_next_encode [OF assms, of t] obtain c s where
    cs: "utf8_encode x = c # s" "utf8_next c (s @ t) = Inr (x, length (utf8_encode x))"
    by blast
  from cs(1) have "drop (length (utf8_encode x)) (c # s @ t) = t" by simp
  with cs show ?thesis by (simp add: utf8_decode.simps(2))
qed

lemma utf8_decode_str_of [simp]:
  "\<forall>x\<in>set cs. is_scalar x \<Longrightarrow> utf8_decode (str_of cs) = Some cs"
  by (induction cs) (simp_all add: str_of_def utf8_decode_encode)

lemma str_of_Nil [simp]: "str_of [] = []"
  and str_of_Cons [simp]: "str_of (x # cs) = utf8_encode x @ str_of cs"
  and str_of_append [simp]: "str_of (cs @ ds) = str_of cs @ str_of ds"
  by (simp_all add: str_of_def)

section \<open>ASCII strings\<close>

lemma utf8_next_ascii: "is_ascii c \<Longrightarrow> utf8_next c s = Inr (byte_val c, 1)"
  by (simp add: utf8_next.simps Let_def is_ascii_def)

lemma utf8_decode_ascii:
  "\<forall>c\<in>set s. is_ascii c \<Longrightarrow> utf8_decode s = Some (map byte_val s)"
  by (induction s) (simp_all add: utf8_decode.simps(2) utf8_next_ascii)

lemma utf8_valid_ascii: "\<forall>c\<in>set s. is_ascii c \<Longrightarrow> utf8_valid s"
  by (simp add: utf8_valid_def utf8_decode_ascii)

lemma utf8_valid_Nil [simp]: "utf8_valid []"
  by (simp add: utf8_valid_def)

text \<open>The bytes of a character determine it: the converse of \<open>utf8_next_encode\<close>.\<close>

lemma utf8_valid_str_of: "\<forall>x\<in>set cs. is_scalar x \<Longrightarrow> utf8_valid (str_of cs)"
  by (simp add: utf8_valid_def)

section \<open>Concatenation of valid strings\<close>

lemma utf8_next_append:
  "utf8_next c s = Inr (x, n) \<Longrightarrow> utf8_next c (s @ t) = Inr (x, n)"
  by (auto simp: utf8_next.simps Let_def split: if_splits list.splits)

lemma utf8_decode_append:
  "utf8_decode s = Some cs \<Longrightarrow> utf8_decode (s @ t) = map_option ((@) cs) (utf8_decode t)"
proof (induction s arbitrary: cs rule: utf8_decode.induct)
  case 1
  then show ?case by (cases "utf8_decode t") simp_all
next
  case (2 c s)
  from "2.prems" obtain x n ds where n: "utf8_next c s = Inr (x, n)"
    and ds: "utf8_decode (drop n (c # s)) = Some ds" "cs = x # ds"
    by (auto simp: utf8_decode.simps(2) split: sum.splits)
  from utf8_next_Inr_pos [OF n] have d: "drop n (c # s @ t) = drop n (c # s) @ t"
    by (cases n) simp_all
  have "utf8_decode (drop n (c # s) @ t) = map_option ((@) ds) (utf8_decode t)"
    by (rule "2.IH" [OF n refl ds(1)])
  with n ds(2) d show ?case
    by (simp add: utf8_decode.simps(2) [of c "s @ t"] utf8_next_append option.map_comp comp_def)
qed

lemma utf8_valid_append: "utf8_valid s \<Longrightarrow> utf8_valid t \<Longrightarrow> utf8_valid (s @ t)"
  by (auto simp: utf8_valid_def utf8_decode_append)

lemma utf8_valid_take_next:
  assumes "utf8_next c s = Inr (x, n)"
  shows "utf8_valid (take n (c # s))"
proof -
  have "utf8_next c (take (n - 1) s) = Inr (x, n)" and "n \<le> Suc (length s)"
    using assms
    by (auto simp: utf8_next.simps Let_def split: if_splits list.splits)
  moreover from assms have "0 < n" by (auto dest: utf8_next_Inr_pos)
  ultimately show ?thesis
    by (cases n) (simp_all add: utf8_valid_def utf8_decode.simps(2))
qed

lemma utf8_valid_lossy: "utf8_valid (utf8_lossy s)"
proof (induction s rule: utf8_lossy.induct)
  case 1
  then show ?case by simp
next
  case (2 c s)
  show ?case
  proof (cases "utf8_next c s")
    case (Inl n)
    have "utf8_valid replacement"
      by (simp add: utf8_valid_def utf8_decode.simps(2) utf8_next.simps is_cont_def second_ok_def)
    with 2 Inl show ?thesis by (simp add: utf8_lossy.simps(2) utf8_valid_append del: append.simps)
  next
    case (Inr p)
    then obtain x n where "utf8_next c s = Inr (x, n)" by (cases p) auto
    with 2 show ?thesis by (simp add: utf8_lossy.simps(2) utf8_valid_append utf8_valid_take_next)
  qed
qed

lemma utf8_lossy_valid: "utf8_valid s \<Longrightarrow> utf8_lossy s = s"
proof (induction s rule: utf8_lossy.induct)
  case 1
  then show ?case by simp
next
  case (2 c s)
  from "2.prems" obtain x n where n: "utf8_next c s = Inr (x, n)"
    and v: "utf8_valid (drop n (c # s))"
    by (auto simp: utf8_valid_def utf8_decode.simps(2) split: sum.splits)
  have "utf8_lossy (drop n (c # s)) = drop n (c # s)"
    by (rule "2.IH"(2) [OF n refl v])
  with n show ?case by (simp add: utf8_lossy.simps(2))
qed

text \<open>An ASCII byte of a valid string is a character boundary on both sides.\<close>

lemma utf8_next_no_ascii:
  "utf8_next c s = Inr (x, n) \<Longrightarrow> b \<in> set (take (n - 1) s) \<Longrightarrow> \<not> is_ascii b"
  by (auto simp: utf8_next.simps Let_def is_cont_def second_ok_def is_ascii_def
      split: if_splits list.splits)

lemma utf8_valid_ascii_split:
  "utf8_valid (a @ c # t) \<Longrightarrow> is_ascii c \<Longrightarrow> utf8_valid t"
proof (induction a rule: length_induct)
  case (1 a)
  show ?case
  proof (cases a)
    case Nil
    with "1.prems" show ?thesis
      by (auto simp: utf8_valid_def utf8_decode.simps(2) utf8_next_ascii)
  next
    case (Cons b a')
    with "1.prems"(1) obtain x n where n: "utf8_next b (a' @ c # t) = Inr (x, n)"
      and v: "utf8_valid (drop n (b # a' @ c # t))"
      by (auto simp: utf8_valid_def utf8_decode.simps(2) split: sum.splits)
    have "n - 1 \<le> length a'"
    proof (rule ccontr)
      assume "\<not> n - 1 \<le> length a'"
      then have "c \<in> set (take (n - 1) (a' @ c # t))"
        by (auto simp: take_Cons')
      with utf8_next_no_ascii [OF n] "1.prems"(2) show False by blast
    qed
    moreover have "0 < n" using utf8_next_Inr_pos [OF n] by blast
    ultimately have "drop n (b # a' @ c # t) = drop (n - 1) a' @ c # t"
      by (simp add: drop_Cons')
    with v have "utf8_valid (drop (n - 1) a' @ c # t)" by simp
    moreover have "length (drop (n - 1) a') < length a" using Cons by simp
    ultimately show ?thesis using "1.IH" "1.prems"(2) by blast
  qed
qed

section \<open>Unicode white space: trim and split\<close>

definition is_whitespace :: "nat \<Rightarrow> bool" where
  "is_whitespace x \<longleftrightarrow> (9 \<le> x \<and> x \<le> 13) \<or> x = 32 \<or> x = 133 \<or> x = 160 \<or> x = 5760
     \<or> (8192 \<le> x \<and> x \<le> 8202) \<or> x = 8232 \<or> x = 8233 \<or> x = 8239 \<or> x = 8287 \<or> x = 12288"

definition trim_start :: "bytes \<Rightarrow> bytes" where
  "trim_start s = str_of (dropWhile is_whitespace (str_chars s))"

definition trim_end :: "bytes \<Rightarrow> bytes" where
  "trim_end s = str_of (rev (dropWhile is_whitespace (rev (str_chars s))))"

definition trim :: "bytes \<Rightarrow> bytes" where
  "trim s = trim_end (trim_start s)"

definition split_whitespace :: "bytes \<Rightarrow> bytes list" where
  "split_whitespace s = map str_of (split_runs is_whitespace (str_chars s))"

text \<open>\<open>s.split_once(char::is_whitespace)\<close>.\<close>

definition split_once_whitespace :: "bytes \<Rightarrow> (bytes \<times> bytes) option" where
  "split_once_whitespace s =
     map_option (\<lambda>(a, b). (str_of a, str_of b)) (split_once is_whitespace (str_chars s))"

text \<open>On ASCII strings these work byte by byte.\<close>

lemma str_of_ascii: "list_all is_ascii s \<Longrightarrow> str_of (map byte_val s) = s"
  by (induction s) (simp_all add: utf8_encode_def is_ascii_def)

lemma str_chars_ascii: "list_all is_ascii s \<Longrightarrow> str_chars s = map byte_val s"
  by (simp add: str_chars_def utf8_decode_ascii list_all_iff)

lemma list_all_dropWhile: "list_all p s \<Longrightarrow> list_all p (dropWhile q s)"
  by (induction s) simp_all

lemma trim_start_ascii:
  "list_all is_ascii s \<Longrightarrow> trim_start s = dropWhile (is_whitespace \<circ> byte_val) s"
  by (simp add: trim_start_def str_chars_ascii dropWhile_map str_of_ascii list_all_dropWhile)

lemma trim_end_ascii:
  assumes "list_all is_ascii s"
  shows "trim_end s = rev (dropWhile (is_whitespace \<circ> byte_val) (rev s))"
proof -
  have "list_all is_ascii (rev (dropWhile (is_whitespace \<circ> byte_val) (rev s)))"
    using assms by (simp add: list_all_dropWhile)
  then show ?thesis
    using assms by (simp add: trim_end_def str_chars_ascii rev_map dropWhile_map str_of_ascii)
qed

lemma trim_ascii:
  "list_all is_ascii s \<Longrightarrow>
     trim s = rev (dropWhile (is_whitespace \<circ> byte_val)
                     (rev (dropWhile (is_whitespace \<circ> byte_val) s)))"
  by (simp add: trim_def trim_start_ascii trim_end_ascii list_all_dropWhile)

end
