(* ===== verification/Store_Fts.thy ===== *)
theory Store_Fts
  imports Store_Memory Utf8
begin

text \<open>
  The full-text index (\<open>crates/store/src/fts.rs\<close>): text is split into lower-case terms, each term of
  a field has a posting list of document identifiers in the store, and queries combine posting
  lists.  A \<open>RoaringBitmap\<close> is a set of 32-bit numbers; its serialised form and the Unicode
  tables behind \<open>char::is_alphanumeric\<close> and \<open>char::to_lowercase\<close> are parameters.  The lemmas show
  that a search returns exactly the candidates that satisfy the query, and that indexing and
  removing a text change the posting lists of its terms and nothing else.
\<close>

section \<open>Terms\<close>

record fts_lib =
  uc_is_alphanumeric :: "nat \<Rightarrow> bool"
  uc_to_lowercase :: "nat \<Rightarrow> nat list"
  bm_serialize :: "u32 set \<Rightarrow> bytes"
  bm_deserialize :: "bytes \<Rightarrow> bytes + u32 set"

definition MAX_TERM_LENGTH :: nat where
  "MAX_TERM_LENGTH = 64"

text \<open>A \<open>BTreeSet\<close> is the list of its elements in order.\<close>

definition push_term :: "bytes list \<Rightarrow> bytes \<Rightarrow> bytes list \<times> bytes" where
  "push_term terms current =
    (if current \<noteq> [] then
       (if length current \<le> MAX_TERM_LENGTH then (insort_insert current terms, []) else (terms, []))
     else (terms, current))"

fun fts_tokenize_loop :: "fts_lib \<Rightarrow> nat list \<Rightarrow> bytes list \<Rightarrow> bytes \<Rightarrow> bytes list \<times> bytes" where
  "fts_tokenize_loop L [] terms current = (terms, current)"
| "fts_tokenize_loop L (ch # chs) terms current =
    (if uc_is_alphanumeric L ch then fts_tokenize_loop L chs terms (current @ str_of (uc_to_lowercase L ch))
     else if current \<noteq> [] then
       (case push_term terms current of (terms', current') \<Rightarrow> fts_tokenize_loop L chs terms' current')
     else fts_tokenize_loop L chs terms current)"

definition fts_tokenize :: "fts_lib \<Rightarrow> bytes \<Rightarrow> bytes list" where
  "fts_tokenize L text =
    (case fts_tokenize_loop L (str_chars text) [] [] of (terms, current) \<Rightarrow> fst (push_term terms current))"

datatype field = Combined | Subject_Field | Body_Field | From_Field | To_Field | Cc_Field | Bcc_Field

fun field_tag :: "field \<Rightarrow> u32" where
  "field_tag Combined = 0"
| "field_tag Subject_Field = 1"
| "field_tag Body_Field = 2"
| "field_tag From_Field = 3"
| "field_tag To_Field = 4"
| "field_tag Cc_Field = 5"
| "field_tag Bcc_Field = 6"

datatype query = Query_Term field bytes | Query_And "query list" | Query_Or "query list" | Query_Not query

definition query_term :: "bytes \<Rightarrow> query" where
  "query_term word = Query_Term Combined word"

definition query_field :: "field \<Rightarrow> bytes \<Rightarrow> query" where
  "query_field f word = Query_Term f word"

definition query_all :: "query list \<Rightarrow> query" where
  "query_all qs = Query_And qs"

definition query_any :: "query list \<Rightarrow> query" where
  "query_any qs = Query_Or qs"

definition query_not :: "query \<Rightarrow> query" where
  "query_not q = Query_Not q"

section \<open>Keys and posting lists\<close>

definition term_key :: "u32 \<Rightarrow> collection \<Rightarrow> field \<Rightarrow> bytes \<Rightarrow> bytes" where
  "term_key a c f t = key_encode (with_suffix t (key_new Index a c (field_tag f)))"

fun insert_all :: "bytes list \<Rightarrow> bytes list \<Rightarrow> bytes list" where
  "insert_all [] ks = ks"
| "insert_all (x # xs) ks = insert_all xs (insort_insert x ks)"

fun term_keys_loop :: "fts_lib \<Rightarrow> u32 \<Rightarrow> collection \<Rightarrow> (field \<times> bytes) list \<Rightarrow> bytes list \<Rightarrow> bytes list" where
  "term_keys_loop L a c [] ks = ks"
| "term_keys_loop L a c ((f, text) # es) ks =
    term_keys_loop L a c es (insert_all (map (term_key a c f) (fts_tokenize L text)) ks)"

definition term_keys :: "fts_lib \<Rightarrow> u32 \<Rightarrow> collection \<Rightarrow> (field \<times> bytes) list \<Rightarrow> bytes list" where
  "term_keys L a c es = term_keys_loop L a c es []"

definition term_of :: "bytes \<Rightarrow> nat \<Rightarrow> error + bytes" where
  "term_of k prefix_len =
    (let suffix_start = prefix_len + 4 in
     if length k < suffix_start then Inl (Store_Error ''index key is too short to carry a term'')
     else if utf8_valid (drop suffix_start k) then Inr (drop suffix_start k)
     else Inl (Store_Error ''index key term is not valid utf-8''))"

definition serialize_bitmap :: "fts_lib \<Rightarrow> u32 set \<Rightarrow> bytes" where
  "serialize_bitmap L b = bm_serialize L b"

definition deserialize_bitmap :: "fts_lib \<Rightarrow> bytes \<Rightarrow> error + u32 set" where
  "deserialize_bitmap L v =
    (case bm_deserialize L v of
       Inl err \<Rightarrow> Inl (Store_Error (''corrupt search posting list: '' @ err))
     | Inr b \<Rightarrow> Inr b)"

definition read_bitmap :: "fts_lib \<Rightarrow> 's store \<Rightarrow> 's \<Rightarrow> bytes \<Rightarrow> error + u32 set" where
  "read_bitmap L S s k =
    and_then (st_get S s k)
      (\<lambda>v. case v of Some b \<Rightarrow> deserialize_bitmap L b | None \<Rightarrow> Inr {})"

definition posting_list :: "fts_lib \<Rightarrow> 's store \<Rightarrow> 's \<Rightarrow> u32 \<Rightarrow> collection \<Rightarrow> field \<Rightarrow> bytes \<Rightarrow> error + u32 set" where
  "posting_list L S s a c f t = read_bitmap L S s (term_key a c f t)"

section \<open>Updates\<close>

fun index_ops_loop :: "fts_lib \<Rightarrow> 's store \<Rightarrow> 's \<Rightarrow> u32 \<Rightarrow> bytes list \<Rightarrow> error + write_op list" where
  "index_ops_loop L S s doc [] = Inr []"
| "index_ops_loop L S s doc (k # ks) =
    and_then (read_bitmap L S s k) (\<lambda>b.
    and_then (index_ops_loop L S s doc ks) (\<lambda>ops.
      Inr ((if doc \<notin> b then [Set_Op k (serialize_bitmap L (insert doc b))] else []) @ ops)))"

definition index_ops ::
  "fts_lib \<Rightarrow> 's store \<Rightarrow> 's \<Rightarrow> u32 \<Rightarrow> collection \<Rightarrow> u32 \<Rightarrow> (field \<times> bytes) list \<Rightarrow> error + write_op list" where
  "index_ops L S s a c doc es = index_ops_loop L S s doc (term_keys L a c es)"

fun remove_ops_loop :: "fts_lib \<Rightarrow> 's store \<Rightarrow> 's \<Rightarrow> u32 \<Rightarrow> bytes list \<Rightarrow> error + write_op list" where
  "remove_ops_loop L S s doc [] = Inr []"
| "remove_ops_loop L S s doc (k # ks) =
    and_then (read_bitmap L S s k) (\<lambda>b.
    and_then (remove_ops_loop L S s doc ks) (\<lambda>ops.
      Inr ((if doc \<in> b
            then [if b - {doc} = {} then Delete_Op k else Set_Op k (serialize_bitmap L (b - {doc}))]
            else []) @ ops)))"

definition remove_ops ::
  "fts_lib \<Rightarrow> 's store \<Rightarrow> 's \<Rightarrow> u32 \<Rightarrow> collection \<Rightarrow> u32 \<Rightarrow> (field \<times> bytes) list \<Rightarrow> error + write_op list" where
  "remove_ops L S s a c doc es = remove_ops_loop L S s doc (term_keys L a c es)"

fun fts_apply :: "'s store \<Rightarrow> write_op list \<Rightarrow> 's \<Rightarrow> (error + unit) \<times> 's" where
  "fts_apply S [] s = (Inr (), s)"
| "fts_apply S (Set_Op k v # ops) s =
    (case st_put S s k v of (Inl e, s') \<Rightarrow> (Inl e, s') | (Inr _, s') \<Rightarrow> fts_apply S ops s')"
| "fts_apply S (Delete_Op k # ops) s =
    (case st_delete S s k of (Inl e, s') \<Rightarrow> (Inl e, s') | (Inr _, s') \<Rightarrow> fts_apply S ops s')"
| "fts_apply S (Add_Op k n # ops) s = (Inl (Store_Error ''the search index does not use counters''), s)"

definition fts_index ::
  "fts_lib \<Rightarrow> 's store \<Rightarrow> u32 \<Rightarrow> collection \<Rightarrow> u32 \<Rightarrow> field \<Rightarrow> bytes \<Rightarrow> 's \<Rightarrow> (error + unit) \<times> 's" where
  "fts_index L S a c doc f text s =
    (case index_ops L S s a c doc [(f, text)] of Inl e \<Rightarrow> (Inl e, s) | Inr ops \<Rightarrow> fts_apply S ops s)"

definition fts_remove ::
  "fts_lib \<Rightarrow> 's store \<Rightarrow> u32 \<Rightarrow> collection \<Rightarrow> u32 \<Rightarrow> field \<Rightarrow> bytes \<Rightarrow> 's \<Rightarrow> (error + unit) \<times> 's" where
  "fts_remove L S a c doc f text s =
    (case remove_ops L S s a c doc [(f, text)] of Inl e \<Rightarrow> (Inl e, s) | Inr ops \<Rightarrow> fts_apply S ops s)"

section \<open>Queries\<close>

fun and_postings ::
  "fts_lib \<Rightarrow> 's store \<Rightarrow> 's \<Rightarrow> u32 \<Rightarrow> collection \<Rightarrow> field \<Rightarrow> bytes list \<Rightarrow> u32 set \<Rightarrow> error + u32 set" where
  "and_postings L S s a c f [] matched = Inr matched"
| "and_postings L S s a c f (t # ts) matched =
    and_then (posting_list L S s a c f t) (\<lambda>b. and_postings L S s a c f ts (matched \<inter> b))"

fun evaluate ::
  "fts_lib \<Rightarrow> 's store \<Rightarrow> 's \<Rightarrow> u32 \<Rightarrow> collection \<Rightarrow> u32 set \<Rightarrow> query \<Rightarrow> error + u32 set"
and evaluate_and ::
  "fts_lib \<Rightarrow> 's store \<Rightarrow> 's \<Rightarrow> u32 \<Rightarrow> collection \<Rightarrow> u32 set \<Rightarrow> u32 set \<Rightarrow> query list \<Rightarrow> error + u32 set"
and evaluate_or ::
  "fts_lib \<Rightarrow> 's store \<Rightarrow> 's \<Rightarrow> u32 \<Rightarrow> collection \<Rightarrow> u32 set \<Rightarrow> u32 set \<Rightarrow> query list \<Rightarrow> error + u32 set" where
  "evaluate L S s a c universe (Query_Term f word) =
    (case fts_tokenize L word of
       [] \<Rightarrow> Inr {}
     | t # ts \<Rightarrow> and_then (posting_list L S s a c f t) (\<lambda>matched. and_postings L S s a c f ts matched))"
| "evaluate L S s a c universe (Query_And qs) =
    (case qs of
       [] \<Rightarrow> Inr universe
     | q # rest \<Rightarrow> and_then (evaluate L S s a c universe q) (\<lambda>matched. evaluate_and L S s a c universe matched rest))"
| "evaluate L S s a c universe (Query_Or qs) = evaluate_or L S s a c universe {} qs"
| "evaluate L S s a c universe (Query_Not q) =
    and_then (evaluate L S s a c universe q) (\<lambda>matched. Inr (universe - matched))"
| "evaluate_and L S s a c universe matched [] = Inr matched"
| "evaluate_and L S s a c universe matched (q # qs) =
    (if matched = {} then Inr matched
     else and_then (evaluate L S s a c universe q) (\<lambda>b. evaluate_and L S s a c universe (matched \<inter> b) qs))"
| "evaluate_or L S s a c universe matched [] = Inr matched"
| "evaluate_or L S s a c universe matched (q # qs) =
    and_then (evaluate L S s a c universe q) (\<lambda>b. evaluate_or L S s a c universe (matched \<union> b) qs)"

definition fts_search ::
  "fts_lib \<Rightarrow> 's store \<Rightarrow> 's \<Rightarrow> u32 \<Rightarrow> collection \<Rightarrow> query \<Rightarrow> u32 list \<Rightarrow> error + u32 list" where
  "fts_search L S s a c q candidates =
    (let universe = set candidates in
     and_then (evaluate L S s a c universe q) (\<lambda>matched.
       Inr (sorted_list_of_set (matched \<inter> universe))))"

text \<open>The captured variables of the scan: the terms and \<open>scan_error\<close>.\<close>

definition term_visit :: "nat \<Rightarrow> (bytes list \<times> error option) visitor" where
  "term_visit prefix_len k v = (\<lambda>(terms, err).
    case term_of k prefix_len of
      Inr t \<Rightarrow> Inr (Continue, (terms @ [t], err))
    | Inl e \<Rightarrow> Inr (Stop, (terms, Some e)))"

definition indexed_terms :: "'s store \<Rightarrow> 's \<Rightarrow> u32 \<Rightarrow> collection \<Rightarrow> error + bytes list" where
  "indexed_terms S s a c =
    (let p = prefix_collection Index a c in
     and_then (visit_rows (term_visit (length (prefix_encode p))) (st_iterate S s p) ([], None))
       (\<lambda>(terms, err). case err of Some e \<Rightarrow> Inl e | None \<Rightarrow> Inr terms))"

section \<open>The index as posting lists\<close>

definition bitmap_at :: "fts_lib \<Rightarrow> content \<Rightarrow> bytes \<Rightarrow> u32 set" where
  "bitmap_at L m k =
    (case m k of None \<Rightarrow> {} | Some v \<Rightarrow> (case deserialize_bitmap L v of Inl _ \<Rightarrow> {} | Inr b \<Rightarrow> b))"

definition postings :: "fts_lib \<Rightarrow> content \<Rightarrow> u32 \<Rightarrow> collection \<Rightarrow> field \<Rightarrow> bytes \<Rightarrow> u32 set" where
  "postings L m a c f t = bitmap_at L m (term_key a c f t)"

text \<open>What a query means for one document, given the terms of a word and the posting lists.\<close>

fun satisfies :: "(bytes \<Rightarrow> bytes list) \<Rightarrow> (field \<Rightarrow> bytes \<Rightarrow> u32 set) \<Rightarrow> u32 \<Rightarrow> query \<Rightarrow> bool" where
  "satisfies tok P d (Query_Term f word) \<longleftrightarrow> tok word \<noteq> [] \<and> (\<forall>t\<in>set (tok word). d \<in> P f t)"
| "satisfies tok P d (Query_And qs) \<longleftrightarrow> (\<forall>q\<in>set qs. satisfies tok P d q)"
| "satisfies tok P d (Query_Or qs) \<longleftrightarrow> (\<exists>q\<in>set qs. satisfies tok P d q)"
| "satisfies tok P d (Query_Not q) \<longleftrightarrow> \<not> satisfies tok P d q"

text \<open>A codec for bitmaps that reads back what it wrote.\<close>

definition bitmap_codec :: "fts_lib \<Rightarrow> bool" where
  "bitmap_codec L \<longleftrightarrow> (\<forall>b. bm_deserialize L (bm_serialize L b) = Inr b)"

lemma bitmap_at_upd:
  "bitmap_codec L \<Longrightarrow> bitmap_at L (m(k \<mapsto> serialize_bitmap L b)) k = b"
  "bitmap_at L (m(k := None)) k = {}"
  "j \<noteq> k \<Longrightarrow> bitmap_at L (m(j := v)) k = bitmap_at L m k"
  by (simp_all add: bitmap_at_def serialize_bitmap_def deserialize_bitmap_def bitmap_codec_def)

lemma set_insort_insert [simp]: "set (insort_insert x xs) = insert x (set xs)"
  by (simp add: insort_insert_key_def set_insort_key insert_absorb)

lemma distinct_insort_insert [simp]: "distinct (insort_insert x xs) \<longleftrightarrow> distinct (xs :: 'a::linorder list)"
  by (simp add: insort_insert_key_def distinct_insort)

lemma set_insert_all [simp]: "set (insert_all xs ks) = set xs \<union> set ks"
  by (induction xs arbitrary: ks) auto

lemma distinct_insert_all [simp]: "distinct (insert_all xs ks) \<longleftrightarrow> distinct ks"
  by (induction xs arbitrary: ks) auto

lemma term_keys_loop_props:
  "set (term_keys_loop L a c es ks) =
    set ks \<union> {term_key a c f t | f t text. (f, text) \<in> set es \<and> t \<in> set (fts_tokenize L text)} \<and>
   (distinct ks \<longrightarrow> distinct (term_keys_loop L a c es ks))"
  by (induction L a c es ks rule: term_keys_loop.induct) auto

lemma term_keys_props:
  "set (term_keys L a c es) = {term_key a c f t | f t text. (f, text) \<in> set es \<and> t \<in> set (fts_tokenize L text)}"
  "distinct (term_keys L a c es)"
  using term_keys_loop_props [of L a c es "[]"] by (auto simp: term_keys_def)

lemma field_tag_inj [simp]: "field_tag f = field_tag g \<longleftrightarrow> f = g"
  by (cases f; cases g) simp_all

lemma term_key_inj [simp]:
  "term_key a c f t = term_key a' c' f' t' \<longleftrightarrow> a = a' \<and> c = c' \<and> f = f' \<and> t = t'"
  by (auto simp: term_key_def with_suffix_def key_new_def)

context kv_store
begin

lemma read_bitmap_ok: "read_bitmap L S s k = Inr b \<Longrightarrow> bitmap_at L (content s) k = b"
  by (auto simp: read_bitmap_def bitmap_at_def and_then_eq_Inr split: option.splits sum.splits dest!: get_ok)

lemma posting_list_ok: "posting_list L S s a c f t = Inr b \<Longrightarrow> postings L (content s) a c f t = b"
  by (simp add: posting_list_def postings_def read_bitmap_ok)

lemma and_postings_ok:
  "and_postings L S s a c f ts m = Inr b \<Longrightarrow> b = {d \<in> m. \<forall>t\<in>set ts. d \<in> postings L (content s) a c f t}"
  by (induction ts arbitrary: m) (auto simp: and_then_eq_Inr dest!: posting_list_ok)

lemma evaluate_and_ok:
  assumes "\<And>q b. q \<in> set qs \<Longrightarrow> evaluate L S s a c U q = Inr b \<Longrightarrow> \<forall>d\<in>U. d \<in> b \<longleftrightarrow> sat d q"
    and "evaluate_and L S s a c U m qs = Inr b"
  shows "\<forall>d\<in>U. d \<in> b \<longleftrightarrow> d \<in> m \<and> (\<forall>q\<in>set qs. sat d q)"
  using assms
proof (induction qs arbitrary: m)
  case (Cons q qs)
  show ?case
  proof (cases "m = {}")
    case False
    then obtain x where x: "evaluate L S s a c U q = Inr x" "evaluate_and L S s a c U (m \<inter> x) qs = Inr b"
      using Cons.prems(2) by (auto simp: and_then_eq_Inr)
    show ?thesis
      using Cons.IH [OF Cons.prems(1) x(2)] Cons.prems(1) [OF _ x(1)] by auto
  qed (use Cons.prems(2) in simp)
qed simp

lemma evaluate_or_ok:
  assumes "\<And>q b. q \<in> set qs \<Longrightarrow> evaluate L S s a c U q = Inr b \<Longrightarrow> \<forall>d\<in>U. d \<in> b \<longleftrightarrow> sat d q"
    and "evaluate_or L S s a c U m qs = Inr b"
  shows "\<forall>d\<in>U. d \<in> b \<longleftrightarrow> d \<in> m \<or> (\<exists>q\<in>set qs. sat d q)"
  using assms
proof (induction qs arbitrary: m)
  case (Cons q qs)
  then obtain x where x: "evaluate L S s a c U q = Inr x" "evaluate_or L S s a c U (m \<union> x) qs = Inr b"
    by (auto simp: and_then_eq_Inr)
  show ?case
    using Cons.IH [OF Cons.prems(1) x(2)] Cons.prems(1) [OF _ x(1)] by auto
qed simp

lemma evaluate_ok:
  "evaluate L S s a c U q = Inr b \<Longrightarrow>
    \<forall>d\<in>U. d \<in> b \<longleftrightarrow> satisfies (fts_tokenize L) (postings L (content s) a c) d q"
proof (induction q arbitrary: b)
  case (Query_Term f word)
  show ?case
  proof (cases "fts_tokenize L word")
    case (Cons t ts)
    then obtain x where "posting_list L S s a c f t = Inr x" "and_postings L S s a c f ts x = Inr b"
      using Query_Term by (auto simp: and_then_eq_Inr)
    then show ?thesis
      using Cons posting_list_ok and_postings_ok by fastforce
  qed (use Query_Term in simp)
next
  case (Query_And qs)
  show ?case
  proof (cases qs)
    case (Cons q rest)
    then obtain x where x: "evaluate L S s a c U q = Inr x" "evaluate_and L S s a c U x rest = Inr b"
      using Query_And.prems by (auto simp: and_then_eq_Inr)
    have "\<forall>d\<in>U. d \<in> b \<longleftrightarrow> d \<in> x \<and> (\<forall>q\<in>set rest. satisfies (fts_tokenize L) (postings L (content s) a c) d q)"
      using Query_And.IH Cons by (intro evaluate_and_ok [OF _ x(2)]) simp
    then show ?thesis
      using Query_And.IH [OF _ x(1)] Cons by simp
  qed (use Query_And in simp)
next
  case (Query_Or qs)
  then show ?case
    using evaluate_or_ok [of qs L s a c U "satisfies (fts_tokenize L) (postings L (content s) a c)" "{}" b]
    by simp
qed (auto simp: and_then_eq_Inr)

lemma fts_apply_effect:
  assumes "fts_apply S ops s = (Inr u, s')"
  shows "ops_effect ops (content s) = Some (content s')"
  using assms
proof (induction ops arbitrary: s)
  case (Cons p ops)
  then show ?case
    by (cases p) (auto split: prod.splits sum.splits simp flip: put_ok delete_ok)
qed simp

text \<open>
  What the operations of an update do to any content that agrees with the store on the keys they
  were computed for.
\<close>

lemma index_ops_effect:
  assumes "bitmap_codec L" and "index_ops_loop L S s doc ks = Inr ops" and "distinct ks"
    and "\<forall>k\<in>set ks. m k = content s k"
  shows "\<exists>m'. ops_effect ops m = Some m' \<and> (\<forall>k. k \<notin> set ks \<longrightarrow> m' k = m k) \<and>
    (\<forall>k\<in>set ks. bitmap_at L m' k = insert doc (bitmap_at L (content s) k))"
  using assms(2-)
proof (induction ks arbitrary: ops m)
  case (Cons k ks)
  from Cons.prems(1) obtain b ops' where b: "read_bitmap L S s k = Inr b"
    and ops': "index_ops_loop L S s doc ks = Inr ops'"
    and ops: "ops = (if doc \<notin> b then [Set_Op k (serialize_bitmap L (insert doc b))] else []) @ ops'"
    by (auto simp: and_then_eq_Inr)
  define m1 where "m1 = (if doc \<notin> b then m(k \<mapsto> serialize_bitmap L (insert doc b)) else m)"
  have "\<forall>j\<in>set ks. m1 j = content s j" "distinct ks"
    using Cons.prems(2,3) by (auto simp: m1_def)
  from Cons.IH [OF ops' this(2,1)] obtain m'
    where m': "ops_effect ops' m1 = Some m'" "\<forall>j. j \<notin> set ks \<longrightarrow> m' j = m1 j"
      "\<forall>j\<in>set ks. bitmap_at L m' j = insert doc (bitmap_at L (content s) j)"
    by blast
  have "bitmap_at L m1 k = insert doc b"
    using assms(1) Cons.prems(3) read_bitmap_ok [OF b]
    by (auto simp: m1_def bitmap_at_upd) (simp_all add: bitmap_at_def)
  then have "bitmap_at L m' k = insert doc (bitmap_at L (content s) k)"
    using m'(2) Cons.prems(2) read_bitmap_ok [OF b] by (simp add: bitmap_at_def)
  then show ?case
    using m' ops by (auto simp: m1_def intro!: exI [of _ m'])
qed simp

lemma remove_ops_effect:
  assumes "bitmap_codec L" and "remove_ops_loop L S s doc ks = Inr ops" and "distinct ks"
    and "\<forall>k\<in>set ks. m k = content s k"
  shows "\<exists>m'. ops_effect ops m = Some m' \<and> (\<forall>k. k \<notin> set ks \<longrightarrow> m' k = m k) \<and>
    (\<forall>k\<in>set ks. bitmap_at L m' k = bitmap_at L (content s) k - {doc})"
  using assms(2-)
proof (induction ks arbitrary: ops m)
  case (Cons k ks)
  from Cons.prems(1) obtain b ops' where b: "read_bitmap L S s k = Inr b"
    and ops': "remove_ops_loop L S s doc ks = Inr ops'"
    and ops: "ops = (if doc \<in> b then [if b - {doc} = {} then Delete_Op k
        else Set_Op k (serialize_bitmap L (b - {doc}))] else []) @ ops'"
    by (auto simp: and_then_eq_Inr)
  define m1 where "m1 = (if doc \<in> b then m(k := if b - {doc} = {} then None
      else Some (serialize_bitmap L (b - {doc}))) else m)"
  have "\<forall>j\<in>set ks. m1 j = content s j" "distinct ks"
    using Cons.prems(2,3) by (auto simp: m1_def)
  from Cons.IH [OF ops' this(2,1)] obtain m'
    where m': "ops_effect ops' m1 = Some m'" "\<forall>j. j \<notin> set ks \<longrightarrow> m' j = m1 j"
      "\<forall>j\<in>set ks. bitmap_at L m' j = bitmap_at L (content s) j - {doc}"
    by blast
  have "bitmap_at L m1 k = b - {doc}"
  proof (cases "doc \<in> b")
    case True
    then show ?thesis
      using assms(1) by (cases "b - {doc} = {}") (auto simp: m1_def bitmap_at_upd)
  next
    case False
    then show ?thesis
      using Cons.prems(3) read_bitmap_ok [OF b] by (simp add: m1_def bitmap_at_def)
  qed
  then have "bitmap_at L m' k = bitmap_at L (content s) k - {doc}"
    using m'(2) Cons.prems(2) read_bitmap_ok [OF b] by (simp add: bitmap_at_def)
  moreover have "ops_effect ops m = Some m'"
    using m'(1) unfolding ops m1_def by (cases "doc \<in> b"; cases "b - {doc} = {}") simp_all
  moreover have "\<forall>j. j \<notin> set (k # ks) \<longrightarrow> m' j = m j"
    using m'(2) by (simp add: m1_def)
  ultimately show ?case
    using m'(3) by auto
qed simp

lemma fts_index_postings:
  assumes "bitmap_codec L" and "fts_index L S a c doc f text s = (Inr u, s')"
  shows "postings L (content s') a' c' f' t =
    (if a' = a \<and> c' = c \<and> f' = f \<and> t \<in> set (fts_tokenize L text)
     then insert doc (postings L (content s) a c f t) else postings L (content s) a' c' f' t)"
proof -
  from assms(2) obtain ops where ops: "index_ops_loop L S s doc (term_keys L a c [(f, text)]) = Inr ops"
    and ap: "fts_apply S ops s = (Inr u, s')"
    by (auto simp: fts_index_def index_ops_def split: sum.splits)
  from index_ops_effect [OF assms(1) ops term_keys_props(2), of "content s"] fts_apply_effect [OF ap]
  have "(k \<notin> set (term_keys L a c [(f, text)]) \<longrightarrow> content s' k = content s k) \<and>
    (k \<in> set (term_keys L a c [(f, text)]) \<longrightarrow> bitmap_at L (content s') k = insert doc (bitmap_at L (content s) k))" for k
    by auto
  from this [of "term_key a' c' f' t"] show ?thesis
    by (auto simp: term_keys_props(1) postings_def bitmap_at_def)
qed

lemma fts_remove_postings:
  assumes "bitmap_codec L" and "fts_remove L S a c doc f text s = (Inr u, s')"
  shows "postings L (content s') a' c' f' t =
    (if a' = a \<and> c' = c \<and> f' = f \<and> t \<in> set (fts_tokenize L text)
     then postings L (content s) a c f t - {doc} else postings L (content s) a' c' f' t)"
proof -
  from assms(2) obtain ops where ops: "remove_ops_loop L S s doc (term_keys L a c [(f, text)]) = Inr ops"
    and ap: "fts_apply S ops s = (Inr u, s')"
    by (auto simp: fts_remove_def remove_ops_def split: sum.splits)
  from remove_ops_effect [OF assms(1) ops term_keys_props(2), of "content s"] fts_apply_effect [OF ap]
  have "(k \<notin> set (term_keys L a c [(f, text)]) \<longrightarrow> content s' k = content s k) \<and>
    (k \<in> set (term_keys L a c [(f, text)]) \<longrightarrow> bitmap_at L (content s') k = bitmap_at L (content s) k - {doc})" for k
    by auto
  from this [of "term_key a' c' f' t"] show ?thesis
    by (auto simp: term_keys_props(1) postings_def bitmap_at_def)
qed

end

section \<open>An instance of the library functions\<close>

text \<open>ASCII letters and digits, and posting lists as sorted sequences of big-endian words.\<close>

fun read_words :: "bytes \<Rightarrow> bytes + u32 list" where
  "read_words [] = Inr []"
| "read_words (a # b # c # d # v) =
    (case try_be32 [a, b, c, d] of
       None \<Rightarrow> Inl ''bad word''
     | Some w \<Rightarrow> and_then (read_words v) (\<lambda>ws. Inr (w # ws)))"
| "read_words v = Inl ''short word''"

definition ascii_lib :: fts_lib where
  "ascii_lib =
    \<lparr>uc_is_alphanumeric = (\<lambda>n. 48 \<le> n \<and> n \<le> 57 \<or> 65 \<le> n \<and> n \<le> 90 \<or> 97 \<le> n \<and> n \<le> 122),
     uc_to_lowercase = (\<lambda>n. [if 65 \<le> n \<and> n \<le> 90 then n + 32 else n]),
     bm_serialize = (\<lambda>b. concat (map be32 (sorted_list_of_set b))),
     bm_deserialize = (\<lambda>v. and_then (read_words v) (\<lambda>ws. Inr (set ws)))\<rparr>"

lemma read_words_be32: "read_words (be32 w @ v) = and_then (read_words v) (\<lambda>ws. Inr (w # ws))"
proof -
  obtain a b c d where w: "be32 w = [a, b, c, d]"
  proof -
    have "length (be32 w) = Suc (Suc (Suc (Suc 0)))"
      by simp
    then show ?thesis
      using that by (auto simp only: length_Suc_conv length_0_conv)
  qed
  have "try_be32 [a, b, c, d] = Some w"
    using w by (simp add: try_be32_Some)
  then show ?thesis
    unfolding w by simp
qed

lemma read_words_concat: "read_words (concat (map be32 ws)) = Inr ws"
  by (induction ws) (simp_all add: read_words_be32)

lemma ascii_codec: "bitmap_codec ascii_lib"
  by (simp add: bitmap_codec_def ascii_lib_def read_words_concat)

lemma ascii_tokens: "fts_tokenize ascii_lib ''Hi, you'' = [''hi'', ''you'']"
  by (simp add: fts_tokenize_def ascii_lib_def str_chars_ascii is_ascii_def str_of_def utf8_encode_def push_term_def
      MAX_TERM_LENGTH_def insort_insert_key_def char_of_eq_iff take_bit_eq_mod byte_less_iff)

lemma ascii_token: "fts_tokenize ascii_lib ''Hi'' = [''hi'']"
  by (simp add: fts_tokenize_def ascii_lib_def str_chars_ascii is_ascii_def str_of_def utf8_encode_def push_term_def
      MAX_TERM_LENGTH_def insort_insert_key_def char_of_eq_iff take_bit_eq_mod)

lemma subspace_of_term [simp]: "subspace_of (term_key a c f t) = Inr Index"
  by (simp add: term_key_def)

definition fts_db :: mem_db where
  "fts_db = [((Index, term_key 1 Email Combined ''hi''), be32 7)]"

lemma fts_db_read: "read_bitmap ascii_lib mem_store fts_db (term_key 1 Email Combined ''hi'') = Inr {7}"
  using read_words_concat [of "[7]"]
  by (simp add: read_bitmap_def mem_store_reads fts_db_def deserialize_bitmap_def ascii_lib_def)

section \<open>Guarantees\<close>

text \<open>
  C9. A search is exact: when it succeeds it returns, in increasing order and without repetition,
  those of the candidates that satisfy the query in the boolean reading of the posting lists, also
  where the evaluation of a conjunction stops early.
\<close>

theorem fts_search_exact:
  assumes "rocksdb_laws R data"
    and "fts_search L (rocksdb_store R elapsed) d a c q candidates = Inr found"
  shows "sorted_wrt (<) found \<and>
    set found = {doc \<in> set candidates. satisfies (fts_tokenize L) (postings L (content_map (data d)) a c) doc q}"
proof -
  note kv = rocksdb_laws.store_contract [OF assms(1)]
  from assms(2) obtain b where b: "evaluate L (rocksdb_store R elapsed) d a c (set candidates) q = Inr b"
    and found: "found = sorted_list_of_set (b \<inter> set candidates)"
    by (auto simp: fts_search_def Let_def and_then_eq_Inr)
  show ?thesis
    using kv_store.evaluate_ok [OF kv b] unfolding found by auto
qed

theorem fts_search_exact_witness:
  "\<exists>found. fts_search ascii_lib mem_store fts_db 1 Email (query_not (query_term ''Hi'')) [9, 7, 8] = Inr found \<and>
    set found = {doc \<in> {9, 7, 8}. satisfies (fts_tokenize ascii_lib)
      (postings ascii_lib (content_map (mem_data fts_db)) 1 Email) doc (query_not (query_term ''Hi''))}"
proof -
  obtain found where f: "fts_search ascii_lib mem_store fts_db 1 Email (query_not (query_term ''Hi'')) [9, 7, 8] = Inr found"
    by (simp add: fts_search_def query_not_def query_term_def ascii_token posting_list_def fts_db_read)
  show ?thesis
    using fts_search_exact [OF mem_laws f [unfolded mem_store_def]] f by (auto simp: mem_store_def)
qed

text \<open>
  C24. Updates change the posting lists of their terms only: a successful \<open>index\<close> adds the document
  to the list of every term of the text in the field, a successful \<open>remove\<close> takes it out of the
  same lists, and every other list, of other terms, fields, collections and accounts, is as before.
\<close>

theorem fts_updates_refine:
  assumes "rocksdb_laws R data" and "bitmap_codec L"
    and "fts_index L (rocksdb_store R elapsed) a c doc f text d = (Inr u, d1)"
    and "fts_remove L (rocksdb_store R elapsed) a c doc f text d = (Inr w, d2)"
  shows "postings L (content_map (data d1)) a' c' f' t =
      (if a' = a \<and> c' = c \<and> f' = f \<and> t \<in> set (fts_tokenize L text)
       then insert doc (postings L (content_map (data d)) a c f t)
       else postings L (content_map (data d)) a' c' f' t) \<and>
    postings L (content_map (data d2)) a' c' f' t =
      (if a' = a \<and> c' = c \<and> f' = f \<and> t \<in> set (fts_tokenize L text)
       then postings L (content_map (data d)) a c f t - {doc}
       else postings L (content_map (data d)) a' c' f' t)"
proof -
  note kv = rocksdb_laws.store_contract [OF assms(1)]
  show ?thesis
    using kv_store.fts_index_postings [OF kv assms(2,3)] kv_store.fts_remove_postings [OF kv assms(2,4)] by blast
qed

theorem fts_updates_refine_witness:
  "\<exists>d1 d2. fts_index ascii_lib mem_store 1 Email 9 Combined ''Hi'' fts_db = (Inr (), d1) \<and>
    fts_remove ascii_lib mem_store 1 Email 9 Combined ''Hi'' fts_db = (Inr (), d2) \<and>
    postings ascii_lib (content_map (mem_data d1)) 1 Email Combined ''hi'' =
      insert 9 (postings ascii_lib (content_map (mem_data fts_db)) 1 Email Combined ''hi'')"
proof -
  have k: "term_keys ascii_lib 1 Email [(Combined, ''Hi'')] = [term_key 1 Email Combined ''hi'']"
    by (simp add: term_keys_def ascii_token insort_insert_key_def)
  obtain d1 where d1: "fts_index ascii_lib mem_store 1 Email 9 Combined ''Hi'' fts_db = (Inr (), d1)"
    by (simp add: fts_index_def index_ops_def k fts_db_read mem_store_writes)
  obtain d2 where d2: "fts_remove ascii_lib mem_store 1 Email 9 Combined ''Hi'' fts_db = (Inr (), d2)"
    by (simp add: fts_remove_def remove_ops_def k fts_db_read mem_store_writes)
  show ?thesis
    using fts_updates_refine [OF mem_laws ascii_codec d1 [unfolded mem_store_def] d2 [unfolded mem_store_def],
        of 1 Email Combined "''hi''"] d1 d2
    by (simp add: ascii_token)
qed

end
