(* ===== verification/Ids.thy ===== *)
theory Ids
  imports Prelude
begin

text \<open>
  Identifiers (\<open>crates/core/src/id.rs\<close>): the generator of 64-bit identifiers, which packs a
  millisecond clock, the node number and a sequence number, and the allocator of 32-bit document
  identifiers.  Both are loops around a compare-and-exchange on one atomic cell.  An execution of
  the loop is given by the values the failing exchanges observe; the exchange that succeeds is
  the step the whole process sees, and the lemmas follow the cell through a sequence of such
  steps by any threads.
\<close>

unbundle bit_operations_syntax

section \<open>The generator\<close>

definition SEQUENCE_BITS :: nat where
  "SEQUENCE_BITS = 12"

definition NODE_BITS :: nat where
  "NODE_BITS = 10"

definition SEQUENCE_MASK :: u64 where
  "SEQUENCE_MASK = push_bit SEQUENCE_BITS 1 - 1"

definition NODE_MASK :: u64 where
  "NODE_MASK = push_bit NODE_BITS 1 - 1"

definition TIMESTAMP_SHIFT :: nat where
  "TIMESTAMP_SHIFT = SEQUENCE_BITS + NODE_BITS"

definition EPOCH_SECONDS :: u64 where
  "EPOCH_SECONDS = 1704067200"

record id_generator =
  ig_node :: u64
  ig_last :: u64

definition id_generator_new :: "u64 \<Rightarrow> id_generator" where
  "id_generator_new node = \<lparr>ig_node = node AND NODE_MASK, ig_last = 0\<rparr>"

text \<open>\<open>(next_ms, next_seq)\<close> from the clock and the value read from the cell.\<close>

definition next_stamp :: "u64 \<Rightarrow> u64 \<Rightarrow> u64 \<times> u64" where
  "next_stamp now_ms previous =
    (let previous_ms = drop_bit SEQUENCE_BITS previous;
         previous_seq = previous AND SEQUENCE_MASK
     in if previous_ms < now_ms then (now_ms, 0)
        else if previous_seq < SEQUENCE_MASK then (previous_ms, previous_seq + 1)
        else (previous_ms + 1, 0))"

text \<open>One exchange that succeeds on \<open>previous\<close>: the identifier and the new value of the cell.\<close>

definition issue :: "u64 \<Rightarrow> u64 \<Rightarrow> u64 \<Rightarrow> u64 \<times> u64" where
  "issue node now_ms previous =
    (let (next_ms, next_seq) = next_stamp now_ms previous;
         candidate = push_bit SEQUENCE_BITS next_ms OR next_seq
     in (push_bit TIMESTAMP_SHIFT next_ms OR push_bit SEQUENCE_BITS node OR next_seq, candidate))"

fun generate_loop :: "u64 \<Rightarrow> u64 \<Rightarrow> u64 \<Rightarrow> u64 list \<Rightarrow> u64 \<times> u64" where
  "generate_loop node now_ms previous [] = issue node now_ms previous"
| "generate_loop node now_ms previous (observed # rest) = generate_loop node now_ms observed rest"

definition generate :: "id_generator \<Rightarrow> u64 \<Rightarrow> u64 list \<Rightarrow> u64 \<times> id_generator" where
  "generate g now_ms observed =
    (let (i, cell) = generate_loop (ig_node g) now_ms (ig_last g) observed
     in (i, g\<lparr>ig_last := cell\<rparr>))"

definition timestamp_of :: "u64 \<Rightarrow> u64" where
  "timestamp_of i = (drop_bit TIMESTAMP_SHIFT i div 1000) + EPOCH_SECONDS"

section \<open>The document allocator\<close>

record document_id_allocator =
  da_next :: u32

definition allocator_new :: document_id_allocator where
  "allocator_new = \<lparr>da_next = 0\<rparr>"

definition from_highest :: "u32 option \<Rightarrow> document_id_allocator" where
  "from_highest highest =
    \<lparr>da_next = (case highest of Some i \<Rightarrow> saturating_add i 1 | None \<Rightarrow> 0)\<rparr>"

text \<open>The cell holds the value the last failing exchange observed, or the one first read.\<close>

fun allocate_loop :: "u32 \<Rightarrow> u32 list \<Rightarrow> u32 option \<times> u32" where
  "allocate_loop current [] =
    (if current = - 1 then (None, current) else (Some current, current + 1))"
| "allocate_loop current (observed # rest) =
    (if current = - 1 then (None, current) else allocate_loop observed rest)"

definition allocator_next :: "document_id_allocator \<Rightarrow> u32 list \<Rightarrow> u32 option \<times> document_id_allocator" where
  "allocator_next a observed =
    (let (r, cell) = allocate_loop (da_next a) observed in (r, a\<lparr>da_next := cell\<rparr>))"

definition allocator_peek :: "document_id_allocator \<Rightarrow> u32" where
  "allocator_peek a = da_next a"

section \<open>Arithmetic of the packing\<close>

lemma sequence_mask: "SEQUENCE_MASK = mask 12"
  by (simp add: SEQUENCE_MASK_def SEQUENCE_BITS_def mask_eq_exp_minus_1 push_bit_eq_mult)

lemma or_plus:
  fixes a b :: "'a::len word"
  assumes "unat b < 2 ^ n"
  shows "push_bit n a OR b = push_bit n a + b"
proof (rule disjunctive_add [symmetric])
  fix i
  have "b = take_bit n b"
    using assms by (simp add: word_unat_eq_iff unsigned_take_bit_eq take_bit_nat_eq_self)
  then show "\<not> bit (push_bit n a) i \<or> \<not> bit b i"
    by (metis bit_push_bit_iff bit_take_bit_iff not_le)
qed

lemma unat_shift:
  "unat (w :: u64) * 2 ^ n < 2 ^ 64 \<Longrightarrow> unat (push_bit n w) = unat w * 2 ^ n"
  by (subst unsigned_push_bit_eq) (simp add: push_bit_eq_mult take_bit_eq_mod)

lemma unat_pack:
  "unat b < 2 ^ n \<Longrightarrow> unat (w :: u64) * 2 ^ n + unat b < 2 ^ 64 \<Longrightarrow>
    unat (push_bit n w OR b) = unat w * 2 ^ n + unat b"
  by (simp add: or_plus unat_word_ariths unat_shift)

lemma unat_seq: "unat (w AND SEQUENCE_MASK) = unat w mod 2 ^ 12"
  by (simp add: sequence_mask take_bit_eq_mask [symmetric] take_bit_eq_mod unat_mod_distrib)

lemma unat_ms: "unat (drop_bit SEQUENCE_BITS w) = unat (w :: u64) div 2 ^ 12"
  by (simp add: SEQUENCE_BITS_def drop_bit_eq_div unat_div_distrib)

lemma unat_sequence_mask: "unat SEQUENCE_MASK = 2 ^ 12 - 1"
  by (simp add: SEQUENCE_MASK_def SEQUENCE_BITS_def push_bit_eq_mult)

section \<open>Steps of the generator\<close>

text \<open>The stamp in a cell, a number of milliseconds and a sequence number.\<close>

lemma next_stamp_nat:
  assumes "unat previous div 2 ^ 12 + 1 < 2 ^ 42" and "unat now_ms < 2 ^ 42"
  shows "unat (fst (next_stamp now_ms previous)) * 2 ^ 12 + unat (snd (next_stamp now_ms previous)) =
      (if unat previous div 2 ^ 12 < unat now_ms then unat now_ms * 2 ^ 12 else unat previous + 1)"
    and "unat (snd (next_stamp now_ms previous)) < 2 ^ 12"
    and "unat (fst (next_stamp now_ms previous)) \<le> max (unat now_ms) (unat previous div 2 ^ 12 + 1)"
proof -
  define m where "m = unat previous div 2 ^ 12"
  define q where "q = unat previous mod 2 ^ 12"
  have p: "unat previous = m * 2 ^ 12 + q" and q: "q < 2 ^ 12"
    by (simp_all add: m_def q_def)
  have m1: "unat (drop_bit SEQUENCE_BITS previous + 1) = m + 1" "unat (drop_bit SEQUENCE_BITS previous) = m"
    using assms(1) by (simp_all add: unat_word_ariths unat_ms m_def)
  have s1: "unat ((previous AND SEQUENCE_MASK) + 1) = q + 1" "unat (previous AND SEQUENCE_MASK) = q"
    by (simp_all add: unat_word_ariths unat_seq q_def)
  consider (later) "m < unat now_ms" "next_stamp now_ms previous = (now_ms, 0)"
    | (same) "\<not> m < unat now_ms" "q < 2 ^ 12 - 1"
      "next_stamp now_ms previous = (drop_bit SEQUENCE_BITS previous, (previous AND SEQUENCE_MASK) + 1)"
    | (full) "\<not> m < unat now_ms" "q = 2 ^ 12 - 1"
      "next_stamp now_ms previous = (drop_bit SEQUENCE_BITS previous + 1, 0)"
    using q by (cases "m < unat now_ms"; cases "q < 2 ^ 12 - 1")
      (auto simp: next_stamp_def Let_def word_less_nat_alt m1 s1 unat_sequence_mask)
  then show "unat (fst (next_stamp now_ms previous)) * 2 ^ 12 + unat (snd (next_stamp now_ms previous)) =
      (if unat previous div 2 ^ 12 < unat now_ms then unat now_ms * 2 ^ 12 else unat previous + 1)"
    and "unat (snd (next_stamp now_ms previous)) < 2 ^ 12"
    and "unat (fst (next_stamp now_ms previous)) \<le> max (unat now_ms) (unat previous div 2 ^ 12 + 1)"
    unfolding m_def [symmetric] by (cases; simp add: p m1 s1)+
qed

lemma generate_loop_issue:
  "generate_loop node now previous observed = issue node now (List.last (previous # observed))"
  by (induction observed arbitrary: previous) auto

lemma issue_nat:
  assumes "unat previous div 2 ^ 12 + 1 < 2 ^ 42" and "unat now_ms < 2 ^ 42" and "unat node < 2 ^ 10"
  shows "unat (snd (issue node now_ms previous)) =
      (if unat previous div 2 ^ 12 < unat now_ms then unat now_ms * 2 ^ 12 else unat previous + 1)"
    and "unat (fst (issue node now_ms previous)) =
      (unat (snd (issue node now_ms previous)) div 2 ^ 12) * 2 ^ 22 + unat node * 2 ^ 12
        + unat (snd (issue node now_ms previous)) mod 2 ^ 12"
proof -
  obtain ms q where st: "next_stamp now_ms previous = (ms, q)"
    by (cases "next_stamp now_ms previous")
  note n = next_stamp_nat [OF assms(1,2), unfolded st fst_conv snd_conv]
  have ms: "unat ms < 2 ^ 42"
    using n(3) assms(1,2) by linarith
  have low: "unat (push_bit SEQUENCE_BITS ms OR q) = unat ms * 2 ^ 12 + unat q"
    unfolding SEQUENCE_BITS_def using n(2) ms by (intro unat_pack) simp_all
  have mid: "unat (push_bit SEQUENCE_BITS node OR q) = unat node * 2 ^ 12 + unat q"
    unfolding SEQUENCE_BITS_def using n(2) assms(3) by (intro unat_pack) simp_all
  have high: "unat (push_bit TIMESTAMP_SHIFT ms OR (push_bit SEQUENCE_BITS node OR q)) =
      unat ms * 2 ^ 22 + (unat node * 2 ^ 12 + unat q)"
    using n(2) ms assms(3) mid unat_pack [of "push_bit SEQUENCE_BITS node OR q" 22 ms]
    by (simp add: TIMESTAMP_SHIFT_def SEQUENCE_BITS_def NODE_BITS_def)
  have i: "fst (issue node now_ms previous) = push_bit TIMESTAMP_SHIFT ms OR (push_bit SEQUENCE_BITS node OR q)"
    "snd (issue node now_ms previous) = push_bit SEQUENCE_BITS ms OR q"
    by (simp_all add: issue_def st ac_simps)
  show "unat (snd (issue node now_ms previous)) =
      (if unat previous div 2 ^ 12 < unat now_ms then unat now_ms * 2 ^ 12 else unat previous + 1)"
    using n(1) low i(2) by simp
  show "unat (fst (issue node now_ms previous)) =
      (unat (snd (issue node now_ms previous)) div 2 ^ 12) * 2 ^ 22 + unat node * 2 ^ 12
        + unat (snd (issue node now_ms previous)) mod 2 ^ 12"
    using high low i n(2) by simp
qed

text \<open>The identifiers of a sequence of successful exchanges, each with the clock its thread read.\<close>

fun issued :: "u64 \<Rightarrow> u64 \<Rightarrow> u64 list \<Rightarrow> u64 list" where
  "issued node cell [] = []"
| "issued node cell (now # nows) =
    fst (issue node now cell) # issued node (snd (issue node now cell)) nows"

text \<open>The identifier that belongs to a value of the cell, as a number.\<close>

definition id_of_cell :: "nat \<Rightarrow> nat \<Rightarrow> nat" where
  "id_of_cell node cell = (cell div 2 ^ 12) * 2 ^ 22 + node * 2 ^ 12 + cell mod 2 ^ 12"

lemma id_of_cell_mono:
  assumes "c < c'" and "node < 2 ^ 10"
  shows "id_of_cell node c < id_of_cell node c'"
proof (cases "c div 2 ^ 12 = c' div 2 ^ 12")
  case True
  then have "c mod 2 ^ 12 < c' mod 2 ^ 12"
    using assms(1) by (metis div_mult_mod_eq nat_add_left_cancel_less)
  then show ?thesis
    using True by (simp add: id_of_cell_def)
next
  case False
  then have "c div 2 ^ 12 + 1 \<le> c' div 2 ^ 12"
    using assms(1) div_le_mono [of c c' "2 ^ 12"] by linarith
  then have "(c div 2 ^ 12 + 1) * 2 ^ 22 \<le> (c' div 2 ^ 12) * 2 ^ 22"
    by (rule mult_le_mono1)
  moreover have "node * 2 ^ 12 + c mod 2 ^ 12 < 2 ^ 22"
  proof -
    have "node * 2 ^ 12 \<le> (2 ^ 10 - 1) * 2 ^ 12" "c mod 2 ^ 12 < 2 ^ 12"
      using assms(2) by simp_all
    then show ?thesis
      by simp
  qed
  ultimately show ?thesis
    by (simp add: id_of_cell_def algebra_simps)
qed

lemma issue_step:
  assumes "unat node < 2 ^ 10" and "unat cell div 2 ^ 12 + 1 < 2 ^ 42" and "unat now < 2 ^ 42"
  shows "unat cell < unat (snd (issue node now cell))"
    and "unat (snd (issue node now cell)) div 2 ^ 12 \<le> max (unat now) (unat cell div 2 ^ 12 + 1)"
    and "unat (fst (issue node now cell)) = id_of_cell (unat node) (unat (snd (issue node now cell)))"
proof -
  have d: "unat cell < (unat cell div 2 ^ 12 + 1) * 2 ^ 12"
    using div_mult_mod_eq [of "unat cell" "2 ^ 12"] mod_less_divisor [of "2 ^ 12" "unat cell"] by simp
  have "(unat cell div 2 ^ 12 + 1) * 2 ^ 12 \<le> unat now * 2 ^ 12" if "unat cell div 2 ^ 12 < unat now"
    using that by (intro mult_le_mono1) simp
  then show "unat cell < unat (snd (issue node now cell))"
    using d issue_nat(1) [OF assms(2,3,1)] by (auto split: if_splits)
  have "(unat cell + 1) div 2 ^ 12 \<le> unat cell div 2 ^ 12 + 1"
    using div_le_mono [of "unat cell + 1" "unat cell + 2 ^ 12" "2 ^ 12"] by simp
  then show "unat (snd (issue node now cell)) div 2 ^ 12 \<le> max (unat now) (unat cell div 2 ^ 12 + 1)"
    using issue_nat(1) [OF assms(2,3,1)] by auto
  show "unat (fst (issue node now cell)) = id_of_cell (unat node) (unat (snd (issue node now cell)))"
    using issue_nat(2) [OF assms(2,3,1)] by (simp add: id_of_cell_def)
qed

lemma issued_above:
  assumes "unat node < 2 ^ 10" and "unat cell div 2 ^ 12 + length nows < 2 ^ 42"
    and "\<forall>now\<in>set nows. unat now + length nows < 2 ^ 42"
  shows "(\<forall>i\<in>set (issued node cell nows). id_of_cell (unat node) (unat cell) < unat i) \<and>
    sorted_wrt (<) (issued node cell nows)"
  using assms(2,3)
proof (induction nows arbitrary: cell)
  case (Cons now nows)
  let ?c = "snd (issue node now cell)"
  have b: "unat cell div 2 ^ 12 + 1 < 2 ^ 42" "unat now < 2 ^ 42"
    using Cons.prems by simp_all
  note step = issue_step [OF assms(1) b]
  have "unat ?c div 2 ^ 12 + length nows < 2 ^ 42" "\<forall>now\<in>set nows. unat now + length nows < 2 ^ 42"
    using step(2) Cons.prems by auto
  from Cons.IH [OF this] have rest: "\<forall>i\<in>set (issued node ?c nows). id_of_cell (unat node) (unat ?c) < unat i"
    "sorted_wrt (<) (issued node ?c nows)"
    by simp_all
  have "id_of_cell (unat node) (unat cell) < id_of_cell (unat node) (unat ?c)"
    using step(1) assms(1) by (rule id_of_cell_mono)
  moreover have "\<forall>i\<in>set (issued node ?c nows). fst (issue node now cell) < i"
    using rest(1) step(3) by (simp add: word_less_nat_alt)
  ultimately show ?case
    using rest step(3) by auto
qed simp

text \<open>
  C37. Identifiers are unique and increasing: whatever the threads read from the clock, including a
  clock that stands still or goes back and a sequence number that runs out, the identifiers of
  successive successful exchanges are strictly increasing, as long as the milliseconds fit the 42
  bits that the layout has for them.
\<close>

theorem identifiers_increase:
  assumes "unat node < 2 ^ 10" and "unat cell div 2 ^ 12 + length nows < 2 ^ 42"
    and "\<forall>now\<in>set nows. unat now + length nows < 2 ^ 42"
  shows "sorted_wrt (<) (issued node cell nows)"
  using issued_above [OF assms] by blast

theorem identifiers_increase_witness:
  "unat (1 :: u64) < 2 ^ 10 \<and> sorted_wrt (<) (issued 1 4095 [0, 7, 7, 5])"
  using identifiers_increase [of 1 4095 "[0, 7, 7, 5]"] by simp

text \<open>The mail store keys an account by \<open>account.id as u32\<close>.\<close>

definition mail_account_id :: "u64 \<Rightarrow> u32" where
  "mail_account_id i = ucast i"

text \<open>
  C40. Two accounts can share one mail store: identifiers that a generator issues 1024 milliseconds
  apart are different, but the 32 bits that the mail store keeps of them are the same, so that
  both accounts read and write the same records.
\<close>

theorem mail_account_ids_collide:
  assumes "unat node < 2 ^ 10" and "unat now + 1024 < 2 ^ 42"
    and "unat c1 div 2 ^ 12 < unat now" and "unat c2 div 2 ^ 12 < unat now + 1024"
  shows "fst (issue node now c1) \<noteq> fst (issue node (now + 1024) c2) \<and>
    mail_account_id (fst (issue node now c1)) = mail_account_id (fst (issue node (now + 1024) c2))"
proof -
  have u: "unat (now + 1024) = unat now + 1024"
    using assms(2) by (simp add: unat_word_ariths)
  have "unat (snd (issue node now c1)) = unat now * 2 ^ 12"
    "unat (snd (issue node (now + 1024) c2)) = (unat now + 1024) * 2 ^ 12"
    using issue_nat(1) [of c1 now node] issue_nat(1) [of c2 "now + 1024" node] assms u by auto
  then have i: "unat (fst (issue node now c1)) = unat now * 2 ^ 22 + unat node * 2 ^ 12"
    "unat (fst (issue node (now + 1024) c2)) = unat now * 2 ^ 22 + unat node * 2 ^ 12 + 2 ^ 32"
    using issue_step(3) [of node c1 now] issue_step(3) [of node c2 "now + 1024"] assms u
    by (auto simp: id_of_cell_def)
  have "unat (mail_account_id w) = unat w mod 2 ^ 32" for w
    by (simp add: mail_account_id_def unsigned_ucast_eq take_bit_eq_mod)
  then have "unat (mail_account_id (fst (issue node now c1))) =
      unat (mail_account_id (fst (issue node (now + 1024) c2)))"
    using i by simp
  moreover have "unat (fst (issue node now c1)) \<noteq> unat (fst (issue node (now + 1024) c2))"
    using i by simp
  ultimately show ?thesis
    by (metis word_unat_eq_iff)
qed

theorem mail_account_ids_collide_witness:
  "fst (issue 0 5000 0) \<noteq> fst (issue 0 6024 4) \<and>
    mail_account_id (fst (issue 0 5000 0)) = mail_account_id (fst (issue 0 6024 4))"
  using mail_account_ids_collide [of 0 5000 0 4] by simp

section \<open>Steps of the allocator\<close>

lemma unat_succ:
  assumes "w \<noteq> (- 1 :: u32)"
  shows "unat (w + 1) = unat w + 1"
proof -
  have "unat w < 2 ^ 32 - 1"
    using assms unat_lt2p_bound [of w] unat_max_word [where 'a = 32] by (simp add: word_unat_eq_iff)
  then show ?thesis
    by (simp add: unat_word_ariths)
qed

lemma allocate_loop_last:
  "allocate_loop current observed = (Some i, cell) \<Longrightarrow>
    i = List.last (current # observed) \<and> i \<noteq> - 1 \<and> cell = i + 1"
  by (induction current observed rule: allocate_loop.induct) (auto split: if_splits)

text \<open>Successive allocations without interference, each on the cell the one before left.\<close>

fun allocated :: "document_id_allocator \<Rightarrow> nat \<Rightarrow> u32 list" where
  "allocated a 0 = []"
| "allocated a (Suc n) =
    (case allocator_next a [] of (None, a') \<Rightarrow> [] | (Some i, a') \<Rightarrow> i # allocated a' n)"

lemma allocated_above:
  "(\<forall>i\<in>set (allocated a n). da_next a \<le> i \<and> i \<noteq> - 1) \<and> sorted_wrt (<) (allocated a n)"
proof (induction n arbitrary: a)
  case (Suc n)
  show ?case
  proof (cases "da_next a = - 1")
    case True
    then show ?thesis
      by (simp add: allocator_next_def)
  next
    case False
    let ?a = "a\<lparr>da_next := da_next a + 1\<rparr>"
    have lt: "da_next a < da_next a + 1"
      using False by (simp add: word_less_nat_alt unat_succ)
    have "allocated a (Suc n) = da_next a # allocated ?a n"
      using False by (simp add: allocator_next_def)
    then show ?thesis
      using Suc.IH [of ?a] lt False by (auto intro: less_le_trans less_imp_le)
  qed
qed simp

lemma from_highest_fresh:
  "i \<in> set (allocated (from_highest (Some h)) n) \<Longrightarrow> h < i"
proof -
  assume i: "i \<in> set (allocated (from_highest (Some h)) n)"
  then have "saturating_add h 1 \<le> i" "i \<noteq> - 1"
    using allocated_above [of "from_highest (Some h)" n] by (auto simp: from_highest_def)
  then show ?thesis
  proof (cases "h = - 1")
    case False
    then have "unat h + 1 < 2 ^ 32"
      using unat_succ [OF False] unat_lt2p_bound [of "h + 1"] by simp
    then have "h + 1 \<le> i"
      using \<open>saturating_add h 1 \<le> i\<close> by (simp add: saturating_add_def)
    then show ?thesis
      using unat_succ [OF False] by (simp add: word_less_nat_alt word_le_nat_alt)
  qed (simp add: saturating_add_def unat_max_word word_order.extremum_unique)
qed

end
