(* ===== verification/Directory_Records.thy ===== *)
theory Directory_Records
  imports Store_Tags Store_Memory Utf8 Ids
begin

text \<open>
  The records of the directory (\<open>crates/directory/src\<close>: \<open>account.rs\<close>, \<open>domain.rs\<close>, \<open>address.rs\<close>,
  \<open>credential.rs\<close>) and the address index (\<open>address_index.rs\<close>).  Every record is stored as JSON;
  the encoder and decoder are library code and come as the parameter record \<open>json\<close> of one type
  of values.
\<close>

section \<open>Accounts\<close>

datatype role = Admin_Role | User_Role

record forwarding =
  fw_destinations :: "bytes list"
  fw_keep_local_copy :: bool

definition forwarding_default :: forwarding where
  "forwarding_default = \<lparr>fw_destinations = [], fw_keep_local_copy = False\<rparr>"

definition forwarding_is_active :: "forwarding \<Rightarrow> bool" where
  "forwarding_is_active f \<longleftrightarrow> fw_destinations f \<noteq> []"

record vacation_responder =
  vr_enabled :: bool
  vr_subject :: bytes
  vr_body :: bytes
  vr_active_from :: "u64 option"
  vr_active_to :: "u64 option"

definition vacation_default :: vacation_responder where
  "vacation_default =
    \<lparr>vr_enabled = False, vr_subject = [], vr_body = [], vr_active_from = None, vr_active_to = None\<rparr>"

definition vacation_is_active_at :: "vacation_responder \<Rightarrow> u64 \<Rightarrow> bool" where
  "vacation_is_active_at v now =
    (if \<not> vr_enabled v then False
     else if (case vr_active_from v of Some from \<Rightarrow> now < from | None \<Rightarrow> False) then False
     else if (case vr_active_to v of Some until \<Rightarrow> until < now | None \<Rightarrow> False) then False
     else True)"

record account =
  ac_id :: u64
  ac_local_part :: bytes
  ac_domain_id :: u64
  ac_display_name :: bytes
  ac_enabled :: bool
  ac_role :: role
  ac_aliases :: "bytes list"
  ac_forwarding :: forwarding
  ac_quota_bytes :: u64
  ac_quota_messages :: u64
  ac_locale :: bytes
  ac_timezone :: bytes
  ac_signature :: bytes
  ac_vacation :: vacation_responder
  ac_created_at :: u64

definition account_is_active :: "account \<Rightarrow> bool" where
  "account_is_active a = ac_enabled a"

definition account_is_admin :: "account \<Rightarrow> bool" where
  "account_is_admin a \<longleftrightarrow> ac_role a = Admin_Role"

definition byte_quota :: "account \<Rightarrow> u64 option" where
  "byte_quota a = (if ac_quota_bytes a \<noteq> 0 then Some (ac_quota_bytes a) else None)"

definition message_quota :: "account \<Rightarrow> u64 option" where
  "message_quota a = (if ac_quota_messages a \<noteq> 0 then Some (ac_quota_messages a) else None)"

section \<open>Domains\<close>

datatype dns_record_kind = Mx_Kind | A_Kind | Aaaa_Kind | Spf_Kind | Dkim_Kind | Dmarc_Kind | MtaSts_Kind | TlsRpt_Kind

datatype dns_status = Unverified | Verified u64 | Failing u64 "dns_record_kind list"

definition dns_is_verified :: "dns_status \<Rightarrow> bool" where
  "dns_is_verified s = (case s of Verified _ \<Rightarrow> True | _ \<Rightarrow> False)"

record domain =
  dm_id :: u64
  dm_name :: bytes
  dm_aliases :: "bytes list"
  dm_enabled :: bool
  dm_catch_all_account_id :: "u64 option"
  dm_dkim_key_ids :: "u64 list"
  dm_dns_status :: dns_status
  dm_created_at :: u64

definition matches_name :: "domain \<Rightarrow> bytes \<Rightarrow> bool" where
  "matches_name d name =
    (if eq_ignore_ascii_case (dm_name d) name then True
     else list_ex (\<lambda>alias. eq_ignore_ascii_case alias name) (dm_aliases d))"

definition accepts_mail :: "domain \<Rightarrow> bool" where
  "accepts_mail d = dm_enabled d"

section \<open>Credentials\<close>

record encrypted_secret =
  es_nonce :: bytes
  es_ciphertext :: bytes

record primary_password =
  pp_hash :: bytes
  pp_updated_at :: u64

record totp =
  tt_secret :: encrypted_secret
  tt_enabled :: bool
  tt_recovery_codes :: "bytes list"
  tt_enrolled_at :: u64

record app_password =
  ap_id :: u64
  ap_name :: bytes
  ap_hash :: bytes
  ap_created_at :: u64
  ap_last_used_at :: "u64 option"

record api_key =
  ak_id :: u64
  ak_name :: bytes
  ak_secret :: encrypted_secret
  ak_created_at :: u64
  ak_last_used_at :: "u64 option"

datatype credential =
    Primary_Credential primary_password | Totp_Credential totp
  | App_Credential app_password | Api_Credential api_key

datatype credential_kind = Primary_Kind | Totp_Kind | App_Kind | Api_Kind

fun cred_kind :: "credential \<Rightarrow> credential_kind" where
  "cred_kind (Primary_Credential p) = Primary_Kind"
| "cred_kind (Totp_Credential t) = Totp_Kind"
| "cred_kind (App_Credential p) = App_Kind"
| "cred_kind (Api_Credential k) = Api_Kind"

definition is_interactive_login :: "credential \<Rightarrow> bool" where
  "is_interactive_login c = (case c of Primary_Credential _ \<Rightarrow> True | _ \<Rightarrow> False)"

definition is_mail_login :: "credential \<Rightarrow> bool" where
  "is_mail_login c = (case c of Primary_Credential _ \<Rightarrow> True | App_Credential _ \<Rightarrow> True | _ \<Rightarrow> False)"

section \<open>JSON values\<close>

text \<open>\<open>serde_json::to_vec\<close> and \<open>serde_json::from_slice\<close> at one type; errors are their messages.\<close>

record 'a json =
  js_to_vec :: "'a \<Rightarrow> bytes + bytes"
  js_from_slice :: "bytes \<Rightarrow> bytes + 'a"

text \<open>The documented behaviour of the codec: what was written is read back.\<close>

definition json_law :: "'a json \<Rightarrow> bool" where
  "json_law J \<longleftrightarrow> (\<forall>x v. js_to_vec J x = Inr v \<longrightarrow> js_from_slice J v = Inr x)"

definition json_encode :: "'a json \<Rightarrow> bytes \<Rightarrow> 'a \<Rightarrow> error + bytes" where
  "json_encode J what x =
    (case js_to_vec J x of
       Inl err \<Rightarrow> Inl (Serialize_Error (''could not encode '' @ what @ '': '' @ err))
     | Inr v \<Rightarrow> Inr v)"

definition json_decode :: "'a json \<Rightarrow> bytes \<Rightarrow> bytes \<Rightarrow> error + 'a" where
  "json_decode J what v =
    (case js_from_slice J v of
       Inl err \<Rightarrow> Inl (Serialize_Error (''could not decode '' @ what @ '': '' @ err))
     | Inr x \<Rightarrow> Inr x)"

lemma json_decode_encode: "json_law J \<Longrightarrow> json_encode J what x = Inr v \<Longrightarrow> json_decode J what' v = Inr x"
  by (auto simp: json_law_def json_encode_def json_decode_def split: sum.splits)

end
