(* ===== verification/Directory_Address.thy ===== *)
theory Directory_Address
  imports Directory_Records
begin

text \<open>
  The address index (\<open>crates/directory/src/address.rs\<close> and \<open>address_index.rs\<close>): which mail
  address is delivered where.  Keys are normalised addresses below a tag of the registry.
\<close>

datatype addr_target = Target_Account u64 | Target_Forward bytes | Target_Reject

definition target_is_local :: "addr_target \<Rightarrow> bool" where
  "target_is_local t = (case t of Target_Account _ \<Rightarrow> True | _ \<Rightarrow> False)"

definition target_is_rejected :: "addr_target \<Rightarrow> bool" where
  "target_is_rejected t = (case t of Target_Reject \<Rightarrow> True | _ \<Rightarrow> False)"

record address_entry =
  ae_address :: bytes
  ae_target :: addr_target

definition entry_account :: "bytes \<Rightarrow> u64 \<Rightarrow> address_entry" where
  "entry_account address account_id =
    \<lparr>ae_address = to_ascii_lowercase address, ae_target = Target_Account account_id\<rparr>"

definition entry_forward :: "bytes \<Rightarrow> bytes \<Rightarrow> address_entry" where
  "entry_forward address destination =
    \<lparr>ae_address = to_ascii_lowercase address, ae_target = Target_Forward destination\<rparr>"

definition entry_reject :: "bytes \<Rightarrow> address_entry" where
  "entry_reject address = \<lparr>ae_address = to_ascii_lowercase address, ae_target = Target_Reject\<rparr>"

definition entry_account_id :: "address_entry \<Rightarrow> u64 option" where
  "entry_account_id e = (case ae_target e of Target_Account i \<Rightarrow> Some i | _ \<Rightarrow> None)"

definition TAG_ADDRESS_ENTRY :: byte where
  "TAG_ADDRESS_ENTRY = CHR 0x30"

definition CATCH_ALL_PREFIX :: byte where
  "CATCH_ALL_PREFIX = CHR ''@''"

definition addr_entry_key :: "bytes \<Rightarrow> bytes" where
  "addr_entry_key address = [subspace_byte Registry, TAG_ADDRESS_ENTRY] @ address"

definition is_entry_key :: "bytes \<Rightarrow> bool" where
  "is_entry_key k \<longleftrightarrow> 2 < length k \<and> k ! 0 = subspace_byte Registry \<and> k ! 1 = TAG_ADDRESS_ENTRY"

definition catch_all_address :: "bytes \<Rightarrow> bytes" where
  "catch_all_address dm = CATCH_ALL_PREFIX # dm"

definition normalize_address :: "bytes \<Rightarrow> bytes" where
  "normalize_address address = to_ascii_lowercase (trim address)"

definition entry_encode :: "address_entry json \<Rightarrow> address_entry \<Rightarrow> error + bytes" where
  "entry_encode J e = json_encode J ''address entry'' e"

definition entry_decode :: "address_entry json \<Rightarrow> bytes \<Rightarrow> error + address_entry" where
  "entry_decode J v = json_decode J ''address entry'' v"

definition addr_set :: "address_entry json \<Rightarrow> 's store \<Rightarrow> address_entry \<Rightarrow> 's \<Rightarrow> (error + unit) \<times> 's" where
  "addr_set J S e s =
    (if trim (ae_address e) = [] then (Inl (InvalidInput_Error ''an address-index entry must name an address''), s)
     else case entry_encode J e of
       Inl err \<Rightarrow> (Inl err, s)
     | Inr v \<Rightarrow> st_put S s (addr_entry_key (ae_address e)) v)"

definition addr_resolve :: "address_entry json \<Rightarrow> 's store \<Rightarrow> 's \<Rightarrow> bytes \<Rightarrow> error + address_entry option" where
  "addr_resolve J S s address =
    and_then (st_get S s (addr_entry_key (normalize_address address)))
      (\<lambda>v. case v of Some b \<Rightarrow> and_then (entry_decode J b) (\<lambda>e. Inr (Some e)) | None \<Rightarrow> Inr None)"

definition addr_remove :: "'s store \<Rightarrow> bytes \<Rightarrow> 's \<Rightarrow> (error + unit) \<times> 's" where
  "addr_remove S address s = st_delete S s (addr_entry_key (normalize_address address))"

text \<open>The check of \<open>account_address_ops\<close> that no new address belongs to another account.\<close>

fun addr_check ::
  "address_entry json \<Rightarrow> 's store \<Rightarrow> 's \<Rightarrow> u64 \<Rightarrow> bytes list \<Rightarrow> bytes list \<Rightarrow> error + unit" where
  "addr_check J S s account_id previous [] = Inr ()"
| "addr_check J S s account_id previous (address # rest) =
    (if address \<in> set previous then addr_check J S s account_id previous rest
     else and_then (addr_resolve J S s address) (\<lambda>found.
       case found of
         Some e \<Rightarrow>
           if entry_account_id e \<noteq> Some account_id
           then Inl (InvalidInput_Error (''the address '' @ address @ '' is already in use''))
           else addr_check J S s account_id previous rest
       | None \<Rightarrow> addr_check J S s account_id previous rest))"

fun addr_set_ops :: "address_entry json \<Rightarrow> u64 \<Rightarrow> bytes list \<Rightarrow> error + write_op list" where
  "addr_set_ops J account_id [] = Inr []"
| "addr_set_ops J account_id (address # rest) =
    and_then (entry_encode J \<lparr>ae_address = address, ae_target = Target_Account account_id\<rparr>) (\<lambda>v.
    and_then (addr_set_ops J account_id rest) (\<lambda>ops.
      Inr (Set_Op (addr_entry_key address) v # ops)))"

definition account_address_ops ::
  "address_entry json \<Rightarrow> 's store \<Rightarrow> 's \<Rightarrow> u64 \<Rightarrow> bytes list \<Rightarrow> bytes list \<Rightarrow> error + write_op list" where
  "account_address_ops J S s account_id previous0 current0 =
    (let current = map normalize_address current0;
         previous = map normalize_address previous0
     in if [] \<in> set current \<or> [] \<in> set previous
        then Inl (InvalidInput_Error ''an account address must not be blank'')
        else and_then (addr_check J S s account_id previous current) (\<lambda>_.
          and_then (addr_set_ops J account_id current) (\<lambda>sets.
            Inr (map (\<lambda>address. Delete_Op (addr_entry_key address))
                  (filter (\<lambda>address. address \<notin> set current) previous) @ sets))))"

definition set_account_addresses ::
  "address_entry json \<Rightarrow> 's store \<Rightarrow> u64 \<Rightarrow> bytes list \<Rightarrow> bytes list \<Rightarrow> 's \<Rightarrow> (error + unit) \<times> 's" where
  "set_account_addresses J S account_id previous current s =
    (case account_address_ops J S s account_id previous current of
       Inl e \<Rightarrow> (Inl e, s)
     | Inr ops \<Rightarrow> st_batch S s ops)"

definition account_entry_op :: "address_entry json \<Rightarrow> bytes \<Rightarrow> u64 \<Rightarrow> error + write_op" where
  "account_entry_op J address account_id =
    (let address = normalize_address address in
     and_then (entry_encode J \<lparr>ae_address = address, ae_target = Target_Account account_id\<rparr>) (\<lambda>v.
       Inr (Set_Op (addr_entry_key address) v)))"

definition remove_entry_op :: "bytes \<Rightarrow> write_op" where
  "remove_entry_op address = Delete_Op (addr_entry_key (normalize_address address))"

definition set_catch_all_op :: "address_entry json \<Rightarrow> bytes \<Rightarrow> u64 \<Rightarrow> error + write_op" where
  "set_catch_all_op J dm account_id =
    (let dm = normalize_address dm in
     if dm = [] then Inl (InvalidInput_Error ''a catch-all must name a domain'')
     else account_entry_op J (catch_all_address dm) account_id)"

definition clear_catch_all_op :: "bytes \<Rightarrow> write_op" where
  "clear_catch_all_op dm = remove_entry_op (catch_all_address (normalize_address dm))"

definition set_catch_all :: "address_entry json \<Rightarrow> 's store \<Rightarrow> bytes \<Rightarrow> u64 \<Rightarrow> 's \<Rightarrow> (error + unit) \<times> 's" where
  "set_catch_all J S dm account_id s =
    (case set_catch_all_op J dm account_id of Inl e \<Rightarrow> (Inl e, s) | Inr p \<Rightarrow> st_batch S s [p])"

definition catch_all :: "address_entry json \<Rightarrow> 's store \<Rightarrow> 's \<Rightarrow> bytes \<Rightarrow> error + address_entry option" where
  "catch_all J S s dm =
    (let wildcard = catch_all_address (normalize_address dm) in
     and_then (st_get S s (addr_entry_key wildcard))
       (\<lambda>v. case v of Some b \<Rightarrow> and_then (entry_decode J b) (\<lambda>e. Inr (Some e)) | None \<Rightarrow> Inr None))"

definition clear_catch_all :: "'s store \<Rightarrow> bytes \<Rightarrow> 's \<Rightarrow> (error + unit) \<times> 's" where
  "clear_catch_all S dm s = st_batch S s [clear_catch_all_op dm]"

text \<open>The captured variables of the scan: the entries and \<open>scan_error\<close>.\<close>

definition entries_visit :: "address_entry json \<Rightarrow> (address_entry list \<times> error option) visitor" where
  "entries_visit J k v = (\<lambda>(entries, err).
    if \<not> is_entry_key k then Inr (Continue, (entries, err))
    else case entry_decode J v of
      Inr e \<Rightarrow> Inr (Continue, (entries @ [e], err))
    | Inl e \<Rightarrow> Inr (Stop, (entries, Some e)))"

definition addr_list :: "address_entry json \<Rightarrow> 's store \<Rightarrow> 's \<Rightarrow> error + address_entry list" where
  "addr_list J S s =
    and_then (visit_rows (entries_visit J) (st_iterate S s (prefix_subspace Registry)) ([], None))
      (\<lambda>(entries, err). case err of Some e \<Rightarrow> Inl e | None \<Rightarrow> Inr entries)"

end
