(* ===== verification/Directory_Accounts.thy ===== *)
theory Directory_Accounts
  imports Directory_Address
begin

text \<open>
  The account registry (\<open>crates/directory/src/account_registry.rs\<close>) and the reading half of the
  domain registry (\<open>domain_registry.rs\<close>) it relies on.  An account has a record under its
  identifier and an index entry under its domain and local part; the lemmas show that the two
  stay in step through creation, update and deletion.
\<close>

section \<open>Domains: reading\<close>

definition TAG_DOMAIN_RECORD :: byte where
  "TAG_DOMAIN_RECORD = CHR 0x10"

definition TAG_DOMAIN_NAME :: byte where
  "TAG_DOMAIN_NAME = CHR 0x11"

definition domain_record_key :: "u64 \<Rightarrow> bytes" where
  "domain_record_key i = [subspace_byte Registry, TAG_DOMAIN_RECORD] @ be64 i"

definition domain_name_key :: "bytes \<Rightarrow> bytes" where
  "domain_name_key name = [subspace_byte Registry, TAG_DOMAIN_NAME] @ name"

definition is_domain_record_key :: "bytes \<Rightarrow> bool" where
  "is_domain_record_key k \<longleftrightarrow>
    length k = 2 + 8 \<and> k ! 0 = subspace_byte Registry \<and> k ! 1 = TAG_DOMAIN_RECORD"

definition domain_encode :: "domain json \<Rightarrow> domain \<Rightarrow> error + bytes" where
  "domain_encode J d = json_encode J ''domain'' d"

definition domain_decode :: "domain json \<Rightarrow> bytes \<Rightarrow> error + domain" where
  "domain_decode J v = json_decode J ''domain'' v"

text \<open>\<open>trim().trim_end_matches('.').to_ascii_lowercase()\<close>.\<close>

definition normalize_name :: "bytes \<Rightarrow> bytes" where
  "normalize_name name =
    to_ascii_lowercase (rev (dropWhile (\<lambda>c. c = CHR ''.'') (rev (trim name))))"

definition domain_get :: "domain json \<Rightarrow> 's store \<Rightarrow> 's \<Rightarrow> u64 \<Rightarrow> error + domain" where
  "domain_get J S s i =
    and_then (st_get S s (domain_record_key i))
      (\<lambda>v. case v of
         Some b \<Rightarrow> domain_decode J b
       | None \<Rightarrow> Inl (NotFound_Error (''domain '' @ show_nat (unat i))))"

definition domain_lookup_id :: "'s store \<Rightarrow> 's \<Rightarrow> bytes \<Rightarrow> error + u64 option" where
  "domain_lookup_id S s name =
    and_then (st_get S s (domain_name_key name))
      (\<lambda>v. case v of
         Some b \<Rightarrow>
           and_then (ok_or (try_be64 b) (Store_Error (''domain name index for '' @ name @ '' is corrupt'')))
             (\<lambda>i. Inr (Some i))
       | None \<Rightarrow> Inr None)"

definition domains_visit :: "domain json \<Rightarrow> (domain list \<times> error option) visitor" where
  "domains_visit J k v = (\<lambda>(domains, err).
    if \<not> is_domain_record_key k then Inr (Continue, (domains, err))
    else case domain_decode J v of
      Inr d \<Rightarrow> Inr (Continue, (domains @ [d], err))
    | Inl e \<Rightarrow> Inr (Stop, (domains, Some e)))"

definition domain_list :: "domain json \<Rightarrow> 's store \<Rightarrow> 's \<Rightarrow> error + domain list" where
  "domain_list J S s =
    and_then (visit_rows (domains_visit J) (st_iterate S s (prefix_subspace Registry)) ([], None))
      (\<lambda>(domains, err). case err of Some e \<Rightarrow> Inl e | None \<Rightarrow> Inr domains)"

definition domain_get_by_name :: "domain json \<Rightarrow> 's store \<Rightarrow> 's \<Rightarrow> bytes \<Rightarrow> error + domain option" where
  "domain_get_by_name J S s name0 =
    (let name = normalize_name name0 in
     and_then (domain_lookup_id S s name) (\<lambda>found.
       case found of
         Some i \<Rightarrow> and_then (domain_get J S s i) (\<lambda>d. Inr (Some d))
       | None \<Rightarrow> and_then (domain_list J S s) (\<lambda>ds. Inr (find (\<lambda>d. matches_name d name) ds))))"

definition canonical_name :: "domain json \<Rightarrow> 's store \<Rightarrow> 's \<Rightarrow> bytes \<Rightarrow> error + bytes option" where
  "canonical_name J S s name =
    and_then (domain_get_by_name J S s name) (\<lambda>d. Inr (map_option dm_name d))"

section \<open>Accounts\<close>

definition TAG_ACCOUNT_RECORD :: byte where
  "TAG_ACCOUNT_RECORD = CHR 0x20"

definition TAG_ACCOUNT_ADDRESS :: byte where
  "TAG_ACCOUNT_ADDRESS = CHR 0x21"

definition account_record_key :: "u64 \<Rightarrow> bytes" where
  "account_record_key i = [subspace_byte Registry, TAG_ACCOUNT_RECORD] @ be64 i"

definition account_address_key :: "u64 \<Rightarrow> bytes \<Rightarrow> bytes" where
  "account_address_key dm local_part = [subspace_byte Registry, TAG_ACCOUNT_ADDRESS] @ be64 dm @ local_part"

definition is_account_record_key :: "bytes \<Rightarrow> bool" where
  "is_account_record_key k \<longleftrightarrow>
    length k = 2 + 8 \<and> k ! 0 = subspace_byte Registry \<and> k ! 1 = TAG_ACCOUNT_RECORD"

definition account_encode :: "account json \<Rightarrow> account \<Rightarrow> error + bytes" where
  "account_encode J a = json_encode J ''account'' a"

definition account_decode :: "account json \<Rightarrow> bytes \<Rightarrow> error + account" where
  "account_decode J v = json_decode J ''account'' v"

definition normalize_local_part :: "bytes \<Rightarrow> bytes" where
  "normalize_local_part local_part = to_ascii_lowercase (trim local_part)"

text \<open>
  The codecs of the records, and whether the registry maintains the address index
  (\<open>maintenance\<close> is \<open>Some\<close>).
\<close>

record directory_env =
  de_account :: "account json"
  de_domain :: "domain json"
  de_entry :: "address_entry json"
  de_maintenance :: bool

definition addresses_of :: "directory_env \<Rightarrow> 's store \<Rightarrow> 's \<Rightarrow> account \<Rightarrow> bytes list" where
  "addresses_of E S s a =
    filter (\<lambda>alias. trim alias \<noteq> []) (ac_aliases a) @
    (case domain_get (de_domain E) S s (ac_domain_id a) of
       Inr d \<Rightarrow> [ac_local_part a @ ''@'' @ dm_name d]
     | Inl _ \<Rightarrow> [])"

definition maintenance_ops ::
  "directory_env \<Rightarrow> 's store \<Rightarrow> 's \<Rightarrow> u64 \<Rightarrow> bytes list \<Rightarrow> bytes list \<Rightarrow> error + write_op list" where
  "maintenance_ops E S s i previous current =
    (if de_maintenance E then account_address_ops (de_entry E) S s i previous current else Inr [])"

definition lookup_id_by_address :: "'s store \<Rightarrow> 's \<Rightarrow> u64 \<Rightarrow> bytes \<Rightarrow> error + u64 option" where
  "lookup_id_by_address S s dm local_part =
    and_then (st_get S s (account_address_key dm local_part))
      (\<lambda>v. case v of
         Some b \<Rightarrow>
           and_then (ok_or (try_be64 b) (Store_Error (''account address index for '' @ local_part @
               '' in domain '' @ show_nat (unat dm) @ '' is corrupt'')))
             (\<lambda>i. Inr (Some i))
       | None \<Rightarrow> Inr None)"

text \<open>The identifier is the one that the generator issued.\<close>

definition new_account :: "u64 \<Rightarrow> bytes \<Rightarrow> u64 \<Rightarrow> bytes \<Rightarrow> role \<Rightarrow> account" where
  "new_account i local_part dm display_name r =
    \<lparr>ac_id = i, ac_local_part = local_part, ac_domain_id = dm, ac_display_name = display_name,
     ac_enabled = True, ac_role = r, ac_aliases = [], ac_forwarding = forwarding_default,
     ac_quota_bytes = 0, ac_quota_messages = 0, ac_locale = [], ac_timezone = [], ac_signature = [],
     ac_vacation = vacation_default, ac_created_at = timestamp_of i * 1000\<rparr>"

definition create_with_extra_ops ::
  "directory_env \<Rightarrow> 's store \<Rightarrow> u64 \<Rightarrow> bytes \<Rightarrow> u64 \<Rightarrow> bytes \<Rightarrow> role \<Rightarrow> (u64 \<Rightarrow> u64 \<Rightarrow> write_op list) \<Rightarrow> 's
    \<Rightarrow> (error + account) \<times> 's" where
  "create_with_extra_ops E S i local_part0 dm display_name r extra_ops s =
    (let local_part = normalize_local_part local_part0 in
     if local_part = [] then (Inl (InvalidInput_Error ''an account local part must not be empty''), s)
     else case lookup_id_by_address S s dm local_part of
       Inl e \<Rightarrow> (Inl e, s)
     | Inr (Some _) \<Rightarrow> (Inl (InvalidInput_Error (''an account '' @ local_part @
           '' already exists in domain '' @ show_nat (unat dm))), s)
     | Inr None \<Rightarrow>
         (let a = new_account i local_part dm display_name r in
          case account_encode (de_account E) a of
            Inl e \<Rightarrow> (Inl e, s)
          | Inr v \<Rightarrow>
              (case maintenance_ops E S s i [] (addresses_of E S s a) of
                 Inl e \<Rightarrow> (Inl e, s)
               | Inr more_ops \<Rightarrow>
                   (case st_batch S s ([Set_Op (account_record_key i) v,
                        Set_Op (account_address_key dm local_part) (be64 i)]
                        @ extra_ops i (ac_created_at a) @ more_ops) of
                      (Inl e, s') \<Rightarrow> (Inl e, s')
                    | (Inr _, s') \<Rightarrow> (Inr a, s')))))"

definition account_create ::
  "directory_env \<Rightarrow> 's store \<Rightarrow> u64 \<Rightarrow> bytes \<Rightarrow> u64 \<Rightarrow> bytes \<Rightarrow> role \<Rightarrow> 's \<Rightarrow> (error + account) \<times> 's" where
  "account_create E S i local_part dm display_name r s =
    create_with_extra_ops E S i local_part dm display_name r (\<lambda>_ _. []) s"

definition account_get :: "directory_env \<Rightarrow> 's store \<Rightarrow> 's \<Rightarrow> u64 \<Rightarrow> error + account" where
  "account_get E S s i =
    and_then (st_get S s (account_record_key i))
      (\<lambda>v. case v of
         Some b \<Rightarrow> account_decode (de_account E) b
       | None \<Rightarrow> Inl (NotFound_Error (''account '' @ show_nat (unat i))))"

definition get_by_address :: "directory_env \<Rightarrow> 's store \<Rightarrow> 's \<Rightarrow> bytes \<Rightarrow> u64 \<Rightarrow> error + account option" where
  "get_by_address E S s local_part dm =
    and_then (lookup_id_by_address S s dm (normalize_local_part local_part))
      (\<lambda>found. case found of
         Some i \<Rightarrow> and_then (account_get E S s i) (\<lambda>a. Inr (Some a))
       | None \<Rightarrow> Inr None)"

definition accounts_visit :: "directory_env \<Rightarrow> (account \<Rightarrow> bool) \<Rightarrow> (account list \<times> error option) visitor" where
  "accounts_visit E keep k v = (\<lambda>(accounts, err).
    if \<not> is_account_record_key k then Inr (Continue, (accounts, err))
    else case account_decode (de_account E) v of
      Inr a \<Rightarrow> Inr (Continue, (if keep a then accounts @ [a] else accounts, err))
    | Inl e \<Rightarrow> Inr (Stop, (accounts, Some e)))"

definition account_collect :: "directory_env \<Rightarrow> 's store \<Rightarrow> 's \<Rightarrow> (account \<Rightarrow> bool) \<Rightarrow> error + account list" where
  "account_collect E S s keep =
    and_then (visit_rows (accounts_visit E keep) (st_iterate S s (prefix_subspace Registry)) ([], None))
      (\<lambda>(accounts, err). case err of Some e \<Rightarrow> Inl e | None \<Rightarrow> Inr accounts)"

definition account_list :: "directory_env \<Rightarrow> 's store \<Rightarrow> 's \<Rightarrow> error + account list" where
  "account_list E S s = account_collect E S s (\<lambda>_. True)"

definition list_for_domain :: "directory_env \<Rightarrow> 's store \<Rightarrow> 's \<Rightarrow> u64 \<Rightarrow> error + account list" where
  "list_for_domain E S s dm = account_collect E S s (\<lambda>a. ac_domain_id a = dm)"

definition address_change_ops ::
  "'s store \<Rightarrow> 's \<Rightarrow> account \<Rightarrow> account \<Rightarrow> error + write_op list" where
  "address_change_ops S s existing a =
    (if ac_local_part a \<noteq> ac_local_part existing \<or> ac_domain_id a \<noteq> ac_domain_id existing then
       and_then (lookup_id_by_address S s (ac_domain_id a) (ac_local_part a)) (\<lambda>other.
         if (case other of Some i \<Rightarrow> i \<noteq> ac_id a | None \<Rightarrow> False)
         then Inl (InvalidInput_Error (''an account '' @ ac_local_part a @
           '' already exists in domain '' @ show_nat (unat (ac_domain_id a))))
         else Inr [Delete_Op (account_address_key (ac_domain_id existing) (ac_local_part existing)),
           Set_Op (account_address_key (ac_domain_id a) (ac_local_part a)) (be64 (ac_id a))])
     else Inr [])"

definition account_update :: "directory_env \<Rightarrow> 's store \<Rightarrow> account \<Rightarrow> 's \<Rightarrow> (error + unit) \<times> 's" where
  "account_update E S a0 s =
    (case account_get E S s (ac_id a0) of
       Inl e \<Rightarrow> (Inl e, s)
     | Inr existing \<Rightarrow>
         (let local_part = normalize_local_part (ac_local_part a0) in
          if local_part = [] then (Inl (InvalidInput_Error ''an account local part must not be empty''), s)
          else let a = a0\<lparr>ac_local_part := local_part,
                 ac_aliases := filter (\<lambda>alias. trim alias \<noteq> []) (ac_aliases a0)\<rparr> in
            (case account_encode (de_account E) a of
               Inl e \<Rightarrow> (Inl e, s)
             | Inr v \<Rightarrow>
                 (case address_change_ops S s existing a of
                    Inl e \<Rightarrow> (Inl e, s)
                  | Inr change_ops \<Rightarrow>
                      (case maintenance_ops E S s (ac_id a) (addresses_of E S s existing) (addresses_of E S s a) of
                         Inl e \<Rightarrow> (Inl e, s)
                       | Inr more_ops \<Rightarrow>
                           (case st_batch S s ([Set_Op (account_record_key (ac_id a)) v] @ change_ops @ more_ops) of
                              (Inl e, s') \<Rightarrow> (Inl e, s')
                            | (Inr _, s') \<Rightarrow> (Inr (), s')))))))"

definition account_delete :: "directory_env \<Rightarrow> 's store \<Rightarrow> u64 \<Rightarrow> 's \<Rightarrow> (error + unit) \<times> 's" where
  "account_delete E S i s =
    (case account_get E S s i of
       Inl e \<Rightarrow> (Inl e, s)
     | Inr a \<Rightarrow>
         (case maintenance_ops E S s i (addresses_of E S s a) [] of
            Inl e \<Rightarrow> (Inl e, s)
          | Inr more_ops \<Rightarrow>
              (case st_batch S s ([Delete_Op (account_record_key i),
                   Delete_Op (account_address_key (ac_domain_id a) (ac_local_part a))] @ more_ops) of
                 (Inl e, s') \<Rightarrow> (Inl e, s')
               | (Inr _, s') \<Rightarrow> (Inr (), s'))))"

section \<open>Steps of the registry\<close>

inductive account_step :: "directory_env \<Rightarrow> 's store \<Rightarrow> ('s \<Rightarrow> content) \<Rightarrow> 's \<Rightarrow> 's \<Rightarrow> bool"
  for E :: directory_env and S :: "'s store" and content :: "'s \<Rightarrow> content" where
  step_create:
    "content s (account_record_key i) = None \<Longrightarrow> account_create E S i local_part p name r s = (res, s') \<Longrightarrow>
      account_step E S content s s'"
| step_update: "account_update E S a s = (res, s') \<Longrightarrow> account_step E S content s s'"
| step_delete: "account_delete E S i s = (res, s') \<Longrightarrow> account_step E S content s s'"

section \<open>Records and index in step\<close>

lemma account_keys [simp]:
  "account_record_key i = account_record_key j \<longleftrightarrow> i = j"
  "account_address_key p lp = account_address_key q lq \<longleftrightarrow> p = q \<and> lp = lq"
  "account_record_key i \<noteq> account_address_key p lp"
  "account_address_key p lp \<noteq> account_record_key i"
  "\<not> tagged (subspace_byte Registry) TAG_ADDRESS_ENTRY (account_record_key i)"
  "\<not> tagged (subspace_byte Registry) TAG_ADDRESS_ENTRY (account_address_key p lp)"
  "tagged (subspace_byte Registry) TAG_ADDRESS_ENTRY (addr_entry_key a)"
  by (simp_all add: account_record_key_def account_address_key_def addr_entry_key_def
      TAG_ACCOUNT_RECORD_def TAG_ACCOUNT_ADDRESS_def TAG_ADDRESS_ENTRY_def)

lemma addr_set_ops_on:
  "addr_set_ops J i as = Inr ops \<Longrightarrow> ops_on (tagged (subspace_byte Registry) TAG_ADDRESS_ENTRY) ops"
  by (induction as arbitrary: ops) (auto simp: and_then_eq_Inr simp del: subspace_byte.simps)

lemma maintenance_ops_on:
  assumes "maintenance_ops E S s i previous current = Inr ops"
  shows "ops_on (tagged (subspace_byte Registry) TAG_ADDRESS_ENTRY) ops"
proof -
  have "ops_on (tagged (subspace_byte Registry) TAG_ADDRESS_ENTRY)
      (map (\<lambda>address. Delete_Op (addr_entry_key address)) as)" for as
    by (induction as) (simp_all del: subspace_byte.simps)
  then show ?thesis
    using assms
    by (auto simp: maintenance_ops_def account_address_ops_def Let_def and_then_eq_Inr addr_set_ops_on
        simp del: subspace_byte.simps split: if_splits)
qed

definition account_at :: "directory_env \<Rightarrow> content \<Rightarrow> u64 \<Rightarrow> account option" where
  "account_at E m i =
    (case m (account_record_key i) of
       None \<Rightarrow> None
     | Some v \<Rightarrow> (case account_decode (de_account E) v of Inl _ \<Rightarrow> None | Inr a \<Rightarrow> Some a))"

text \<open>
  The invariant: every record lies under its own identifier and its address leads to it, and
  every address of the index leads to a record with that address.
\<close>

definition accounts_consistent :: "directory_env \<Rightarrow> content \<Rightarrow> bool" where
  "accounts_consistent E m \<longleftrightarrow>
    (\<forall>i a. account_at E m i = Some a \<longrightarrow>
      ac_id a = i \<and> m (account_address_key (ac_domain_id a) (ac_local_part a)) = Some (be64 i)) \<and>
    (\<forall>p lp b. m (account_address_key p lp) = Some b \<longrightarrow>
      (\<exists>i a. b = be64 i \<and> account_at E m i = Some a \<and> ac_domain_id a = p \<and> ac_local_part a = lp))"

lemma accounts_consistent_address_unique:
  assumes "accounts_consistent E m" "account_at E m i = Some a" "account_at E m j = Some b"
    "ac_domain_id a = ac_domain_id b" "ac_local_part a = ac_local_part b"
  shows "i = j"
  using assms unfolding accounts_consistent_def by (metis option.inject word_bytes_inj(2))

lemma accounts_consistent_cong:
  assumes "\<And>i. m' (account_record_key i) = m (account_record_key i)"
    and "\<And>p lp. m' (account_address_key p lp) = m (account_address_key p lp)"
  shows "accounts_consistent E m' = accounts_consistent E m"
  by (simp add: accounts_consistent_def account_at_def assms)

text \<open>Replacing, adding or removing the account under one identifier together with its index entry.\<close>

lemma accounts_consistent_replace:
  assumes inv: "accounts_consistent E m"
    and at: "\<And>j. account_at E m' j = (if j = i then new else account_at E m j)"
    and addr: "\<And>p lp. m' (account_address_key p lp) =
      (if \<exists>a. new = Some a \<and> ac_domain_id a = p \<and> ac_local_part a = lp then Some (be64 i)
       else if \<exists>a. account_at E m i = Some a \<and> ac_domain_id a = p \<and> ac_local_part a = lp then None
       else m (account_address_key p lp))"
    and new: "\<And>a. new = Some a \<Longrightarrow> ac_id a = i \<and>
      m (account_address_key (ac_domain_id a) (ac_local_part a)) \<in> {None, Some (be64 i)}"
  shows "accounts_consistent E m'"
proof -
  have rec: "ac_id b = j \<and> m (account_address_key (ac_domain_id b) (ac_local_part b)) = Some (be64 j)"
    if "account_at E m j = Some b" for j b
    using inv that unfolding accounts_consistent_def by blast
  show ?thesis
    unfolding accounts_consistent_def
  proof (rule conjI; intro allI impI)
    fix j b
    assume "account_at E m' j = Some b"
    then consider "j = i" "new = Some b" | "j \<noteq> i" "account_at E m j = Some b"
      unfolding at by (cases "j = i") auto
    then show "ac_id b = j \<and> m' (account_address_key (ac_domain_id b) (ac_local_part b)) = Some (be64 j)"
    proof cases
      case 1
      then have "m' (account_address_key (ac_domain_id b) (ac_local_part b)) = Some (be64 i)"
        unfolding addr by auto
      then show ?thesis
        using 1 new [of b] by simp
    next
      case 2
      note r = rec [OF 2(2)]
      have n1: "\<not> (\<exists>a. new = Some a \<and> ac_domain_id a = ac_domain_id b \<and> ac_local_part a = ac_local_part b)"
        using new r 2(1) by fastforce
      have n2: "\<not> (\<exists>a. account_at E m i = Some a \<and> ac_domain_id a = ac_domain_id b \<and> ac_local_part a = ac_local_part b)"
        using rec r 2(1) by fastforce
      show ?thesis
        using r unfolding addr if_not_P [OF n1] if_not_P [OF n2] .
    qed
  next
    fix p lp b
    assume b: "m' (account_address_key p lp) = Some b"
    show "\<exists>j a. b = be64 j \<and> account_at E m' j = Some a \<and> ac_domain_id a = p \<and> ac_local_part a = lp"
    proof (cases "\<exists>a. new = Some a \<and> ac_domain_id a = p \<and> ac_local_part a = lp")
      case True
      then show ?thesis
        using b unfolding addr at by (intro exI [of _ i]) auto
    next
      case False
      then have no: "\<not> (\<exists>a. account_at E m i = Some a \<and> ac_domain_id a = p \<and> ac_local_part a = lp)"
        and "m (account_address_key p lp) = Some b"
        using b unfolding addr by (auto split: if_splits)
      then obtain j c where "b = be64 j" "account_at E m j = Some c" "ac_domain_id c = p" "ac_local_part c = lp"
        using inv unfolding accounts_consistent_def by blast
      then show ?thesis
        using no unfolding at by (intro exI [of _ j] exI [of _ c]) auto
    qed
  qed
qed

context kv_store
begin

lemma lookup_id_ok:
  "lookup_id_by_address S s p lp = Inr None \<Longrightarrow> content s (account_address_key p lp) = None"
  "lookup_id_by_address S s p lp = Inr (Some i) \<Longrightarrow> content s (account_address_key p lp) = Some (be64 i)"
  by (auto simp: lookup_id_by_address_def and_then_eq_Inr try_be64_Some split: option.splits dest!: get_ok)

lemma account_get_ok: "account_get E S s i = Inr a \<Longrightarrow> account_at E (content s) i = Some a"
  by (auto simp: account_get_def account_at_def and_then_eq_Inr split: option.splits dest!: get_ok)

text \<open>What a batch of record and index operations followed by address operations does.\<close>

lemma account_batch_effect:
  assumes "st_batch S s (ops @ more_ops) = (Inr u, s')"
    and "ops_on (tagged (subspace_byte Registry) TAG_ADDRESS_ENTRY) more_ops" and "ops_effect ops (content s) = Some m"
  shows "content s' (account_record_key i) = m (account_record_key i)"
    and "content s' (account_address_key p lp) = m (account_address_key p lp)"
proof -
  from ops_on_effect [OF assms(2), of m] obtain m' where m': "ops_effect more_ops m = Some m'"
    and same: "\<forall>k. \<not> tagged (subspace_byte Registry) TAG_ADDRESS_ENTRY k \<longrightarrow> m' k = m k"
    by blast
  have "content s' = m'"
    using batch_ok [OF assms(1)] assms(3) m' by (simp add: ops_effect_append)
  then show "content s' (account_record_key i) = m (account_record_key i)"
    and "content s' (account_address_key p lp) = m (account_address_key p lp)"
    using same account_keys(5,6) by blast+
qed

lemma account_create_ok:
  assumes "account_create E S i lp0 p nm r s = (Inr a, s')" and "json_law (de_account E)"
    and "content s (account_record_key i) = None" and "accounts_consistent E (content s)"
  shows "accounts_consistent E (content s') \<and> account_at E (content s') i = Some a \<and>
    ac_local_part a = normalize_local_part lp0 \<and> ac_domain_id a = p"
proof -
  let ?lp = "normalize_local_part lp0"
  from assms(1) obtain v more_ops u where look: "lookup_id_by_address S s p ?lp = Inr None"
    and v: "account_encode (de_account E) (new_account i ?lp p nm r) = Inr v"
    and ops: "maintenance_ops E S s i [] (addresses_of E S s (new_account i ?lp p nm r)) = Inr more_ops"
    and batch: "st_batch S s ([Set_Op (account_record_key i) v, Set_Op (account_address_key p ?lp) (be64 i)] @ more_ops) = (Inr u, s')"
    and a: "a = new_account i ?lp p nm r"
    by (auto simp: account_create_def create_with_extra_ops_def Let_def
        split: if_splits sum.splits option.splits prod.splits)
  let ?m = "(content s)(account_record_key i \<mapsto> v, account_address_key p ?lp \<mapsto> be64 i)"
  have dec: "account_decode (de_account E) v = Inr a"
    using v a json_decode_encode [OF assms(2)] by (simp add: account_encode_def account_decode_def)
  have at: "account_at E ?m j = (if j = i then Some a else account_at E (content s) j)" for j
    using dec by (simp add: account_at_def)
  have old: "account_at E (content s) i = None"
    using assms(3) by (simp add: account_at_def)
  have "accounts_consistent E ?m"
    by (rule accounts_consistent_replace [OF assms(4) at])
      (use lookup_id_ok(1) [OF look] old in \<open>auto simp: a new_account_def\<close>)
  moreover note eff = account_batch_effect [OF batch maintenance_ops_on [OF ops], of ?m]
  ultimately have "accounts_consistent E (content s')"
    using accounts_consistent_cong [of "content s'" ?m E] by simp
  moreover have "account_at E (content s') i = Some a"
    using eff(1) [of i] dec by (simp add: account_at_def)
  ultimately show ?thesis
    by (simp add: a new_account_def)
qed

lemma address_change_ops_ok:
  assumes "address_change_ops S s existing a = Inr ops"
    and "content s (account_address_key (ac_domain_id existing) (ac_local_part existing)) = Some (be64 (ac_id a))"
  shows "content s (account_address_key (ac_domain_id a) (ac_local_part a)) \<in> {None, Some (be64 (ac_id a))}"
    and "ops_effect ops ((content s)(account_record_key i \<mapsto> v)) =
      Some ((content s)(account_record_key i \<mapsto> v,
        account_address_key (ac_domain_id existing) (ac_local_part existing) := None,
        account_address_key (ac_domain_id a) (ac_local_part a) \<mapsto> be64 (ac_id a)))"
proof -
  have "content s (account_address_key (ac_domain_id a) (ac_local_part a)) \<in> {None, Some (be64 (ac_id a))} \<and>
    ops_effect ops ((content s)(account_record_key i \<mapsto> v)) =
      Some ((content s)(account_record_key i \<mapsto> v,
        account_address_key (ac_domain_id existing) (ac_local_part existing) := None,
        account_address_key (ac_domain_id a) (ac_local_part a) \<mapsto> be64 (ac_id a)))"
  proof (cases "ac_local_part a \<noteq> ac_local_part existing \<or> ac_domain_id a \<noteq> ac_domain_id existing")
    case True
    then obtain other where "lookup_id_by_address S s (ac_domain_id a) (ac_local_part a) = Inr other"
      and "\<not> (case other of Some j \<Rightarrow> j \<noteq> ac_id a | None \<Rightarrow> False)"
      and "ops = [Delete_Op (account_address_key (ac_domain_id existing) (ac_local_part existing)),
           Set_Op (account_address_key (ac_domain_id a) (ac_local_part a)) (be64 (ac_id a))]"
      using assms(1) by (auto simp: address_change_ops_def and_then_eq_Inr split: if_splits)
    then show ?thesis
      using lookup_id_ok by (cases other) auto
  next
    case False
    then show ?thesis
      using assms by (auto simp: address_change_ops_def fun_eq_iff)
  qed
  then show "content s (account_address_key (ac_domain_id a) (ac_local_part a)) \<in> {None, Some (be64 (ac_id a))}"
    and "ops_effect ops ((content s)(account_record_key i \<mapsto> v)) =
      Some ((content s)(account_record_key i \<mapsto> v,
        account_address_key (ac_domain_id existing) (ac_local_part existing) := None,
        account_address_key (ac_domain_id a) (ac_local_part a) \<mapsto> be64 (ac_id a)))"
    by blast+
qed

lemma account_update_ok:
  assumes "account_update E S a0 s = (Inr u, s')" and "json_law (de_account E)"
    and "accounts_consistent E (content s)"
  shows "accounts_consistent E (content s')"
proof -
  define a where "a = a0\<lparr>ac_local_part := normalize_local_part (ac_local_part a0),
    ac_aliases := filter (\<lambda>alias. trim alias \<noteq> []) (ac_aliases a0)\<rparr>"
  have i: "ac_id a0 = ac_id a"
    by (simp add: a_def)
  from assms(1) obtain existing v change_ops more_ops w where get: "account_get E S s (ac_id a) = Inr existing"
    and v: "account_encode (de_account E) a = Inr v"
    and change: "address_change_ops S s existing a = Inr change_ops"
    and ops: "maintenance_ops E S s (ac_id a) (addresses_of E S s existing) (addresses_of E S s a) = Inr more_ops"
    and batch: "st_batch S s (([Set_Op (account_record_key (ac_id a)) v] @ change_ops) @ more_ops) = (Inr w, s')"
    unfolding account_update_def i by (auto simp: Let_def a_def [symmetric] split: if_splits sum.splits prod.splits)
  have dec: "account_decode (de_account E) v = Inr a"
    using v json_decode_encode [OF assms(2)] by (simp add: account_encode_def account_decode_def)
  have old: "account_at E (content s) (ac_id a) = Some existing"
    by (rule account_get_ok [OF get])
  then have "content s (account_address_key (ac_domain_id existing) (ac_local_part existing)) = Some (be64 (ac_id a))"
    using assms(3) by (auto simp: accounts_consistent_def)
  note change_ok = address_change_ops_ok [OF change this]
  let ?m = "(content s)(account_record_key (ac_id a) \<mapsto> v,
    account_address_key (ac_domain_id existing) (ac_local_part existing) := None,
    account_address_key (ac_domain_id a) (ac_local_part a) \<mapsto> be64 (ac_id a))"
  have eff: "ops_effect ([Set_Op (account_record_key (ac_id a)) v] @ change_ops) (content s) = Some ?m"
    using change_ok(2) by simp
  have "accounts_consistent E ?m"
    by (rule accounts_consistent_replace [OF assms(3), of _ "ac_id a" "Some a"])
      (use change_ok(1) dec old in \<open>auto simp: account_at_def\<close>)
  then show ?thesis
    using account_batch_effect [OF batch maintenance_ops_on [OF ops] eff]
    by (subst accounts_consistent_cong [of "content s'" ?m E]) simp_all
qed

lemma account_delete_ok:
  assumes "account_delete E S i s = (Inr u, s')" and "accounts_consistent E (content s)"
  shows "accounts_consistent E (content s') \<and> account_at E (content s') i = None"
proof -
  from assms(1) obtain a more_ops w where get: "account_get E S s i = Inr a"
    and ops: "maintenance_ops E S s i (addresses_of E S s a) [] = Inr more_ops"
    and batch: "st_batch S s ([Delete_Op (account_record_key i),
        Delete_Op (account_address_key (ac_domain_id a) (ac_local_part a))] @ more_ops) = (Inr w, s')"
    by (auto simp: account_delete_def split: sum.splits prod.splits)
  let ?m = "(content s)(account_record_key i := None, account_address_key (ac_domain_id a) (ac_local_part a) := None)"
  have old: "account_at E (content s) i = Some a"
    by (rule account_get_ok [OF get])
  have "accounts_consistent E ?m"
    by (rule accounts_consistent_replace [OF assms(2), of _ i None]) (use old in \<open>auto simp: account_at_def\<close>)
  moreover note eff = account_batch_effect [OF batch maintenance_ops_on [OF ops], of ?m]
  ultimately show ?thesis
    using accounts_consistent_cong [of "content s'" ?m E] by (auto simp: account_at_def)
qed

lemma account_ops_err:
  "account_create E S i lp p nm r s = (Inl e, s') \<Longrightarrow> content s' = content s"
  "account_update E S a s = (Inl e, s') \<Longrightarrow> content s' = content s"
  "account_delete E S i s = (Inl e, s') \<Longrightarrow> content s' = content s"
  by (auto simp: account_create_def create_with_extra_ops_def account_update_def account_delete_def Let_def
      split: if_splits sum.splits option.splits prod.splits dest: batch_err)

lemma account_step_consistent:
  assumes "json_law (de_account E)" and "account_step E S content s s'" and "accounts_consistent E (content s)"
  shows "accounts_consistent E (content s')"
  using assms(2)
proof cases
  case (step_create i lp p nm r res)
  then show ?thesis
    using assms account_create_ok account_ops_err(1) by (cases res) fastforce+
next
  case (step_update a res)
  then show ?thesis
    using assms account_update_ok account_ops_err(2) by (cases res) fastforce+
next
  case (step_delete i res)
  then show ?thesis
    using assms account_delete_ok account_ops_err(3) by (cases res) fastforce+
qed

lemma account_steps_consistent:
  assumes "json_law (de_account E)" and "(account_step E S content)\<^sup>*\<^sup>* s s'" and "accounts_consistent E (content s)"
  shows "accounts_consistent E (content s')"
  using assms(2,3) by (induction rule: rtranclp_induct) (auto intro: account_step_consistent [OF assms(1)])

end

section \<open>Guarantee\<close>

text \<open>
  C3. The account registry stays consistent: after any sequence of creations, updates and
  deletions, successful or failing, every account's record lies under its identifier and its
  domain and local part lead to it, every index entry leads to an account with that address, and
  no two accounts have the same address.  Identifiers of new accounts have no record yet.
\<close>

theorem account_registry_invariant:
  assumes "rocksdb_laws R data" and "json_law (de_account E)"
    and "accounts_consistent E (content_map (data d))"
    and "(account_step E (rocksdb_store R elapsed) (\<lambda>d. content_map (data d)))\<^sup>*\<^sup>* d d'"
  shows "accounts_consistent E (content_map (data d')) \<and>
    (\<forall>i j a b. account_at E (content_map (data d')) i = Some a \<longrightarrow> account_at E (content_map (data d')) j = Some b \<longrightarrow>
      ac_domain_id a = ac_domain_id b \<longrightarrow> ac_local_part a = ac_local_part b \<longrightarrow> i = j)"
  using kv_store.account_steps_consistent [OF rocksdb_laws.store_contract [OF assms(1)] assms(2,4)] assms(3)
    accounts_consistent_address_unique by blast

text \<open>A codec that knows one value, and one that knows none.\<close>

definition one_json :: "'a \<Rightarrow> 'a json" where
  "one_json x =
    \<lparr>js_to_vec = (\<lambda>y. if y = x then Inr ''x'' else Inl ''unsupported''),
     js_from_slice = (\<lambda>v. if v = ''x'' then Inr x else Inl ''expected value'')\<rparr>"

lemma one_json_law: "json_law (one_json x)"
  by (simp add: json_law_def one_json_def)

definition no_json :: "'a json" where
  "no_json = \<lparr>js_to_vec = (\<lambda>y. Inl ''unsupported''), js_from_slice = (\<lambda>v. Inl ''expected value'')\<rparr>"

definition bob :: account where
  "bob = new_account 5 ''bob'' 9 ''Bob'' User_Role"

definition bob_env :: directory_env where
  "bob_env = \<lparr>de_account = one_json bob, de_domain = no_json, de_entry = no_json,
    de_maintenance = False\<rparr>"

lemma subspace_of_account [simp]:
  "subspace_of (account_record_key i) = Inr Registry" "subspace_of (account_address_key p lp) = Inr Registry"
  using subspace_of_subspace_byte [of Registry]
  by (simp_all add: account_record_key_def account_address_key_def)

lemma bob_local_part: "normalize_local_part '' Bob'' = ''bob''"
  by (simp add: normalize_local_part_def trim_ascii is_ascii_def to_ascii_lowercase_def to_ascii_lowercase_byte_def
      is_ascii_uppercase_def char_of_eq_iff take_bit_eq_mod is_whitespace_def)

theorem account_registry_invariant_witness:
  "\<exists>d'. account_create bob_env mem_store 5 '' Bob'' 9 ''Bob'' User_Role [] = (Inr bob, d') \<and>
    accounts_consistent bob_env (content_map (mem_data d'))"
proof -
  obtain d' where d': "account_create bob_env mem_store 5 '' Bob'' 9 ''Bob'' User_Role [] = (Inr bob, d')"
    using mem_store_batch [of "[Set_Op (account_record_key 5) ''x'', Set_Op (account_address_key 9 ''bob'') (be64 5)]" "[]"]
    by (auto simp: account_create_def create_with_extra_ops_def bob_local_part lookup_id_by_address_def mem_store_reads
        account_encode_def json_encode_def bob_env_def one_json_def bob_def [symmetric] maintenance_ops_def internal_def)
  have steps: "(account_step bob_env mem_store (\<lambda>d. content_map (mem_data d)))\<^sup>*\<^sup>* [] d'"
    by (rule r_into_rtranclp, rule step_create [OF _ d']) (simp add: content_map_def mem_data_def)
  have law: "json_law (de_account bob_env)"
    by (simp add: bob_env_def one_json_law)
  have empty: "accounts_consistent bob_env (content_map (mem_data []))"
    by (simp add: accounts_consistent_def account_at_def content_map_def mem_data_def)
  show ?thesis
    using account_registry_invariant [OF mem_laws law empty steps [unfolded mem_store_def]] d' by blast
qed

end
