(* ===== verification/Directory_Domains.thy ===== *)
theory Directory_Domains
  imports Directory_Accounts
begin

text \<open>
  The writing half of the domain registry (\<open>crates/directory/src/domain_registry.rs\<close>): creation,
  update with renaming and catch-all maintenance, and deletion.  The registry that the server
  builds holds both the address index and an account registry without maintenance.
\<close>

section \<open>Operations\<close>

definition catch_all_ops :: "directory_env \<Rightarrow> domain \<Rightarrow> domain \<Rightarrow> error + write_op list" where
  "catch_all_ops E previous current =
    (let clear = (if dm_catch_all_account_id previous \<noteq> None then [clear_catch_all_op (dm_name previous)] else []) in
     case dm_catch_all_account_id current of
       Some account_id \<Rightarrow>
         and_then (set_catch_all_op (de_entry E) (dm_name current) account_id) (\<lambda>p. Inr (clear @ [p]))
     | None \<Rightarrow> Inr clear)"

fun rekey_loop ::
  "directory_env \<Rightarrow> 's store \<Rightarrow> 's \<Rightarrow> bytes \<Rightarrow> bytes \<Rightarrow> account list \<Rightarrow> error + write_op list" where
  "rekey_loop E S s old_name new_name [] = Inr []"
| "rekey_loop E S s old_name new_name (a # as) =
    (let old_address = ac_local_part a @ ''@'' @ old_name;
         new_address = ac_local_part a @ ''@'' @ new_name
     in and_then (addr_resolve (de_entry E) S s new_address) (\<lambda>found.
        if (case found of Some e \<Rightarrow> entry_account_id e \<noteq> Some (ac_id a) | None \<Rightarrow> False)
        then Inl (InvalidInput_Error (''the address '' @ new_address @ '' is already in use''))
        else and_then (account_entry_op (de_entry E) new_address (ac_id a)) (\<lambda>p.
          and_then (rekey_loop E S s old_name new_name as) (\<lambda>ops.
            Inr (remove_entry_op old_address # p # ops)))))"

definition rekey_primary_ops ::
  "directory_env \<Rightarrow> 's store \<Rightarrow> 's \<Rightarrow> bytes \<Rightarrow> bytes \<Rightarrow> u64 \<Rightarrow> error + write_op list" where
  "rekey_primary_ops E S s old_name new_name domain_id =
    and_then (list_for_domain E S s domain_id) (\<lambda>as. rekey_loop E S s old_name new_name as)"

definition new_domain :: "u64 \<Rightarrow> bytes \<Rightarrow> bytes list \<Rightarrow> domain" where
  "new_domain i name aliases =
    \<lparr>dm_id = i, dm_name = name, dm_aliases = aliases, dm_enabled = True, dm_catch_all_account_id = None,
     dm_dkim_key_ids = [], dm_dns_status = Unverified, dm_created_at = timestamp_of i * 1000\<rparr>"

definition domain_create ::
  "directory_env \<Rightarrow> 's store \<Rightarrow> u64 \<Rightarrow> bytes \<Rightarrow> bytes list \<Rightarrow> 's \<Rightarrow> (error + domain) \<times> 's" where
  "domain_create E S i name0 aliases0 s =
    (let name = normalize_name name0 in
     if name = [] then (Inl (InvalidInput_Error ''a domain name must not be empty''), s)
     else case domain_lookup_id S s name of
       Inl e \<Rightarrow> (Inl e, s)
     | Inr (Some _) \<Rightarrow> (Inl (InvalidInput_Error (''a domain named '' @ name @ '' already exists'')), s)
     | Inr None \<Rightarrow>
         (let d = new_domain i name (filter (\<lambda>alias. alias \<noteq> []) (map normalize_name aliases0)) in
          case domain_encode (de_domain E) d of
            Inl e \<Rightarrow> (Inl e, s)
          | Inr v \<Rightarrow>
              (case st_batch S s [Set_Op (domain_record_key i) v, Set_Op (domain_name_key name) (be64 i)] of
                 (Inl e, s') \<Rightarrow> (Inl e, s')
               | (Inr _, s') \<Rightarrow> (Inr d, s'))))"

definition rename_ops :: "directory_env \<Rightarrow> 's store \<Rightarrow> 's \<Rightarrow> domain \<Rightarrow> domain \<Rightarrow> error + write_op list" where
  "rename_ops E S s existing d =
    (if dm_name d \<noteq> dm_name existing then
       and_then (domain_lookup_id S s (dm_name d)) (\<lambda>other.
         if (case other of Some i \<Rightarrow> i \<noteq> dm_id d | None \<Rightarrow> False)
         then Inl (InvalidInput_Error (''a domain named '' @ dm_name d @ '' already exists''))
         else and_then (rekey_primary_ops E S s (dm_name existing) (dm_name d) (dm_id d)) (\<lambda>ops.
           Inr ([Delete_Op (domain_name_key (dm_name existing)),
             Set_Op (domain_name_key (dm_name d)) (be64 (dm_id d))] @ ops)))
     else Inr [])"

definition domain_update :: "directory_env \<Rightarrow> 's store \<Rightarrow> domain \<Rightarrow> 's \<Rightarrow> (error + unit) \<times> 's" where
  "domain_update E S d0 s =
    (case domain_get (de_domain E) S s (dm_id d0) of
       Inl e \<Rightarrow> (Inl e, s)
     | Inr existing \<Rightarrow>
         (let name = normalize_name (dm_name d0) in
          if name = [] then (Inl (InvalidInput_Error ''a domain name must not be empty''), s)
          else let d = d0\<lparr>dm_name := name,
                 dm_aliases := filter (\<lambda>alias. alias \<noteq> []) (map normalize_name (dm_aliases d0))\<rparr> in
            (case domain_encode (de_domain E) d of
               Inl e \<Rightarrow> (Inl e, s)
             | Inr v \<Rightarrow>
                 (case rename_ops E S s existing d of
                    Inl e \<Rightarrow> (Inl e, s)
                  | Inr renames \<Rightarrow>
                      (case catch_all_ops E existing d of
                         Inl e \<Rightarrow> (Inl e, s)
                       | Inr catches \<Rightarrow>
                           (case st_batch S s ([Set_Op (domain_record_key (dm_id d)) v] @ renames @ catches) of
                              (Inl e, s') \<Rightarrow> (Inl e, s')
                            | (Inr _, s') \<Rightarrow> (Inr (), s')))))))"

definition domain_delete :: "directory_env \<Rightarrow> 's store \<Rightarrow> u64 \<Rightarrow> 's \<Rightarrow> (error + unit) \<times> 's" where
  "domain_delete E S i s =
    (case domain_get (de_domain E) S s i of
       Inl e \<Rightarrow> (Inl e, s)
     | Inr d \<Rightarrow>
         (case list_for_domain E S s i of
            Inl e \<Rightarrow> (Inl e, s)
          | Inr as \<Rightarrow>
              if as \<noteq> [] then (Inl (InvalidInput_Error (''the domain '' @ dm_name d @ '' still has accounts'')), s)
              else st_batch S s ([Delete_Op (domain_record_key i), Delete_Op (domain_name_key (dm_name d))]
                @ (if dm_catch_all_account_id d \<noteq> None then [clear_catch_all_op (dm_name d)] else []))))"

section \<open>Accounts of a domain\<close>

lemma accounts_visit_steps:
  "\<not> is_account_record_key k \<Longrightarrow> accounts_visit E keep k v (as, err) = Inr (Continue, (as, err))"
  "is_account_record_key k \<Longrightarrow> account_decode (de_account E) v = Inr a \<Longrightarrow>
    accounts_visit E keep k v (as, err) = Inr (Continue, (if keep a then as @ [a] else as, err))"
  "is_account_record_key k \<Longrightarrow> account_decode (de_account E) v = Inl e \<Longrightarrow>
    accounts_visit E keep k v (as, err) = Inr (Stop, (as, Some e))"
  by (simp_all add: accounts_visit_def)

lemma accounts_visit_collects:
  assumes "visit_rows (accounts_visit E keep) (map Inr rows) (as, None) = Inr (as', None)"
  shows "set as' = set as \<union> {a. \<exists>k v. (k, v) \<in> set rows \<and> is_account_record_key k \<and>
    account_decode (de_account E) v = Inr a \<and> keep a}"
  using assms
proof (induction rows arbitrary: as)
  case (Cons r rows)
  obtain k v where r: "r = (k, v)"
    by (cases r)
  show ?case
  proof (cases "is_account_record_key k")
    case False
    then have "visit_rows (accounts_visit E keep) (map Inr rows) (as, None) = Inr (as', None)"
      using Cons.prems by (simp add: r accounts_visit_steps)
    from Cons.IH [OF this] show ?thesis
      using False r by auto
  next
    case True
    then obtain a where a: "account_decode (de_account E) v = Inr a"
      using Cons.prems by (cases "account_decode (de_account E) v") (auto simp: r accounts_visit_steps)
    have "visit_rows (accounts_visit E keep) (map Inr rows) (if keep a then as @ [a] else as, None) = Inr (as', None)"
      using Cons.prems True a by (simp add: r accounts_visit_steps)
    from Cons.IH [OF this] show ?thesis
      using True a r by (auto split: if_splits)
  qed
qed simp

context kv_store
begin

lemma list_for_domain_complete:
  assumes "list_for_domain E S s p = Inr as" and "account_at E (content s) i = Some a" and "ac_domain_id a = p"
  shows "a \<in> set as"
proof -
  from assms(1) have v: "visit_rows (accounts_visit E (\<lambda>a. ac_domain_id a = p)) (st_iterate S s (prefix_subspace Registry))
      ([], None) = Inr (as, None)"
    by (auto simp: list_for_domain_def account_collect_def and_then_eq_Inr split: option.splits)
  from assms(2) obtain w where w: "content s (account_record_key i) = Some w" "account_decode (de_account E) w = Inr a"
    by (auto simp: account_at_def split: option.splits sum.splits)
  have "(account_record_key i, w) \<in> set (scan (content s) (prefix_encode (prefix_subspace Registry)) [])"
    using w(1) by (simp add: set_scan_content) (simp add: account_record_key_def)
  moreover have "is_account_record_key (account_record_key i)"
    by (simp add: is_account_record_key_def account_record_key_def)
  ultimately show ?thesis
    using accounts_visit_collects [OF iterate_visit [OF v]] w(2) assms(3) by blast
qed

text \<open>A domain that an account lives in is not deleted.\<close>

lemma domain_delete_spares_accounts:
  assumes "domain_delete E S p s = (Inr u, s')" and "account_at E (content s) i = Some a"
  shows "ac_domain_id a \<noteq> p"
proof
  assume "ac_domain_id a = p"
  moreover from assms(1) have "list_for_domain E S s p = Inr []"
    by (auto simp: domain_delete_def split: sum.splits if_splits)
  ultimately show False
    using list_for_domain_complete assms(2) by fastforce
qed

end

end
