(* ===== verification/Store_Services.thy ===== *)
theory Store_Services
  imports Store_Memory
begin

text \<open>
  Three small services of the store crate: quota accounting (\<open>quota.rs\<close>), the in-memory store of
  entries with a time to live (\<open>ttl.rs\<close>) and the persistent set of expiring keys
  (\<open>expiring.rs\<close>).
\<close>

section \<open>Quota\<close>

record quota_limits =
  ql_bytes :: u64
  ql_messages :: u64

definition UNLIMITED :: quota_limits where
  "UNLIMITED = \<lparr>ql_bytes = 0, ql_messages = 0\<rparr>"

definition is_bounded :: "quota_limits \<Rightarrow> bool" where
  "is_bounded l \<longleftrightarrow> ql_bytes l \<noteq> 0 \<or> ql_messages l \<noteq> 0"

record quota_usage =
  qu_bytes :: u64
  qu_messages :: u64

definition usage_fits :: "quota_usage \<Rightarrow> quota_limits \<Rightarrow> u64 \<Rightarrow> u64 \<Rightarrow> bool" where
  "usage_fits u l nbytes nmessages =
    (let bytes_ok = (ql_bytes l = 0 \<or> saturating_add (qu_bytes u) nbytes \<le> ql_bytes l);
         messages_ok = (ql_messages l = 0 \<or> saturating_add (qu_messages u) nmessages \<le> ql_messages l)
     in bytes_ok \<and> messages_ok)"

definition bytes_key :: "u32 \<Rightarrow> bytes" where
  "bytes_key a = key_encode (with_suffix ''b'' (key_new Counter a Email 0))"

definition messages_key :: "u32 \<Rightarrow> bytes" where
  "messages_key a = key_encode (with_suffix ''c'' (key_new Counter a Email 0))"

text \<open>\<open>counter.max(0) as u64\<close>.\<close>

definition max0 :: "i64 \<Rightarrow> u64" where
  "max0 n = (if sint n < 0 then 0 else n)"

definition quota_usage_of :: "'s store \<Rightarrow> 's \<Rightarrow> u32 \<Rightarrow> error + quota_usage" where
  "quota_usage_of S s a =
    and_then (st_counter S s (bytes_key a)) (\<lambda>b.
    and_then (st_counter S s (messages_key a)) (\<lambda>n.
      Inr \<lparr>qu_bytes = max0 b, qu_messages = max0 n\<rparr>))"

definition quota_fits :: "'s store \<Rightarrow> 's \<Rightarrow> u32 \<Rightarrow> quota_limits \<Rightarrow> u64 \<Rightarrow> u64 \<Rightarrow> error + bool" where
  "quota_fits S s a l nbytes nmessages =
    (if \<not> is_bounded l then Inr True
     else and_then (quota_usage_of S s a) (\<lambda>u. Inr (usage_fits u l nbytes nmessages)))"

definition quota_adjust :: "'s store \<Rightarrow> 's \<Rightarrow> u32 \<Rightarrow> i64 \<Rightarrow> i64 \<Rightarrow> (error + quota_usage) \<times> 's" where
  "quota_adjust S s a bytes_delta messages_delta =
    (case st_add_and_get S s (bytes_key a) bytes_delta of
       (Inl e, s') \<Rightarrow> (Inl e, s')
     | (Inr b, s') \<Rightarrow>
         (case st_add_and_get S s' (messages_key a) messages_delta of
            (Inl e, s'') \<Rightarrow> (Inl e, s'')
          | (Inr n, s'') \<Rightarrow> (Inr \<lparr>qu_bytes = max0 b, qu_messages = max0 n\<rparr>, s'')))"

definition adjust_ops :: "u32 \<Rightarrow> i64 \<Rightarrow> i64 \<Rightarrow> write_op list" where
  "adjust_ops a bytes_delta messages_delta =
    (if bytes_delta \<noteq> 0 then [Add_Op (bytes_key a) bytes_delta] else [])
    @ (if messages_delta \<noteq> 0 then [Add_Op (messages_key a) messages_delta] else [])"

section \<open>Entries with a time to live\<close>

text \<open>Instants are nanoseconds; every operation takes the instant at which it reads the clock.\<close>

record ttl_entry =
  te_value :: bytes
  te_expires_at :: nat

type_synonym ttl_store = "bytes \<Rightarrow> ttl_entry option"

definition is_expired :: "ttl_entry \<Rightarrow> nat \<Rightarrow> bool" where
  "is_expired e now \<longleftrightarrow> te_expires_at e \<le> now"

definition ttl_new :: ttl_store where
  "ttl_new = Map.empty"

definition ttl_set :: "nat \<Rightarrow> bytes \<Rightarrow> bytes \<Rightarrow> nat \<Rightarrow> ttl_store \<Rightarrow> ttl_store" where
  "ttl_set now k v ttl m = m(k \<mapsto> \<lparr>te_value = v, te_expires_at = now + ttl\<rparr>)"

definition ttl_get :: "nat \<Rightarrow> bytes \<Rightarrow> ttl_store \<Rightarrow> bytes option \<times> ttl_store" where
  "ttl_get now k m =
    (case m k of
       Some e \<Rightarrow> if is_expired e now then (None, m(k := None)) else (Some (te_value e), m)
     | None \<Rightarrow> (None, m))"

definition ttl_contains :: "nat \<Rightarrow> bytes \<Rightarrow> ttl_store \<Rightarrow> bool" where
  "ttl_contains now k m = (case m k of Some e \<Rightarrow> \<not> is_expired e now | None \<Rightarrow> False)"

definition ttl_remove :: "nat \<Rightarrow> bytes \<Rightarrow> ttl_store \<Rightarrow> bytes option \<times> ttl_store" where
  "ttl_remove now k m =
    (case m k of
       Some e \<Rightarrow> (if \<not> is_expired e now then Some (te_value e) else None, m(k := None))
     | None \<Rightarrow> (None, m(k := None)))"

definition ttl_len :: "ttl_store \<Rightarrow> nat" where
  "ttl_len m = card (dom m)"

definition ttl_is_empty :: "ttl_store \<Rightarrow> bool" where
  "ttl_is_empty m \<longleftrightarrow> ttl_len m = 0"

definition ttl_clear :: "ttl_store \<Rightarrow> ttl_store" where
  "ttl_clear m = Map.empty"

definition ttl_sweep :: "nat \<Rightarrow> ttl_store \<Rightarrow> nat \<times> ttl_store" where
  "ttl_sweep now m =
    (let m' = (\<lambda>k. case m k of Some e \<Rightarrow> if \<not> is_expired e now then Some e else None | None \<Rightarrow> None)
     in (ttl_len m - ttl_len m', m'))"

section \<open>Expiring keys\<close>

definition TAG_EXPIRING :: byte where
  "TAG_EXPIRING = CHR 0x40"

definition full_key :: "bytes \<Rightarrow> bytes" where
  "full_key k = [subspace_byte Registry, TAG_EXPIRING] @ k"

definition decode_expiry :: "bytes \<Rightarrow> u64 option" where
  "decode_expiry v = try_be64 v"

definition expiring_set_at :: "'s store \<Rightarrow> 's \<Rightarrow> bytes \<Rightarrow> u64 \<Rightarrow> u64 \<Rightarrow> (error + unit) \<times> 's" where
  "expiring_set_at S s k ttl now = st_put S s (full_key k) (be64 (saturating_add now ttl))"

definition expiring_contains_at :: "'s store \<Rightarrow> 's \<Rightarrow> bytes \<Rightarrow> u64 \<Rightarrow> error + bool" where
  "expiring_contains_at S s k now =
    and_then (st_get S s (full_key k))
      (\<lambda>v. case v of
         Some b \<Rightarrow> Inr (case decode_expiry b of Some expiry \<Rightarrow> now < expiry | None \<Rightarrow> False)
       | None \<Rightarrow> Inr False)"

text \<open>Rows of the scan start with the registry byte, so that the tail of a key is defined.\<close>

definition expired_visit :: "u64 \<Rightarrow> write_op list visitor" where
  "expired_visit now k v expired =
    (if length k < 2 \<or> k ! 1 \<noteq> TAG_EXPIRING then
       Inr (if [TAG_EXPIRING] < drop 1 k then Stop else Continue, expired)
     else if (case decode_expiry v of None \<Rightarrow> True | Some expiry \<Rightarrow> expiry \<le> now) then
       Inr (Continue, expired @ [Delete_Op k])
     else Inr (Continue, expired))"

definition sweep_expired_at :: "'s store \<Rightarrow> 's \<Rightarrow> u64 \<Rightarrow> (error + nat) \<times> 's" where
  "sweep_expired_at S s now =
    (case visit_rows (expired_visit now)
        (st_iterate_from S s (prefix_subspace Registry) [subspace_byte Registry, TAG_EXPIRING]) [] of
       Inl e \<Rightarrow> (Inl e, s)
     | Inr expired \<Rightarrow>
         if 0 < length expired then
           (case st_batch S s expired of
              (Inl e, s') \<Rightarrow> (Inl e, s')
            | (Inr _, s') \<Rightarrow> (Inr (length expired), s'))
         else (Inr (length expired), s))"

section \<open>What the services guarantee\<close>

lemma saturating_add_le:
  "saturating_add x y \<le> (l :: u64) \<longleftrightarrow> l = - 1 \<or> unat x + unat y \<le> unat l"
proof -
  have l: "unat l \<le> 2 ^ 64 - 1" "l = - 1 \<longleftrightarrow> unat l = 2 ^ 64 - 1"
    using unat_lt2p_bound [of l] unat_max_word [where 'a = 64] by (auto simp: word_unat_eq_iff)
  have "unat (saturating_add x y) = min (unat x + unat y) (2 ^ 64 - 1)"
    by (simp add: unat_saturating_add)
  then show ?thesis
    unfolding word_le_nat_alt l(2) using l(1) by (simp only:) linarith
qed

text \<open>
  The quota test is the arithmetic one: a delivery fits exactly when for both dimensions the
  limit is zero, which means none, or is the largest value, or the sum computed without overflow
  is at most the limit.
\<close>

theorem usage_fits_exact:
  "usage_fits u l b n \<longleftrightarrow>
    (ql_bytes l = 0 \<or> ql_bytes l = - 1 \<or> unat (qu_bytes u) + unat b \<le> unat (ql_bytes l)) \<and>
    (ql_messages l = 0 \<or> ql_messages l = - 1 \<or> unat (qu_messages u) + unat n \<le> unat (ql_messages l))"
  by (simp add: usage_fits_def saturating_add_le)

lemma quota_keys [simp]:
  "bytes_key a \<noteq> messages_key a'" "messages_key a \<noteq> bytes_key a'"
  "countable_key (bytes_key a)" "countable_key (messages_key a)"
  by (auto simp: bytes_key_def messages_key_def with_suffix_def key_new_def)
    (simp_all add: countable_key_def key_encode_def)

lemma counter_at_upd:
  "counter_at (m(k \<mapsto> le64 n)) k = Some n" "j \<noteq> k \<Longrightarrow> counter_at (m(j := v)) k = counter_at m k"
  by (simp_all add: counter_at_def)

lemma adjust_ops_effect:
  assumes "counter_at m (bytes_key a) = Some b" "counter_at m (messages_key a) = Some n"
  shows "\<exists>m'. ops_effect (adjust_ops a bd md) m = Some m' \<and> counter_at m' (bytes_key a) = Some (b + bd) \<and>
    counter_at m' (messages_key a) = Some (n + md) \<and>
    (\<forall>k. k \<noteq> bytes_key a \<longrightarrow> k \<noteq> messages_key a \<longrightarrow> m' k = m k)"
  using assms by (auto simp: adjust_ops_def counter_at_upd)

context kv_store
begin

lemma quota_adjust_effect:
  assumes "quota_adjust S s a bd md = (Inr u, s')"
  shows "\<exists>b n. counter_at (content s) (bytes_key a) = Some b \<and> counter_at (content s) (messages_key a) = Some n \<and>
    u = \<lparr>qu_bytes = max0 (b + bd), qu_messages = max0 (n + md)\<rparr> \<and>
    content s' = (content s)(bytes_key a \<mapsto> le64 (b + bd), messages_key a \<mapsto> le64 (n + md))"
proof -
  from assms obtain x s1 y where x: "st_add_and_get S s (bytes_key a) bd = (Inr x, s1)"
    and y: "st_add_and_get S s1 (messages_key a) md = (Inr y, s')"
    and u: "u = \<lparr>qu_bytes = max0 x, qu_messages = max0 y\<rparr>"
    by (auto simp: quota_adjust_def split: prod.splits sum.splits)
  show ?thesis
    using add_ok [OF x] add_ok [OF y] u by (auto simp: counter_at_upd)
qed

end

text \<open>
  C35. Quota in a batch and quota on its own agree: when \<open>adjust\<close> succeeds, a successful batch of
  \<open>adjust_ops\<close> from the same state leaves the same two counters, which are the old ones plus the
  deltas, and neither changes any other key.
\<close>

theorem adjust_ops_equivalent:
  assumes "rocksdb_laws R data"
    and "quota_adjust (rocksdb_store R elapsed) d a bd md = (Inr u, d1)"
    and "st_batch (rocksdb_store R elapsed) d (adjust_ops a bd md) = (Inr w, d2)"
  shows "counter_at (content_map (data d1)) (bytes_key a) = counter_at (content_map (data d2)) (bytes_key a) \<and>
    counter_at (content_map (data d1)) (messages_key a) = counter_at (content_map (data d2)) (messages_key a) \<and>
    (\<forall>k. k \<noteq> bytes_key a \<longrightarrow> k \<noteq> messages_key a \<longrightarrow>
      content_map (data d1) k = content_map (data d) k \<and> content_map (data d2) k = content_map (data d) k)"
proof -
  note kv = rocksdb_laws.store_contract [OF assms(1)]
  from kv_store.quota_adjust_effect [OF kv assms(2)] obtain b n
    where c: "counter_at (content_map (data d)) (bytes_key a) = Some b"
      "counter_at (content_map (data d)) (messages_key a) = Some n"
    and d1: "content_map (data d1) = (content_map (data d))
      (bytes_key a \<mapsto> le64 (b + bd), messages_key a \<mapsto> le64 (n + md))"
    by blast
  from adjust_ops_effect [OF c] obtain m' where m: "ops_effect (adjust_ops a bd md) (content_map (data d)) = Some m'"
    and m': "counter_at m' (bytes_key a) = Some (b + bd)" "counter_at m' (messages_key a) = Some (n + md)"
      "\<forall>k. k \<noteq> bytes_key a \<longrightarrow> k \<noteq> messages_key a \<longrightarrow> m' k = content_map (data d) k"
    by blast
  have "content_map (data d2) = m'"
    using kv_store.batch_ok [OF kv assms(3) m] .
  then show ?thesis
    using m' d1 by (simp add: counter_at_upd)
qed

lemma subspace_of_quota [simp]:
  "subspace_of (bytes_key a) = Inr Counter" "subspace_of (messages_key a) = Inr Counter"
  by (simp_all add: bytes_key_def messages_key_def)

theorem adjust_ops_equivalent_witness:
  "\<exists>d1 d2. quota_adjust mem_store [] 1 2048 1 = (Inr \<lparr>qu_bytes = 2048, qu_messages = 1\<rparr>, d1) \<and>
    st_batch mem_store [] (adjust_ops 1 2048 1) = (Inr (), d2) \<and>
    counter_at (content_map (mem_data d1)) (bytes_key 1) = counter_at (content_map (mem_data d2)) (bytes_key 1)"
proof -
  obtain d1 where d1: "quota_adjust mem_store [] 1 2048 1 = (Inr \<lparr>qu_bytes = 2048, qu_messages = 1\<rparr>, d1)"
    by (simp add: quota_adjust_def mem_store_writes mem_set_def max0_def)
  obtain d2 where d2: "st_batch mem_store [] (adjust_ops 1 2048 1) = (Inr (), d2)"
    by (simp add: mem_store_batch adjust_ops_def internal_def has_merge_operator_def counter_merge_def
        mem_data_def mem_set_def)
  show ?thesis
    using adjust_ops_equivalent [OF mem_laws d1 [unfolded mem_store_def] d2 [unfolded mem_store_def]] d1 d2 by blast
qed

text \<open>The live entries at an instant, the abstract state of a store with expiry.\<close>

definition ttl_view :: "ttl_store \<Rightarrow> nat \<Rightarrow> bytes \<Rightarrow> bytes option" where
  "ttl_view m t k = (case m k of Some e \<Rightarrow> if is_expired e t then None else Some (te_value e) | None \<Rightarrow> None)"

lemma ttl_view_set: "ttl_view (ttl_set now k v ttl m) t = (ttl_view m t)(k := if t < now + ttl then Some v else None)"
  by (rule ext) (simp add: ttl_view_def ttl_set_def is_expired_def)

lemma ttl_view_remove: "ttl_view (snd (ttl_remove now k m)) t = (ttl_view m t)(k := None)"
  by (cases "m k") (auto simp: ttl_view_def ttl_remove_def fun_eq_iff)

lemma ttl_get_view: "fst (ttl_get now k m) = ttl_view m now k"
  by (simp add: ttl_get_def ttl_view_def split: option.splits)

lemma ttl_view_get: "now \<le> t \<Longrightarrow> ttl_view (snd (ttl_get now k m)) t = ttl_view m t"
  by (rule ext) (auto simp: ttl_view_def ttl_get_def is_expired_def split: option.splits)

lemma ttl_view_sweep: "now \<le> t \<Longrightarrow> ttl_view (snd (ttl_sweep now m)) t = ttl_view m t"
  by (rule ext) (auto simp: ttl_view_def ttl_sweep_def is_expired_def Let_def split: option.splits)

text \<open>
  C23. The store with expiry implements the abstract map of live entries: reads, membership tests
  and removals return what is live at their instant; at every later instant a read and a sweep
  have changed nothing that is live, a removal has removed its key and nothing else, and a write
  is live exactly until its time to live has passed.
\<close>

theorem ttl_store_refines:
  assumes "now \<le> t"
  shows "fst (ttl_get now k m) = ttl_view m now k \<and>
    ttl_contains now k m = (ttl_view m now k \<noteq> None) \<and>
    fst (ttl_remove now k m) = ttl_view m now k \<and>
    ttl_view (snd (ttl_get now k m)) t = ttl_view m t \<and>
    ttl_view (snd (ttl_sweep now m)) t = ttl_view m t \<and>
    ttl_view (snd (ttl_remove now k m)) t = (ttl_view m t)(k := None) \<and>
    ttl_view (ttl_set now k v ttl m) t = (ttl_view m t)(k := if t < now + ttl then Some v else None)"
  using assms
  by (simp add: ttl_get_view ttl_view_get ttl_view_sweep ttl_view_remove ttl_view_set)
    (auto simp: ttl_contains_def ttl_remove_def ttl_view_def split: option.splits)

theorem ttl_store_refines_witness:
  "(10 :: nat) \<le> 20 \<and>
    fst (ttl_get 10 ''k'' (ttl_set 0 ''k'' ''v'' 15 ttl_new)) = Some ''v'' \<and>
    ttl_view (snd (ttl_sweep 10 (ttl_set 0 ''k'' ''v'' 15 ttl_new))) 20 = ttl_view (ttl_set 0 ''k'' ''v'' 15 ttl_new) 20"
  using ttl_store_refines [of 10 20 "''k''" "ttl_set 0 ''k'' ''v'' 15 ttl_new" "''v''" 0]
  by (simp add: ttl_view_def ttl_set_def is_expired_def)

section \<open>Sweeping expiring keys\<close>

lemma expired_rows:
  assumes "visit_rows (expired_visit now) (map Inr rows) es = Inr es'"
  shows "\<exists>ks. es' = es @ map Delete_Op ks \<and>
    (\<forall>k\<in>set ks. 2 \<le> length k \<and> k ! 1 = TAG_EXPIRING \<and>
      (\<exists>v. (k, v) \<in> set rows \<and> (\<forall>expiry. decode_expiry v = Some expiry \<longrightarrow> expiry \<le> now)))"
  using assms
proof (induction rows arbitrary: es)
  case (Cons r rows)
  obtain k v where r: "r = (k, v)"
    by (cases r)
  have "expired_visit now k v es = Inr (Stop, es) \<or> expired_visit now k v es = Inr (Continue, es) \<or>
    (expired_visit now k v es = Inr (Continue, es @ [Delete_Op k]) \<and> 2 \<le> length k \<and> k ! 1 = TAG_EXPIRING \<and>
      (\<forall>expiry. decode_expiry v = Some expiry \<longrightarrow> expiry \<le> now))"
    by (auto simp: expired_visit_def split: option.splits)
  then consider (stop) "expired_visit now k v es = Inr (Stop, es)" | (skip) "expired_visit now k v es = Inr (Continue, es)"
    | (drop) "expired_visit now k v es = Inr (Continue, es @ [Delete_Op k])" "2 \<le> length k" "k ! 1 = TAG_EXPIRING"
      "\<forall>expiry. decode_expiry v = Some expiry \<longrightarrow> expiry \<le> now"
    by blast
  then show ?case
  proof cases
    case stop
    then show ?thesis
      using Cons.prems r by (auto intro!: exI [of _ "[]"])
  next
    case skip
    then have "visit_rows (expired_visit now) (map Inr rows) es = Inr es'"
      using Cons.prems r by simp
    from Cons.IH [OF this] show ?thesis
      by (metis list.set_intros(2))
  next
    case drop
    then have "visit_rows (expired_visit now) (map Inr rows) (es @ [Delete_Op k]) = Inr es'"
      using Cons.prems r by simp
    from Cons.IH [OF this] obtain ks where "es' = (es @ [Delete_Op k]) @ map Delete_Op ks"
      "\<forall>k\<in>set ks. 2 \<le> length k \<and> k ! 1 = TAG_EXPIRING \<and>
        (\<exists>v. (k, v) \<in> set rows \<and> (\<forall>expiry. decode_expiry v = Some expiry \<longrightarrow> expiry \<le> now))"
      by blast
    then show ?thesis
      using drop(2-4) r by (intro exI [of _ "k # ks"]) auto
  qed
qed (auto intro!: exI [of _ "[]"])

text \<open>Whether the set holds a key at an instant, by its stored expiry.\<close>

definition expiring_live :: "content \<Rightarrow> bytes \<Rightarrow> u64 \<Rightarrow> bool" where
  "expiring_live m k t = (case Option.bind (m (full_key k)) decode_expiry of Some expiry \<Rightarrow> t < expiry | None \<Rightarrow> False)"

context kv_store
begin

lemma contains_at_live: "expiring_contains_at S s k t = Inr b \<Longrightarrow> b = expiring_live (content s) k t"
proof -
  assume c: "expiring_contains_at S s k t = Inr b"
  then obtain v where "st_get S s (full_key k) = Inr v"
    by (auto simp: expiring_contains_at_def and_then_eq_Inr)
  then show ?thesis
    using c get_ok [of s "full_key k" v]
    by (cases v) (simp_all add: expiring_contains_at_def expiring_live_def)
qed

lemma sweep_effect:
  assumes "sweep_expired_at S s now = (Inr n, s')"
  shows "\<exists>ks. content s' = (\<lambda>k. if k \<in> set ks then None else content s k) \<and>
    (\<forall>k\<in>set ks. (\<exists>j. k = full_key j) \<and>
      (\<exists>v. content s k = Some v \<and> (\<forall>expiry. decode_expiry v = Some expiry \<longrightarrow> expiry \<le> now)))"
proof -
  let ?rows = "scan (content s) (prefix_encode (prefix_subspace Registry)) [subspace_byte Registry, TAG_EXPIRING]"
  from assms obtain es where v: "visit_rows (expired_visit now)
      (st_iterate_from S s (prefix_subspace Registry) [subspace_byte Registry, TAG_EXPIRING]) [] = Inr es"
    by (auto simp: sweep_expired_at_def split: sum.splits)
  from expired_rows [OF iterate_from_visit [OF v]] obtain ks where es: "es = map Delete_Op ks"
    and ks: "\<forall>k\<in>set ks. 2 \<le> length k \<and> k ! 1 = TAG_EXPIRING \<and>
      (\<exists>v. (k, v) \<in> set ?rows \<and> (\<forall>expiry. decode_expiry v = Some expiry \<longrightarrow> expiry \<le> now))"
    by auto
  have c: "content s' = (\<lambda>k. if k \<in> set ks then None else content s k)"
  proof (cases "ks = []")
    case True
    then show ?thesis
      using assms v es by (auto simp: sweep_expired_at_def)
  next
    case False
    then obtain u where "st_batch S s (map Delete_Op ks) = (Inr u, s')"
      using assms v es by (auto simp: sweep_expired_at_def split: sum.splits prod.splits)
    then show ?thesis
      by (rule batch_ok) (rule ops_effect_deletes)
  qed
  have "\<exists>j. k = full_key j" if "k \<in> set ks" for k
  proof -
    have "prefix [subspace_byte Registry] k" "2 \<le> length k" "k ! 1 = TAG_EXPIRING"
      using ks that by (auto simp: set_scan_content)
    then show ?thesis
      by (cases k; cases "tl k") (auto simp: full_key_def)
  qed
  then show ?thesis
    using c ks by (intro exI [of _ ks]) (auto simp: set_scan_content)
qed

end

text \<open>
  C36. Sweeping removes only what has expired: after a successful sweep at an instant, every key
  is held at that instant and at every later one exactly as before, and no key outside the
  expiring set has changed.
\<close>

theorem sweep_keeps_live:
  assumes "rocksdb_laws R data"
    and "sweep_expired_at (rocksdb_store R elapsed) d now = (Inr n, d')" and "now \<le> t"
  shows "expiring_live (content_map (data d')) k t = expiring_live (content_map (data d)) k t \<and>
    ((\<nexists>k'. j = full_key k') \<longrightarrow> content_map (data d') j = content_map (data d) j)"
proof -
  note kv = rocksdb_laws.store_contract [OF assms(1)]
  from kv_store.sweep_effect [OF kv assms(2)] obtain ks
    where m: "content_map (data d') = (\<lambda>k. if k \<in> set ks then None else content_map (data d) k)"
    and ks: "\<forall>k\<in>set ks. (\<exists>j. k = full_key j) \<and>
      (\<exists>v. content_map (data d) k = Some v \<and> (\<forall>expiry. decode_expiry v = Some expiry \<longrightarrow> expiry \<le> now))"
    by blast
  have "\<not> expiring_live (content_map (data d)) k t" if "full_key k \<in> set ks"
    using ks that assms(3) by (fastforce simp: expiring_live_def split: option.splits)
  then show ?thesis
    using m ks by (auto simp: expiring_live_def)
qed

theorem sweep_keeps_live_witness:
  "\<exists>d'. sweep_expired_at mem_store [((Registry, full_key ''a''), be64 5), ((Registry, full_key ''b''), be64 50)] 10
      = (Inr 1, d') \<and>
    expiring_live (content_map (mem_data d')) ''b'' 20"
proof -
  let ?d = "[((Registry, full_key ''a''), be64 5), ((Registry, full_key ''b''), be64 50)]"
  have sub: "subspace_of (full_key k) = Inr Registry" "subspace_of [subspace_byte Registry] = Inr Registry" for k
    by (simp_all add: full_key_def del: subspace_byte.simps)
  have v: "visit_rows (expired_visit 10) (st_iterate_from mem_store ?d (prefix_subspace Registry)
      [subspace_byte Registry, TAG_EXPIRING]) [] = Inr [Delete_Op (full_key ''a'')]"
    by (simp add: mem_store_reads sub [simplified] mem_rows_def full_key_def
        expired_visit_def decode_expiry_def byte_less_iff le_less)
  obtain d' where b: "st_batch mem_store ?d [Delete_Op (full_key ''a'')] = (Inr (), d')"
    by (simp add: mem_store_batch internal_def sub)
  have e: "sweep_expired_at mem_store ?d 10 = (Inr 1, d')"
    using v b by (simp add: sweep_expired_at_def)
  have "expiring_live (content_map (mem_data ?d)) ''b'' 20"
    by (simp add: expiring_live_def content_map_def sub mem_data_def decode_expiry_def) (simp add: full_key_def)
  then show ?thesis
    using sweep_keeps_live [OF mem_laws e [unfolded mem_store_def], of 20 "''b''"] e by auto
qed

end
