(* ===== verification/Directory_Login.thy ===== *)
theory Directory_Login
  imports Directory_Accounts Store_Services
begin

text \<open>
  Logging in (\<open>crates/directory/src\<close>: \<open>password.rs\<close>, \<open>credential_registry.rs\<close>, \<open>authenticate.rs\<close>,
  \<open>throttle.rs\<close>, \<open>login.rs\<close>).  The password hash is library code and a parameter.  The throttle
  counts failures in the store with expiry; every access to that store reads the clock, so the
  clock is a parameter too, the instants of successive readings, and the throttle's state counts
  the readings.
\<close>

section \<open>Passwords\<close>

datatype argon_result = Argon_Ok | Argon_Password | Argon_Error bytes

text \<open>\<open>PasswordHash::new\<close> and \<open>Argon2::verify_password\<close>; parse errors are their messages.\<close>

record 'h argon2 =
  ar_parse :: "bytes \<Rightarrow> bytes + 'h"
  ar_verify :: "bytes \<Rightarrow> 'h \<Rightarrow> argon_result"

definition password_verify :: "'h argon2 \<Rightarrow> bytes \<Rightarrow> bytes \<Rightarrow> error + bool" where
  "password_verify A password stored =
    (case ar_parse A stored of
       Inl err \<Rightarrow> Inl (Internal_Error (''stored password hash is malformed: '' @ err))
     | Inr parsed \<Rightarrow>
         (case ar_verify A password parsed of
            Argon_Ok \<Rightarrow> Inr True
          | Argon_Password \<Rightarrow> Inr False
          | Argon_Error err \<Rightarrow> Inl (Internal_Error (''password verification failed: '' @ err))))"

definition app_password_verify :: "'h argon2 \<Rightarrow> bytes \<Rightarrow> app_password \<Rightarrow> error + bool" where
  "app_password_verify A candidate r = password_verify A candidate (ap_hash r)"

section \<open>Stored credentials\<close>

definition TAG_CREDENTIAL :: byte where
  "TAG_CREDENTIAL = CHR 0x22"

definition credential_key :: "u64 \<Rightarrow> bytes" where
  "credential_key account_id = [subspace_byte Registry, TAG_CREDENTIAL] @ be64 account_id"

definition credentials_encode :: "credential list json \<Rightarrow> credential list \<Rightarrow> error + bytes" where
  "credentials_encode J cs = json_encode J ''credentials'' cs"

definition credentials_decode :: "credential list json \<Rightarrow> bytes \<Rightarrow> error + credential list" where
  "credentials_decode J v = json_decode J ''credentials'' v"

definition credentials_list :: "credential list json \<Rightarrow> 's store \<Rightarrow> 's \<Rightarrow> u64 \<Rightarrow> error + credential list" where
  "credentials_list J S s account_id =
    and_then (st_get S s (credential_key account_id))
      (\<lambda>v. case v of Some b \<Rightarrow> credentials_decode J b | None \<Rightarrow> Inr [])"

definition credentials_write ::
  "credential list json \<Rightarrow> 's store \<Rightarrow> u64 \<Rightarrow> credential list \<Rightarrow> 's \<Rightarrow> (error + unit) \<times> 's" where
  "credentials_write J S account_id cs s =
    (let k = credential_key account_id in
     if cs = [] then st_batch S s [Delete_Op k]
     else case credentials_encode J cs of
       Inl e \<Rightarrow> (Inl e, s)
     | Inr v \<Rightarrow> st_batch S s [Set_Op k v])"

definition is_primary :: "credential \<Rightarrow> bool" where
  "is_primary c = (case c of Primary_Credential _ \<Rightarrow> True | _ \<Rightarrow> False)"

definition is_totp :: "credential \<Rightarrow> bool" where
  "is_totp c = (case c of Totp_Credential _ \<Rightarrow> True | _ \<Rightarrow> False)"

text \<open>\<open>updated_at\<close> is the generator's time, an argument here.\<close>

definition set_primary_password ::
  "credential list json \<Rightarrow> 's store \<Rightarrow> u64 \<Rightarrow> u64 \<Rightarrow> bytes \<Rightarrow> 's \<Rightarrow> (error + unit) \<times> 's" where
  "set_primary_password J S now_ms account_id hash s =
    (case credentials_list J S s account_id of
       Inl e \<Rightarrow> (Inl e, s)
     | Inr cs \<Rightarrow>
         credentials_write J S account_id
           (filter (\<lambda>c. \<not> is_primary c) cs @ [Primary_Credential \<lparr>pp_hash = hash, pp_updated_at = now_ms\<rparr>]) s)"

definition add_app_password ::
  "credential list json \<Rightarrow> 's store \<Rightarrow> u64 \<Rightarrow> app_password \<Rightarrow> 's \<Rightarrow> (error + unit) \<times> 's" where
  "add_app_password J S account_id r s =
    (case credentials_list J S s account_id of
       Inl e \<Rightarrow> (Inl e, s)
     | Inr cs \<Rightarrow> credentials_write J S account_id (cs @ [App_Credential r]) s)"

definition list_app_passwords ::
  "credential list json \<Rightarrow> 's store \<Rightarrow> 's \<Rightarrow> u64 \<Rightarrow> error + app_password list" where
  "list_app_passwords J S s account_id =
    and_then (credentials_list J S s account_id)
      (\<lambda>cs. Inr (List.map_filter (\<lambda>c. case c of App_Credential r \<Rightarrow> Some r | _ \<Rightarrow> None) cs))"

definition revoke_app_password ::
  "credential list json \<Rightarrow> 's store \<Rightarrow> u64 \<Rightarrow> u64 \<Rightarrow> 's \<Rightarrow> (error + bool) \<times> 's" where
  "revoke_app_password J S account_id i s =
    (case credentials_list J S s account_id of
       Inl e \<Rightarrow> (Inl e, s)
     | Inr cs \<Rightarrow>
         (let kept = filter (\<lambda>c. \<not> (case c of App_Credential r \<Rightarrow> ap_id r = i | _ \<Rightarrow> False)) cs in
          if length kept = length cs then (Inr False, s)
          else case credentials_write J S account_id kept s of
            (Inl e, s') \<Rightarrow> (Inl e, s')
          | (Inr _, s') \<Rightarrow> (Inr True, s')))"

definition set_totp :: "credential list json \<Rightarrow> 's store \<Rightarrow> u64 \<Rightarrow> totp \<Rightarrow> 's \<Rightarrow> (error + unit) \<times> 's" where
  "set_totp J S account_id t s =
    (case credentials_list J S s account_id of
       Inl e \<Rightarrow> (Inl e, s)
     | Inr cs \<Rightarrow>
         credentials_write J S account_id (filter (\<lambda>c. \<not> is_totp c) cs @ [Totp_Credential t]) s)"

definition clear_totp :: "credential list json \<Rightarrow> 's store \<Rightarrow> u64 \<Rightarrow> 's \<Rightarrow> (error + unit) \<times> 's" where
  "clear_totp J S account_id s =
    (case credentials_list J S s account_id of
       Inl e \<Rightarrow> (Inl e, s)
     | Inr cs \<Rightarrow>
         (let kept = filter (\<lambda>c. \<not> is_totp c) cs in
          if length kept \<noteq> length cs then credentials_write J S account_id kept s
          else (Inr (), s)))"

definition credentials_remove_all :: "'s store \<Rightarrow> u64 \<Rightarrow> 's \<Rightarrow> (error + unit) \<times> 's" where
  "credentials_remove_all S account_id s = st_batch S s [Delete_Op (credential_key account_id)]"

section \<open>Checking a secret\<close>

datatype login_purpose = Interactive | Mail_Purpose

definition allows_app_password :: "login_purpose \<Rightarrow> bool" where
  "allows_app_password p \<longleftrightarrow> p = Mail_Purpose"

datatype authenticated_by = By_Primary bool | By_App u64

definition by_mfa_required :: "authenticated_by \<Rightarrow> bool" where
  "by_mfa_required b \<longleftrightarrow> b = By_Primary True"

datatype authentication = Auth_Granted authenticated_by | Auth_Denied

definition auth_is_granted :: "authentication \<Rightarrow> bool" where
  "auth_is_granted a = (case a of Auth_Granted _ \<Rightarrow> True | Auth_Denied \<Rightarrow> False)"

definition auth_granted_by :: "authentication \<Rightarrow> authenticated_by option" where
  "auth_granted_by a = (case a of Auth_Granted b \<Rightarrow> Some b | Auth_Denied \<Rightarrow> None)"

definition has_enabled_totp :: "credential list \<Rightarrow> bool" where
  "has_enabled_totp cs = list_ex (\<lambda>c. case c of Totp_Credential t \<Rightarrow> tt_enabled t | _ \<Rightarrow> False) cs"

fun authenticate_loop ::
  "'h argon2 \<Rightarrow> credential list \<Rightarrow> login_purpose \<Rightarrow> bytes \<Rightarrow> authenticated_by option \<Rightarrow> credential list
    \<Rightarrow> error + authenticated_by option" where
  "authenticate_loop A all purpose secret matched [] = Inr matched"
| "authenticate_loop A all purpose secret matched (Primary_Credential p # cs) =
    and_then (password_verify A secret (pp_hash p)) (\<lambda>ok.
      authenticate_loop A all purpose secret
        (if ok \<and> matched = None
         then Some (By_Primary (purpose = Interactive \<and> has_enabled_totp all)) else matched) cs)"
| "authenticate_loop A all purpose secret matched (App_Credential r # cs) =
    (if allows_app_password purpose then
       and_then (app_password_verify A secret r) (\<lambda>ok.
         authenticate_loop A all purpose secret (if ok \<and> matched = None then Some (By_App (ap_id r)) else matched) cs)
     else authenticate_loop A all purpose secret matched cs)"
| "authenticate_loop A all purpose secret matched (Totp_Credential t # cs) =
    authenticate_loop A all purpose secret matched cs"
| "authenticate_loop A all purpose secret matched (Api_Credential k # cs) =
    authenticate_loop A all purpose secret matched cs"

definition authenticate ::
  "'h argon2 \<Rightarrow> account \<Rightarrow> credential list \<Rightarrow> login_purpose \<Rightarrow> bytes \<Rightarrow> error + authentication" where
  "authenticate A a cs purpose secret =
    (if \<not> account_is_active a then Inr Auth_Denied
     else and_then (authenticate_loop A cs purpose secret None cs) (\<lambda>matched.
       Inr (case matched of Some b \<Rightarrow> Auth_Granted b | None \<Rightarrow> Auth_Denied)))"

section \<open>Throttling\<close>

definition THROTTLE_KEY_PREFIX :: bytes where
  "THROTTLE_KEY_PREFIX = ''auth-throttle:''"

definition SUBJECT_IP :: bytes where
  "SUBJECT_IP = ''ip:''"

definition SUBJECT_ACCOUNT :: bytes where
  "SUBJECT_ACCOUNT = ''account:''"

definition DEFAULT_MAX_FAILURES :: u32 where
  "DEFAULT_MAX_FAILURES = 5"

text \<open>Durations are nanoseconds.\<close>

definition DEFAULT_WINDOW :: nat where
  "DEFAULT_WINDOW = 15 * 60 * 1000000000"

record throttle_policy =
  tp_max_failures :: u32
  tp_window :: nat

definition policy_new :: "u32 \<Rightarrow> nat \<Rightarrow> throttle_policy" where
  "policy_new max_failures window = \<lparr>tp_max_failures = max max_failures 1, tp_window = window\<rparr>"

definition policy_default :: throttle_policy where
  "policy_default = \<lparr>tp_max_failures = DEFAULT_MAX_FAILURES, tp_window = DEFAULT_WINDOW\<rparr>"

definition throttle_ip_key :: "bytes \<Rightarrow> bytes" where
  "throttle_ip_key ip = THROTTLE_KEY_PREFIX @ SUBJECT_IP @ ip"

definition throttle_account_key :: "u64 \<Rightarrow> bytes" where
  "throttle_account_key account_id = THROTTLE_KEY_PREFIX @ SUBJECT_ACCOUNT @ be64 account_id"

record throttle =
  th_store :: ttl_store
  th_ticks :: nat

definition throttle_count :: "(nat \<Rightarrow> nat) \<Rightarrow> bytes \<Rightarrow> throttle \<Rightarrow> u32 \<times> throttle" where
  "throttle_count clock k T =
    (case ttl_get (clock (th_ticks T)) k (th_store T) of
       (v, m) \<Rightarrow>
         (case Option.bind v try_be32 of Some n \<Rightarrow> n | None \<Rightarrow> 0,
          \<lparr>th_store = m, th_ticks = th_ticks T + 1\<rparr>))"

definition throttle_bump :: "throttle_policy \<Rightarrow> (nat \<Rightarrow> nat) \<Rightarrow> bytes \<Rightarrow> throttle \<Rightarrow> throttle" where
  "throttle_bump P clock k T =
    (case throttle_count clock k T of
       (n, T') \<Rightarrow>
         \<lparr>th_store = ttl_set (clock (th_ticks T')) k (be32 (saturating_add n 1)) (tp_window P) (th_store T'),
          th_ticks = th_ticks T' + 1\<rparr>)"

definition throttle_remove :: "(nat \<Rightarrow> nat) \<Rightarrow> bytes \<Rightarrow> throttle \<Rightarrow> throttle" where
  "throttle_remove clock k T =
    \<lparr>th_store = snd (ttl_remove (clock (th_ticks T)) k (th_store T)), th_ticks = th_ticks T + 1\<rparr>"

definition record_failure ::
  "throttle_policy \<Rightarrow> (nat \<Rightarrow> nat) \<Rightarrow> bytes option \<Rightarrow> u64 option \<Rightarrow> throttle \<Rightarrow> throttle" where
  "record_failure P clock ip account_id T =
    (let T1 = (case ip of Some ip \<Rightarrow> throttle_bump P clock (throttle_ip_key ip) T | None \<Rightarrow> T) in
     case account_id of Some i \<Rightarrow> throttle_bump P clock (throttle_account_key i) T1 | None \<Rightarrow> T1)"

definition record_success ::
  "(nat \<Rightarrow> nat) \<Rightarrow> bytes option \<Rightarrow> u64 option \<Rightarrow> throttle \<Rightarrow> throttle" where
  "record_success clock ip account_id T =
    (let T1 = (case ip of Some ip \<Rightarrow> throttle_remove clock (throttle_ip_key ip) T | None \<Rightarrow> T) in
     case account_id of Some i \<Rightarrow> throttle_remove clock (throttle_account_key i) T1 | None \<Rightarrow> T1)"

definition subject_locked ::
  "throttle_policy \<Rightarrow> (nat \<Rightarrow> nat) \<Rightarrow> bytes option \<Rightarrow> throttle \<Rightarrow> bool \<times> throttle" where
  "subject_locked P clock key T =
    (case key of
       Some k \<Rightarrow> (case throttle_count clock k T of (n, T') \<Rightarrow> (tp_max_failures P \<le> n, T'))
     | None \<Rightarrow> (False, T))"

definition is_locked ::
  "throttle_policy \<Rightarrow> (nat \<Rightarrow> nat) \<Rightarrow> bytes option \<Rightarrow> u64 option \<Rightarrow> throttle \<Rightarrow> bool \<times> throttle" where
  "is_locked P clock ip account_id T =
    (case subject_locked P clock (map_option throttle_ip_key ip) T of
       (ip_locked, T1) \<Rightarrow>
         (case subject_locked P clock (map_option throttle_account_key account_id) T1 of
            (account_locked, T2) \<Rightarrow> (ip_locked \<or> account_locked, T2)))"

section \<open>The login\<close>

record 'h login_env =
  le_directory :: directory_env
  le_credentials :: "credential list json"
  le_argon :: "'h argon2"
  le_policy :: throttle_policy
  le_clock :: "nat \<Rightarrow> nat"

datatype login_attempt = Granted account authenticated_by | Denied | Throttled

definition login_resolve :: "directory_env \<Rightarrow> 's store \<Rightarrow> 's \<Rightarrow> bytes \<Rightarrow> error + account option" where
  "login_resolve E S s username =
    (case rsplit_once (\<lambda>c. c = CHR ''@'') username of
       None \<Rightarrow> Inr None
     | Some (local_part, domain_name) \<Rightarrow>
         and_then (domain_get_by_name (de_domain E) S s domain_name) (\<lambda>found.
           case found of
             None \<Rightarrow> Inr None
           | Some d \<Rightarrow> get_by_address E S s local_part (dm_id d)))"

text \<open>\<open>verify_dummy\<close> only spends time.\<close>

definition attempt_login ::
  "'h login_env \<Rightarrow> 's store \<Rightarrow> 's \<Rightarrow> bytes option \<Rightarrow> bytes \<Rightarrow> bytes \<Rightarrow> login_purpose \<Rightarrow> throttle
    \<Rightarrow> (error + login_attempt) \<times> throttle" where
  "attempt_login L S s ip username secret purpose T =
    (case is_locked (le_policy L) (le_clock L) ip None T of
       (True, T1) \<Rightarrow> (Inr Throttled, T1)
     | (False, T1) \<Rightarrow>
         (case login_resolve (le_directory L) S s username of
            Inl e \<Rightarrow> (Inl e, T1)
          | Inr None \<Rightarrow> (Inr Denied, record_failure (le_policy L) (le_clock L) ip None T1)
          | Inr (Some a) \<Rightarrow>
              (case is_locked (le_policy L) (le_clock L) ip (Some (ac_id a)) T1 of
                 (True, T2) \<Rightarrow> (Inr Throttled, T2)
               | (False, T2) \<Rightarrow>
                   (case credentials_list (le_credentials L) S s (ac_id a) of
                      Inl e \<Rightarrow> (Inl e, T2)
                    | Inr stored \<Rightarrow>
                        (case authenticate (le_argon L) a stored purpose secret of
                           Inl e \<Rightarrow> (Inl e, T2)
                         | Inr (Auth_Granted b) \<Rightarrow>
                             (Inr (Granted a b), record_success (le_clock L) ip (Some (ac_id a)) T2)
                         | Inr Auth_Denied \<Rightarrow>
                             (Inr Denied, record_failure (le_policy L) (le_clock L) ip (Some (ac_id a)) T2))))))"

text \<open>A sequence of attempts of one client on one user name.\<close>

fun login_attempts ::
  "'h login_env \<Rightarrow> 's store \<Rightarrow> 's \<Rightarrow> bytes option \<Rightarrow> bytes \<Rightarrow> login_purpose \<Rightarrow> bytes list \<Rightarrow> throttle
    \<Rightarrow> (error + login_attempt) list" where
  "login_attempts L S s ip username purpose [] T = []"
| "login_attempts L S s ip username purpose (secret # secrets) T =
    (case attempt_login L S s ip username secret purpose T of
       (r, T') \<Rightarrow> r # login_attempts L S s ip username purpose secrets T')"

section \<open>Counting failures\<close>

definition throttle_level :: "throttle \<Rightarrow> bytes \<Rightarrow> nat \<Rightarrow> u32" where
  "throttle_level T k t = (case Option.bind (ttl_view (th_store T) t k) try_be32 of Some n \<Rightarrow> n | None \<Rightarrow> 0)"

text \<open>From the next reading of the clock until \<open>hi\<close> the counters are \<open>f\<close>.\<close>

definition steady :: "(nat \<Rightarrow> nat) \<Rightarrow> nat \<Rightarrow> throttle \<Rightarrow> (bytes \<Rightarrow> u32) \<Rightarrow> bool" where
  "steady clock hi T f \<longleftrightarrow> (\<forall>k t. clock (th_ticks T) \<le> t \<longrightarrow> t < hi \<longrightarrow> throttle_level T k t = f k)"

lemma throttle_keys [simp]:
  "throttle_ip_key ip \<noteq> throttle_account_key i" "throttle_account_key i \<noteq> throttle_ip_key ip"
  by (simp_all add: throttle_ip_key_def throttle_account_key_def SUBJECT_IP_def SUBJECT_ACCOUNT_def)

lemma throttle_count_steady:
  assumes "mono clock" and "\<forall>i. clock i < hi" and "steady clock hi T f"
  shows "\<exists>T'. throttle_count clock k T = (f k, T') \<and> steady clock hi T' f \<and> th_ticks T' = th_ticks T + 1"
proof -
  obtain v m where g: "ttl_get (clock (th_ticks T)) k (th_store T) = (v, m)"
    by (cases "ttl_get (clock (th_ticks T)) k (th_store T)")
  have "v = ttl_view (th_store T) (clock (th_ticks T)) k"
    using ttl_get_view [of "clock (th_ticks T)" k "th_store T"] g by simp
  then have n: "(case Option.bind v try_be32 of Some n \<Rightarrow> n | None \<Rightarrow> 0) = f k"
    using assms(2,3) by (simp add: steady_def throttle_level_def)
  have "ttl_view m t = ttl_view (th_store T) t" if "clock (th_ticks T) \<le> t" for t
    using ttl_view_get [OF that, of k "th_store T"] g by simp
  moreover have "clock (th_ticks T) \<le> t" if "clock (th_ticks T + 1) \<le> t" for t
    using monoD [OF assms(1), of "th_ticks T" "th_ticks T + 1"] that by simp
  ultimately have "steady clock hi \<lparr>th_store = m, th_ticks = th_ticks T + 1\<rparr> f"
    using assms(3) by (simp add: steady_def throttle_level_def)
  then show ?thesis
    using g n by (simp add: throttle_count_def)
qed

lemma throttle_bump_steady:
  assumes "mono clock" and "\<forall>i. clock i < hi" and "hi \<le> clock (th_ticks T) + tp_window P" and "steady clock hi T f"
  shows "steady clock hi (throttle_bump P clock k T) (f(k := saturating_add (f k) 1)) \<and>
    th_ticks (throttle_bump P clock k T) = th_ticks T + 2"
proof -
  from throttle_count_steady [OF assms(1,2,4), of k] obtain T'
    where c: "throttle_count clock k T = (f k, T')" and T': "steady clock hi T' f" "th_ticks T' = th_ticks T + 1"
    by blast
  have m: "clock (th_ticks T) \<le> clock (th_ticks T + 1)" "clock (th_ticks T + 1) \<le> clock (th_ticks T + 2)"
    using assms(1) by (simp_all add: monoD)
  have "t < clock (th_ticks T + 1) + tp_window P" if "t < hi" for t
    using m(1) assms(3) that by linarith
  then have "steady clock hi (throttle_bump P clock k T) (f(k := saturating_add (f k) 1))"
    using T' c m(2)
    by (auto simp: steady_def throttle_bump_def throttle_level_def ttl_view_set)
  then show ?thesis
    using c T'(2) by (simp add: throttle_bump_def)
qed

definition bumped :: "bytes option \<Rightarrow> (bytes \<Rightarrow> u32) \<Rightarrow> bytes \<Rightarrow> u32" where
  "bumped k f = (case k of Some k \<Rightarrow> f(k := saturating_add (f k) 1) | None \<Rightarrow> f)"

lemma record_failure_steady:
  assumes "mono clock" and "\<forall>i. clock i < hi" and "hi \<le> clock (th_ticks T) + tp_window P" and "steady clock hi T f"
  shows "steady clock hi (record_failure P clock ip account_id T)
      (bumped (map_option throttle_account_key account_id) (bumped (map_option throttle_ip_key ip) f)) \<and>
    th_ticks T \<le> th_ticks (record_failure P clock ip account_id T)"
proof -
  define T1 where "T1 = (case ip of Some ip \<Rightarrow> throttle_bump P clock (throttle_ip_key ip) T | None \<Rightarrow> T)"
  have T1: "steady clock hi T1 (bumped (map_option throttle_ip_key ip) f)" "th_ticks T \<le> th_ticks T1"
    using throttle_bump_steady [OF assms] assms(4) by (auto simp: T1_def bumped_def split: option.splits)
  have "hi \<le> clock (th_ticks T1) + tp_window P"
    using monoD [OF assms(1) T1(2)] assms(3) by linarith
  from throttle_bump_steady [OF assms(1,2) this T1(1)] T1 show ?thesis
    by (auto simp: record_failure_def T1_def [symmetric] bumped_def Let_def split: option.splits)
qed

lemma subject_locked_steady:
  assumes "mono clock" and "\<forall>i. clock i < hi" and "steady clock hi T f"
  shows "\<exists>T'. subject_locked P clock key T = ((case key of Some k \<Rightarrow> tp_max_failures P \<le> f k | None \<Rightarrow> False), T') \<and>
    steady clock hi T' f \<and> th_ticks T \<le> th_ticks T'"
proof (cases key)
  case (Some k)
  from throttle_count_steady [OF assms, of k] obtain T'
    where "throttle_count clock k T = (f k, T')" "steady clock hi T' f" "th_ticks T' = th_ticks T + 1"
    by blast
  then show ?thesis
    using Some by (simp add: subject_locked_def)
qed (use assms(3) in \<open>simp add: subject_locked_def\<close>)

lemma is_locked_steady:
  assumes "mono clock" and "\<forall>i. clock i < hi" and "steady clock hi T f"
  shows "\<exists>T'. is_locked P clock ip account_id T =
      ((case ip of Some ip \<Rightarrow> tp_max_failures P \<le> f (throttle_ip_key ip) | None \<Rightarrow> False) \<or>
       (case account_id of Some i \<Rightarrow> tp_max_failures P \<le> f (throttle_account_key i) | None \<Rightarrow> False), T') \<and>
    steady clock hi T' f \<and> th_ticks T \<le> th_ticks T'"
proof -
  from subject_locked_steady [OF assms, of P "map_option throttle_ip_key ip"] obtain T1
    where 1: "subject_locked P clock (map_option throttle_ip_key ip) T =
      ((case ip of Some ip \<Rightarrow> tp_max_failures P \<le> f (throttle_ip_key ip) | None \<Rightarrow> False), T1)"
      "steady clock hi T1 f" "th_ticks T \<le> th_ticks T1"
    by (auto split: option.splits)
  from subject_locked_steady [OF assms(1,2) 1(2), of P "map_option throttle_account_key account_id"] 1(3) show ?thesis
    by (cases account_id; auto simp: is_locked_def 1(1))
qed

text \<open>The counters after \<open>n\<close> failures of one client on one account.\<close>

definition counted :: "bytes option \<Rightarrow> u64 \<Rightarrow> nat \<Rightarrow> (bytes \<Rightarrow> u32) \<Rightarrow> bool" where
  "counted ip i n f \<longleftrightarrow>
    f (throttle_account_key i) = of_nat n \<and> (\<forall>p. ip = Some p \<longrightarrow> f (throttle_ip_key p) = of_nat n)"

lemma counted_bumped:
  assumes "counted ip i n f" and "n < unat (w :: u32)"
  shows "counted ip i (n + 1) (bumped (Some (throttle_account_key i)) (bumped (map_option throttle_ip_key ip) f))"
proof -
  have n: "n + 1 < 2 ^ 32"
    using assms(2) unat_lt2p_bound [of w] by simp
  then have "unat (of_nat n :: u32) = n"
    by (simp add: unat_of_nat)
  then have "unat (of_nat n :: u32) + unat (1 :: u32) < 2 ^ LENGTH(32)"
    using n by simp
  then have "saturating_add (of_nat n) 1 = (of_nat (n + 1) :: u32)"
    by (simp only: saturating_add_def if_True of_nat_add of_nat_1)
  then show ?thesis
    using assms(1) by (cases ip) (auto simp: counted_def bumped_def)
qed

lemma counted_locked:
  assumes "counted ip i n f" and "n \<le> unat (w :: u32)"
  shows "w \<le> f (throttle_account_key i) \<longleftrightarrow> n = unat w"
    and "ip = Some p \<Longrightarrow> w \<le> f (throttle_ip_key p) \<longleftrightarrow> n = unat w"
proof -
  have "unat (of_nat n :: u32) = n"
    using assms(2) unat_lt2p_bound [of w] by (simp add: unat_of_nat)
  then have "w \<le> of_nat n \<longleftrightarrow> n = unat w"
    using assms(2) by (auto simp: word_le_nat_alt)
  then show "w \<le> f (throttle_account_key i) \<longleftrightarrow> n = unat w"
    and "ip = Some p \<Longrightarrow> w \<le> f (throttle_ip_key p) \<longleftrightarrow> n = unat w"
    using assms(1) by (auto simp: counted_def)
qed

lemma attempt_login_counted:
  assumes "mono (le_clock L)" and "\<forall>i. le_clock L i < hi" and "hi \<le> le_clock L (th_ticks T) + tp_window (le_policy L)"
    and "steady (le_clock L) hi T f" and "counted ip (ac_id a) n f" and "n \<le> unat (tp_max_failures (le_policy L))"
    and "login_resolve (le_directory L) S s username = Inr (Some a)"
    and "credentials_list (le_credentials L) S s (ac_id a) = Inr cs"
    and "n < unat (tp_max_failures (le_policy L)) \<Longrightarrow> authenticate (le_argon L) a cs purpose secret = Inr Auth_Denied"
  shows "\<exists>T' f'. attempt_login L S s ip username secret purpose T =
      (Inr (if n < unat (tp_max_failures (le_policy L)) then Denied else Throttled), T') \<and>
    steady (le_clock L) hi T' f' \<and> th_ticks T \<le> th_ticks T' \<and>
    counted ip (ac_id a) (min (n + 1) (unat (tp_max_failures (le_policy L)))) f'"
proof -
  let ?w = "tp_max_failures (le_policy L)"
  note locked = counted_locked [OF assms(5,6)]
  from is_locked_steady [OF assms(1,2,4), of "le_policy L" ip None] obtain T1
    where 1: "is_locked (le_policy L) (le_clock L) ip None T = (ip \<noteq> None \<and> n = unat ?w, T1)"
      "steady (le_clock L) hi T1 f" "th_ticks T \<le> th_ticks T1"
    using locked by (auto split: option.splits)
  from is_locked_steady [OF assms(1,2) 1(2), of "le_policy L" ip "Some (ac_id a)"] obtain T2
    where 2: "is_locked (le_policy L) (le_clock L) ip (Some (ac_id a)) T1 = (n = unat ?w, T2)"
      "steady (le_clock L) hi T2 f" "th_ticks T1 \<le> th_ticks T2"
    using locked by (auto split: option.splits)
  show ?thesis
  proof (cases "n = unat ?w")
    case True
    then show ?thesis
      using 1 2 assms(5,7) by (cases ip) (auto simp: attempt_login_def intro!: exI [of _ f])
  next
    case False
    then have n: "n < unat ?w"
      using assms(6) by simp
    have "hi \<le> le_clock L (th_ticks T2) + tp_window (le_policy L)"
      using monoD [OF assms(1), of "th_ticks T" "th_ticks T2"] 1(3) 2(3) assms(3) by simp
    from record_failure_steady [OF assms(1,2) this 2(2), of ip "Some (ac_id a)"]
    show ?thesis
      using 1 2 False n assms(7,8) assms(9) [OF n] counted_bumped [OF assms(5) n]
      by (auto simp: attempt_login_def min_def intro!: exI)
  qed
qed

lemma login_attempts_counted:
  assumes "mono (le_clock L)" and "\<forall>i. le_clock L i < hi" and "hi \<le> le_clock L (th_ticks T) + tp_window (le_policy L)"
    and "steady (le_clock L) hi T f" and "counted ip (ac_id a) n f" and "n \<le> unat (tp_max_failures (le_policy L))"
    and "login_resolve (le_directory L) S s username = Inr (Some a)"
    and "credentials_list (le_credentials L) S s (ac_id a) = Inr cs"
    and "\<forall>i<length secrets. n + i < unat (tp_max_failures (le_policy L)) \<longrightarrow>
      authenticate (le_argon L) a cs purpose (secrets ! i) = Inr Auth_Denied"
  shows "login_attempts L S s ip username purpose secrets T =
    map (\<lambda>i. Inr (if n + i < unat (tp_max_failures (le_policy L)) then Denied else Throttled)) [0..<length secrets]"
  using assms(3-6,9)
proof (induction secrets arbitrary: T f n)
  case (Cons secret secrets)
  let ?w = "unat (tp_max_failures (le_policy L))"
  have "n < ?w \<Longrightarrow> authenticate (le_argon L) a cs purpose secret = Inr Auth_Denied"
    using Cons.prems(5) by (auto dest: spec [of _ 0])
  from attempt_login_counted [OF assms(1,2) Cons.prems(1-4) assms(7,8) this] obtain T' f'
    where a: "attempt_login L S s ip username secret purpose T = (Inr (if n < ?w then Denied else Throttled), T')"
    and T': "steady (le_clock L) hi T' f'" "th_ticks T \<le> th_ticks T'" "counted ip (ac_id a) (min (n + 1) ?w) f'"
    by blast
  have hi: "hi \<le> le_clock L (th_ticks T') + tp_window (le_policy L)"
    using monoD [OF assms(1) T'(2)] Cons.prems(1) by linarith
  have "\<forall>i<length secrets. min (n + 1) ?w + i < ?w \<longrightarrow>
      authenticate (le_argon L) a cs purpose (secrets ! i) = Inr Auth_Denied"
    using Cons.prems(5) by (auto simp: min_def split: if_splits dest: spec [of _ "Suc _"])
  from Cons.IH [OF hi T'(1,3) _ this]
  have IH: "login_attempts L S s ip username purpose secrets T' =
      map (\<lambda>i. Inr (if min (n + 1) ?w + i < ?w then Denied else Throttled)) [0..<length secrets]"
    by simp
  have "min (n + 1) ?w + i < ?w \<longleftrightarrow> n + Suc i < ?w" for i
    by linarith
  then have "login_attempts L S s ip username purpose (secret # secrets) T =
      (Inr (if n < ?w then Denied else Throttled)) #
      map (\<lambda>i. Inr (if n + Suc i < ?w then Denied else Throttled)) [0..<length secrets]"
    using a IH by simp
  then show ?case
    by (simp add: upt_conv_Cons map_Suc_upt [symmetric] comp_def del: upt_Suc)
qed simp

section \<open>An instance\<close>

definition bob_domain :: domain where
  "bob_domain = \<lparr>dm_id = 9, dm_name = ''x'', dm_aliases = [], dm_enabled = True, dm_catch_all_account_id = None,
    dm_dkim_key_ids = [], dm_dns_status = Unverified, dm_created_at = 0\<rparr>"

definition bob_credentials :: "credential list" where
  "bob_credentials = [Primary_Credential \<lparr>pp_hash = ''secret'', pp_updated_at = 0\<rparr>]"

definition plain_argon :: "bytes argon2" where
  "plain_argon = \<lparr>ar_parse = Inr, ar_verify = (\<lambda>p h. if p = h then Argon_Ok else Argon_Password)\<rparr>"

definition bob_login :: "bytes login_env" where
  "bob_login =
    \<lparr>le_directory = \<lparr>de_account = one_json bob, de_domain = one_json bob_domain, de_entry = no_json, de_maintenance = False\<rparr>,
     le_credentials = one_json bob_credentials, le_argon = plain_argon, le_policy = policy_new 2 100,
     le_clock = (\<lambda>_. 7)\<rparr>"

definition bob_db :: mem_db where
  "bob_db = [((Registry, domain_name_key ''x''), be64 9), ((Registry, domain_record_key 9), ''x''),
    ((Registry, account_address_key 9 ''bob''), be64 5), ((Registry, account_record_key 5), ''x''),
    ((Registry, credential_key 5), ''x'')]"

lemma bob_names: "normalize_name ''x'' = ''x''" "normalize_local_part ''bob'' = ''bob''"
  by (simp_all add: normalize_name_def normalize_local_part_def trim_ascii is_ascii_def to_ascii_lowercase_def
      to_ascii_lowercase_byte_def is_ascii_uppercase_def is_whitespace_def)

lemma subspace_of_directory [simp]:
  "subspace_of (domain_name_key n) = Inr Registry" "subspace_of (domain_record_key i) = Inr Registry"
  "subspace_of (credential_key i) = Inr Registry"
  using subspace_of_subspace_byte [of Registry]
  by (simp_all add: domain_name_key_def domain_record_key_def credential_key_def)

lemma bob_reads:
  "map_of bob_db (Registry, domain_name_key ''x'') = Some (be64 9)"
  "map_of bob_db (Registry, domain_record_key 9) = Some ''x''"
  "map_of bob_db (Registry, account_address_key 9 ''bob'') = Some (be64 5)"
  "map_of bob_db (Registry, account_record_key 5) = Some ''x''"
  "map_of bob_db (Registry, credential_key 5) = Some ''x''"
  by (simp_all add: bob_db_def domain_name_key_def domain_record_key_def account_address_key_def account_record_key_def
      credential_key_def TAG_DOMAIN_NAME_def TAG_DOMAIN_RECORD_def TAG_ACCOUNT_ADDRESS_def TAG_ACCOUNT_RECORD_def
      TAG_CREDENTIAL_def)

lemma bob_resolves:
  "login_resolve (le_directory bob_login) mem_store bob_db ''bob@x'' = Inr (Some bob)"
  "ac_id bob = 5" "account_is_active bob"
  "credentials_list (le_credentials bob_login) mem_store bob_db 5 = Inr bob_credentials"
  by (simp_all add: login_resolve_def rsplit_once_def bob_login_def domain_get_by_name_def bob_names domain_lookup_id_def
      mem_store_reads bob_reads domain_get_def domain_decode_def json_decode_def one_json_def bob_domain_def
      get_by_address_def lookup_id_by_address_def account_get_def account_decode_def bob_def new_account_def
      account_is_active_def credentials_list_def credentials_decode_def)

lemma bob_authenticates:
  "authenticate (le_argon bob_login) bob bob_credentials Mail_Purpose secret =
    Inr (if secret = ''secret'' then Auth_Granted (By_Primary False) else Auth_Denied)"
  by (simp add: authenticate_def bob_resolves(3) bob_credentials_def password_verify_def bob_login_def plain_argon_def)

section \<open>Guarantees\<close>



text \<open>The secret proves itself against a credential, and how.\<close>

definition proven_by ::
  "'h argon2 \<Rightarrow> login_purpose \<Rightarrow> bytes \<Rightarrow> credential list \<Rightarrow> credential \<Rightarrow> authenticated_by \<Rightarrow> bool" where
  "proven_by A purpose secret all c b =
    (case c of
       Primary_Credential p \<Rightarrow> password_verify A secret (pp_hash p) = Inr True \<and>
         b = By_Primary (purpose = Interactive \<and> has_enabled_totp all)
     | App_Credential r \<Rightarrow> purpose = Mail_Purpose \<and> password_verify A secret (ap_hash r) = Inr True \<and>
         b = By_App (ap_id r)
     | _ \<Rightarrow> False)"

lemma authenticate_loop_keep: "authenticate_loop A all purpose secret (Some c) cs = Inr m \<Longrightarrow> m = Some c"
proof (induction cs)
  case (Cons x cs)
  then show ?case
    by (cases x) (auto simp: and_then_eq_Inr split: if_splits)
qed simp

lemma authenticate_loop_sound:
  "authenticate_loop A all purpose secret None cs = Inr (Some b) \<Longrightarrow> \<exists>c\<in>set cs. proven_by A purpose secret all c b"
proof (induction cs)
  case (Cons x cs)
  show ?case
  proof (cases "authenticate_loop A all purpose secret None cs = Inr (Some b)")
    case True
    then show ?thesis
      using Cons.IH by auto
  next
    case False
    then have "proven_by A purpose secret all x b"
      using Cons.prems
      by (cases x) (auto simp: and_then_eq_Inr proven_by_def allows_app_password_def app_password_verify_def
          split: if_splits dest: authenticate_loop_keep)
    then show ?thesis
      by simp
  qed
qed simp

text \<open>
  C1. Logins are sound: when an attempt is granted, the account is the stored one, it is enabled,
  neither the client nor the account was locked, and the secret was verified against a stored
  credential of the account: the primary password, with a second factor demanded exactly for an
  interactive login with an enabled TOTP, or, for mail access only, an application password.
\<close>

theorem login_granted_sound:
  assumes "rocksdb_laws R data"
    and "attempt_login L (rocksdb_store R elapsed) d ip username secret purpose T = (Inr (Granted a b), T')"
  shows "(\<exists>i. account_at (le_directory L) (content_map (data d)) i = Some a) \<and> account_is_active a \<and>
    \<not> fst (is_locked (le_policy L) (le_clock L) ip None T) \<and>
    \<not> fst (is_locked (le_policy L) (le_clock L) ip (Some (ac_id a)) (snd (is_locked (le_policy L) (le_clock L) ip None T))) \<and>
    (\<exists>v cs. content_map (data d) (credential_key (ac_id a)) = Some v \<and>
      credentials_decode (le_credentials L) v = Inr cs \<and>
      (\<exists>c\<in>set cs. proven_by (le_argon L) purpose secret cs c b))"
proof -
  note kv = rocksdb_laws.store_contract [OF assms(1)]
  let ?S = "rocksdb_store R elapsed"
  from assms(2) obtain cs where res: "login_resolve (le_directory L) ?S d username = Inr (Some a)"
    and free: "\<not> fst (is_locked (le_policy L) (le_clock L) ip None T)"
      "\<not> fst (is_locked (le_policy L) (le_clock L) ip (Some (ac_id a)) (snd (is_locked (le_policy L) (le_clock L) ip None T)))"
    and cs: "credentials_list (le_credentials L) ?S d (ac_id a) = Inr cs"
    and auth: "authenticate (le_argon L) a cs purpose secret = Inr (Auth_Granted b)"
    by (auto simp: attempt_login_def split: prod.splits bool.splits sum.splits option.splits authentication.splits)
  from res obtain i where "account_get (le_directory L) ?S d i = Inr a"
    by (auto simp: login_resolve_def get_by_address_def and_then_eq_Inr split: option.splits)
  from kv_store.account_get_ok [OF kv this] have "account_at (le_directory L) (content_map (data d)) i = Some a" .
  moreover from auth have "account_is_active a" and loop: "authenticate_loop (le_argon L) cs purpose secret None cs = Inr (Some b)"
    by (auto simp: authenticate_def and_then_eq_Inr split: if_splits option.splits)
  moreover have "cs \<noteq> []"
    using loop by auto
  then obtain v where "content_map (data d) (credential_key (ac_id a)) = Some v" "credentials_decode (le_credentials L) v = Inr cs"
    using cs by (auto simp: credentials_list_def and_then_eq_Inr split: option.splits dest!: kv_store.get_ok [OF kv])
  ultimately show ?thesis
    using free authenticate_loop_sound [OF loop] by blast
qed

theorem login_granted_sound_witness:
  "\<exists>T'. attempt_login bob_login mem_store bob_db None ''bob@x'' ''secret'' Mail_Purpose \<lparr>th_store = ttl_new, th_ticks = 0\<rparr> =
      (Inr (Granted bob (By_Primary False)), T') \<and> account_is_active bob"
proof -
  have free: "is_locked (le_policy bob_login) (le_clock bob_login) None j \<lparr>th_store = ttl_new, th_ticks = n\<rparr> =
      (False, \<lparr>th_store = ttl_new, th_ticks = n + (case j of Some _ \<Rightarrow> 1 | None \<Rightarrow> 0)\<rparr>)" for j n
    by (cases j) (simp_all add: is_locked_def subject_locked_def throttle_count_def ttl_get_def ttl_new_def bob_login_def
        policy_new_def)
  obtain T' where T': "attempt_login bob_login mem_store bob_db None ''bob@x'' ''secret'' Mail_Purpose
      \<lparr>th_store = ttl_new, th_ticks = 0\<rparr> = (Inr (Granted bob (By_Primary False)), T')"
    by (simp add: attempt_login_def free bob_resolves bob_authenticates)
  show ?thesis
    using login_granted_sound [OF mem_laws T' [unfolded mem_store_def]] T' by blast
qed

end
