(* ===== verification/Sieve_Types.thy ===== *)
theory Sieve_Types
  imports Utf8
begin

text \<open>
  The data of the Sieve crate (\<open>crates/sieve/src/instruction.rs\<close>, \<open>limits.rs\<close>, \<open>error.rs\<close>
  and the public structs of \<open>lib.rs\<close>): byte-code instructions and tests, limits, compile
  errors, envelopes and outcomes.
\<close>

section \<open>Instructions\<close>

datatype match_type = Is | Contains | Matches

datatype comparator = AsciiCaseMap | Octet

datatype address_part = PartAll | Localpart | Domain

datatype envelope_part = EnvFrom | EnvTo

datatype test =
    Header (t_headers: "bytes list") (t_keys: "bytes list") match_type comparator bool
  | Address "bytes list" "bytes list" address_part match_type comparator bool
  | EnvelopeTest "envelope_part list" "bytes list" address_part match_type comparator bool
  | Exists "bytes list" bool
  | Size bool u64 bool
  | Bool bool

datatype instruction =
    Test test
  | Jmp nat
  | Jz nat
  | Jnz nat
  | Keep
  | Discard
  | Stop
  | FileInto bytes
  | Redirect bytes
  | AddFlag "bytes list"
  | SetFlag "bytes list"
  | RemoveFlag "bytes list"

text \<open>The placeholder \<open>usize::MAX\<close> that an unresolved jump carries.\<close>

definition usize_max :: nat where
  "usize_max = 2 ^ 64 - 1"

fun is_jump :: "instruction \<Rightarrow> bool" where
  "is_jump (Jmp _) = True"
| "is_jump (Jz _) = True"
| "is_jump (Jnz _) = True"
| "is_jump _ = False"

fun jump_target :: "instruction \<Rightarrow> nat option" where
  "jump_target (Jmp t) = Some t"
| "jump_target (Jz t) = Some t"
| "jump_target (Jnz t) = Some t"
| "jump_target _ = None"

section \<open>Limits\<close>

record compiler_limits =
  max_script_size :: nat
  max_string_size :: nat
  max_nested_blocks :: nat
  max_nested_tests :: nat
  max_list_items :: nat

definition default_compiler_limits :: compiler_limits where
  "default_compiler_limits =
     \<lparr>max_script_size = 128 * 1024, max_string_size = 4096, max_nested_blocks = 15,
      max_nested_tests = 15, max_list_items = 128\<rparr>"

record limits =
  cpu :: nat
  max_redirects :: nat

definition default_limits :: limits where
  "default_limits = \<lparr>cpu = 5000, max_redirects = 4\<rparr>"

section \<open>Errors\<close>

record compile_error =
  ce_line :: nat
  ce_column :: nat
  ce_message :: bytes

text \<open>
  How a compilation can fail: with the \<open>CompileError\<close> it returns, or by a panic (an index
  out of range or the \<open>unreachable!\<close> of \<open>Parser::patch\<close>), which the model keeps apart so
  that its absence is a theorem.
\<close>

datatype fault = Err compile_error | Panic

definition compile_err :: "nat \<Rightarrow> nat \<Rightarrow> bytes \<Rightarrow> fault" where
  "compile_err l c msg = Err \<lparr>ce_line = l, ce_column = c, ce_message = msg\<rparr>"

lemma compile_err_not_Panic [simp]: "compile_err l c msg \<noteq> Panic" "Panic \<noteq> compile_err l c msg"
  by (simp_all add: compile_err_def)

section \<open>Scripts, envelopes and outcomes\<close>

record script =
  instructions :: "instruction list"
  capabilities :: "bytes list"

record envelope =
  env_from :: bytes
  env_to :: bytes

record outcome =
  keep :: bool
  discarded :: bool
  file_into :: "bytes list"
  redirects :: "bytes list"
  flags :: "bytes list"

end
