(* ===== verification/Sieve_Lexer.thy ===== *)
theory Sieve_Lexer
  imports Sieve_Types
begin

text \<open>
  \<open>crates/sieve/src/lexer.rs\<close>: the tokenizer. Its state is the cursor of the source's
  \<open>Lexer\<close> struct; every \<open>while\<close> and \<open>loop\<close> is a recursive function whose measure is the
  number of bytes left.
\<close>

section \<open>Tokens and the cursor\<close>

datatype tok =
    Identifier bytes
  | Tag bytes
  | Number u64
  | Str bytes
  | LParen | RParen | LBrace | RBrace | LBracket | RBracket | Comma | Semicolon

record token =
  t_tok :: tok
  t_line :: nat
  t_col :: nat

record lexer =
  lx_bytes :: bytes
  lx_pos :: nat
  lx_line :: nat
  lx_col :: nat

definition lexer_new :: "bytes \<Rightarrow> lexer" where
  "lexer_new source = \<lparr>lx_bytes = source, lx_pos = 0, lx_line = 1, lx_col = 1\<rparr>"

definition lx_peek :: "lexer \<Rightarrow> byte option" where
  "lx_peek l = get_at (lx_bytes l) (lx_pos l)"

definition lx_peek_at :: "lexer \<Rightarrow> nat \<Rightarrow> byte option" where
  "lx_peek_at l offset = get_at (lx_bytes l) (lx_pos l + offset)"

definition lx_advance :: "lexer \<Rightarrow> byte option \<times> lexer" where
  "lx_advance l =
     (case lx_peek l of
        None \<Rightarrow> (None, l)
      | Some b \<Rightarrow>
          (Some b,
           if b = LF then l\<lparr>lx_pos := lx_pos l + 1, lx_line := lx_line l + 1, lx_col := 1\<rparr>
           else l\<lparr>lx_pos := lx_pos l + 1, lx_col := lx_col l + 1\<rparr>))"

text \<open>The cursor after \<open>self.advance();\<close> whose result is dropped.\<close>

abbreviation lx_skip :: "lexer \<Rightarrow> lexer" where
  "lx_skip l \<equiv> snd (lx_advance l)"

definition lx_left :: "lexer \<Rightarrow> nat" where
  "lx_left l = length (lx_bytes l) - lx_pos l"

lemma lx_skip_left: "lx_peek l = Some b \<Longrightarrow> lx_left (lx_skip l) < lx_left l"
  by (auto simp: lx_advance_def lx_left_def lx_peek_def get_at_def split: if_splits)

lemma lx_skip_left_le: "lx_left (lx_skip l) \<le> lx_left l"
  by (auto simp: lx_advance_def lx_left_def lx_peek_def split: option.splits)

lemma lx_advance_Some:
  "lx_advance l = (Some b, l') \<longleftrightarrow> lx_peek l = Some b \<and> l' = lx_skip l"
  by (auto simp: lx_advance_def split: option.splits)

lemma lx_advance_None: "lx_advance l = (None, l') \<longleftrightarrow> lx_peek l = None \<and> l' = l"
  by (auto simp: lx_advance_def split: option.splits)

lemma lx_advance_left: "lx_advance l = (Some b, l') \<Longrightarrow> lx_left l' < lx_left l"
  by (auto simp: lx_advance_Some lx_skip_left)

text \<open>\<open>l'\<close> is the cursor \<open>l\<close> after some number of \<open>advance\<close> calls.\<close>

definition lx_reach :: "lexer \<Rightarrow> lexer \<Rightarrow> bool" where
  "lx_reach l l' \<longleftrightarrow> (\<exists>n. l' = (lx_skip ^^ n) l)"

lemma lx_reach_refl [simp]: "lx_reach l l"
  unfolding lx_reach_def by (rule exI [of _ 0]) simp

lemma lx_reach_trans [trans]: "lx_reach l l' \<Longrightarrow> lx_reach l' l'' \<Longrightarrow> lx_reach l l''"
  unfolding lx_reach_def by (auto simp: funpow_add [symmetric] fun_cong [OF funpow_add, unfolded o_apply, symmetric])

lemma lx_reach_skip: "lx_reach (lx_skip l) l' \<Longrightarrow> lx_reach l l'"
  unfolding lx_reach_def by (metis funpow_Suc_right o_apply)

lemma lx_reach_step: "lx_reach l l' \<Longrightarrow> lx_reach l (lx_skip l')"
  using lx_reach_trans lx_reach_skip lx_reach_refl by blast

lemma lx_reach_advance: "lx_advance l = (b, l1) \<Longrightarrow> lx_reach l1 l' \<Longrightarrow> lx_reach l l'"
  using lx_reach_skip [of l l'] by simp

lemma lx_reach_left: "lx_reach l l' \<Longrightarrow> lx_left l' \<le> lx_left l"
proof -
  have "lx_left ((lx_skip ^^ n) l) \<le> lx_left l" for n
    by (induction n) (auto intro: order_trans [OF lx_skip_left_le])
  then show "lx_reach l l' \<Longrightarrow> lx_left l' \<le> lx_left l" by (auto simp: lx_reach_def)
qed

section \<open>Comments\<close>

text \<open>\<open>while let Some(byte) = self.peek() { if byte == b'\n' { break; } self.advance(); }\<close>\<close>

function skip_line :: "lexer \<Rightarrow> lexer" where
  "skip_line l =
     (case lx_peek l of
        None \<Rightarrow> l
      | Some b \<Rightarrow> if b = LF then l else skip_line (lx_skip l))"
  by pat_completeness auto
termination
  by (relation "measure lx_left") (auto simp: lx_skip_left)

declare skip_line.simps [simp del]

text \<open>The inner loop of a bracket comment: \<open>None\<close> when the input ends inside it.\<close>

function skip_block :: "lexer \<Rightarrow> lexer option" where
  "skip_block l =
     (case lx_peek l of
        None \<Rightarrow> None
      | Some b \<Rightarrow>
          if b = CHR ''*'' \<and> lx_peek_at l 1 = Some CHR ''/''
          then Some (lx_skip (lx_skip l))
          else skip_block (lx_skip l))"
  by pat_completeness auto
termination
  by (relation "measure lx_left") (auto simp: lx_skip_left)

declare skip_block.simps [simp del]

lemma skip_line_reach: "lx_reach l (skip_line l)"
proof (induction l rule: skip_line.induct)
  case (1 l)
  then show ?case
    by (subst skip_line.simps) (auto split: option.splits intro: lx_reach_skip)
qed

lemma skip_line_progress: "lx_peek l = Some b \<Longrightarrow> b \<noteq> LF \<Longrightarrow> lx_left (skip_line l) < lx_left l"
  using lx_reach_left [OF skip_line_reach, of "lx_skip l"] lx_skip_left [of l b]
  by (simp add: skip_line.simps [of l])

lemma skip_block_reach: "skip_block l = Some l' \<Longrightarrow> lx_reach l l'"
proof (induction l rule: skip_block.induct)
  case (1 l)
  from "1.prems" obtain b where b: "lx_peek l = Some b"
    by (auto simp: skip_block.simps [of l] split: option.splits)
  show ?case
  proof (cases "b = CHR ''*'' \<and> lx_peek_at l 1 = Some CHR ''/''")
    case True
    with b "1.prems" have "l' = lx_skip (lx_skip l)" by (simp add: skip_block.simps [of l])
    then show ?thesis by (auto intro!: lx_reach_skip [of l] lx_reach_skip [of "lx_skip l"])
  next
    case False
    with b "1.prems" have "skip_block (lx_skip l) = Some l'" by (auto simp: skip_block.simps [of l])
    from "1.IH" [OF b False this] show ?thesis by (rule lx_reach_skip)
  qed
qed

section \<open>Words, numbers and strings\<close>

definition is_word_start :: "byte \<Rightarrow> bool" where
  "is_word_start b \<longleftrightarrow> is_ascii_lowercase b \<or> is_ascii_uppercase b \<or> b = CHR ''_''"

definition is_word_byte :: "byte \<Rightarrow> bool" where
  "is_word_byte b \<longleftrightarrow> is_word_start b \<or> is_ascii_digit b"

function lx_word :: "lexer \<Rightarrow> bytes \<Rightarrow> bytes \<times> lexer" where
  "lx_word l word =
     (case lx_peek l of
        None \<Rightarrow> (word, l)
      | Some b \<Rightarrow>
          if is_ascii_lowercase b \<or> is_ascii_digit b \<or> b = CHR ''_'' then
            lx_word (lx_skip l) (word @ [b])
          else if is_ascii_uppercase b then
            lx_word (lx_skip l) (word @ [to_ascii_lowercase_byte b])
          else (word, l))"
  by pat_completeness auto
termination
  by (relation "measure (lx_left \<circ> fst)") (auto simp: lx_skip_left)

declare lx_word.simps [simp del]

text \<open>\<open>value.push(byte)\<close> and the size check at the bottom of the loop.\<close>

definition push_limited ::
  "compiler_limits \<Rightarrow> nat \<Rightarrow> nat \<Rightarrow> bytes \<Rightarrow> byte \<Rightarrow> fault + bytes" where
  "push_limited lim line col value b =
     (if max_string_size lim < length (value @ [b])
      then Inl (compile_err line col ''string exceeds the maximum length'')
      else Inr (value @ [b]))"

function quoted_loop ::
  "compiler_limits \<Rightarrow> nat \<Rightarrow> nat \<Rightarrow> lexer \<Rightarrow> bytes \<Rightarrow> fault + bytes \<times> lexer" where
  "quoted_loop lim line col l value =
     (case lx_advance l of
        (None, l') \<Rightarrow> Inl (compile_err line col ''unterminated string'')
      | (Some b, l') \<Rightarrow>
          if b = CHR 0x22 then Inr (value, l')
          else if b = CHR 0x5C then
            (case lx_advance l' of
               (None, l'') \<Rightarrow> Inl (compile_err line col ''unterminated string'')
             | (Some escaped, l'') \<Rightarrow>
                 and_then (push_limited lim line col value escaped) (quoted_loop lim line col l''))
          else and_then (push_limited lim line col value b) (quoted_loop lim line col l'))"
  by pat_completeness auto
termination
  by (relation "measure (\<lambda>(lim, line, col, l, value). lx_left l)")
    (auto dest!: lx_advance_left [OF sym])

declare quoted_loop.simps [simp del]

definition quoted_string ::
  "compiler_limits \<Rightarrow> nat \<Rightarrow> nat \<Rightarrow> lexer \<Rightarrow> fault + bytes \<times> lexer" where
  "quoted_string lim line col l =
     and_then (quoted_loop lim line col (lx_skip l) [])
       (\<lambda>(value, l'). if utf8_valid value then Inr (value, l')
          else Inl (compile_err line col ''string is not valid utf-8''))"

function number_loop :: "nat \<Rightarrow> nat \<Rightarrow> lexer \<Rightarrow> u64 \<Rightarrow> fault + u64 \<times> lexer" where
  "number_loop line col l value =
     (case lx_peek l of
        None \<Rightarrow> Inr (value, l)
      | Some b \<Rightarrow>
          if is_ascii_digit b then
            (case Option.bind (checked_mul value 10)
                    (\<lambda>v. checked_add v (of_nat (byte_val b - byte_val CHR ''0''))) of
               None \<Rightarrow> Inl (compile_err line col ''number is too large'')
             | Some v \<Rightarrow> number_loop line col (lx_skip l) v)
          else Inr (value, l))"
  by pat_completeness auto
termination
  by (relation "measure (\<lambda>(line, col, l, value). lx_left l)") (auto simp: lx_skip_left)

declare number_loop.simps [simp del]

definition number_multiplier :: "byte option \<Rightarrow> u64 option" where
  "number_multiplier b =
     (if b = Some CHR ''k'' \<or> b = Some CHR ''K'' then Some 1024
      else if b = Some CHR ''m'' \<or> b = Some CHR ''M'' then Some 1048576
      else if b = Some CHR ''g'' \<or> b = Some CHR ''G'' then Some 1073741824
      else None)"

definition lx_number :: "nat \<Rightarrow> nat \<Rightarrow> lexer \<Rightarrow> fault + u64 \<times> lexer" where
  "lx_number line col l =
     and_then (number_loop line col l 0)
       (\<lambda>(value, l'). case number_multiplier (lx_peek l') of
          None \<Rightarrow> Inr (value, l')
        | Some m \<Rightarrow> Inr (saturating_mul value m, lx_skip l'))"

text \<open>The rest of the line behind \<open>text:\<close>: blanks or a comment, then a newline.\<close>

function multiline_header :: "nat \<Rightarrow> nat \<Rightarrow> lexer \<Rightarrow> fault + lexer" where
  "multiline_header line col l =
     (case lx_peek l of
        None \<Rightarrow> Inl (compile_err line col ''unterminated multiline string'')
      | Some b \<Rightarrow>
          if b = CHR '' '' \<or> b = HT \<or> b = CR then multiline_header line col (lx_skip l)
          else if b = CHR ''#'' then multiline_header line col (skip_line l)
          else if b = LF then Inr (lx_skip l)
          else Inl (compile_err line col
                 (''expected a newline after '' @ [CHR 0x27] @ ''text:'' @ [CHR 0x27])))"
  by pat_completeness auto
termination
  by (relation "measure (\<lambda>(line, col, l). lx_left l)")
    (auto simp: lx_skip_left skip_line_progress)

declare multiline_header.simps [simp del]

text \<open>One line of the text, without its newline, and whether the newline was there.\<close>

function text_line :: "lexer \<Rightarrow> bytes \<Rightarrow> bytes \<times> bool \<times> lexer" where
  "text_line l current =
     (case lx_advance l of
        (None, l') \<Rightarrow> (current, False, l')
      | (Some b, l') \<Rightarrow> if b = LF then (current, True, l') else text_line l' (current @ [b]))"
  by pat_completeness auto
termination
  by (relation "measure (lx_left \<circ> fst)") (auto dest!: lx_advance_left [OF sym])

declare text_line.simps [simp del]

lemma text_line_reach: "text_line l current = (line, ended, l') \<Longrightarrow> lx_reach l l'"
proof (induction l current rule: text_line.induct)
  case (1 l current)
  obtain b l1 where a: "lx_advance l = (b, l1)" by (cases "lx_advance l")
  show ?case
  proof (cases "b = None \<or> b = Some LF")
    case True
    with a "1.prems" have "l' = l1" by (auto simp: text_line.simps [of l])
    with a show ?thesis by (auto intro: lx_reach_advance)
  next
    case False
    then obtain c where c: "b = Some c" "c \<noteq> LF" by auto
    with a "1.prems" have "text_line l1 (current @ [c]) = (line, ended, l')"
      by (simp add: text_line.simps [of l])
    from "1.IH" [OF a [symmetric] c this] a show ?thesis by (rule lx_reach_advance [rotated])
  qed
qed

lemma text_line_progress:
  assumes t: "text_line l [] = (line, ended, l')" and e: "ended \<or> line \<noteq> []"
  shows "lx_left l' < lx_left l"
proof -
  obtain b l1 where a: "lx_advance l = (b, l1)" by (cases "lx_advance l")
  from t e a obtain c where c: "b = Some c" by (cases b) (auto simp: text_line.simps [of l])
  with a have "lx_left l1 < lx_left l" by (auto dest: lx_advance_left)
  with c a t show ?thesis
    by (auto simp: text_line.simps [of l] split: if_splits dest: lx_reach_left [OF text_line_reach])
qed

function multiline_lines ::
  "compiler_limits \<Rightarrow> nat \<Rightarrow> nat \<Rightarrow> lexer \<Rightarrow> bytes \<Rightarrow> fault + bytes \<times> lexer" where
  "multiline_lines lim line col l value =
     (case text_line l [] of (current0, terminated, l') \<Rightarrow>
        let current = (if current0 \<noteq> [] \<and> last current0 = CR then butlast current0 else current0);
            text = (if prefix ''..'' current then drop 1 current else current);
            value' = value @ text @ CRLF
        in if \<not> terminated \<and> current = [] then
             Inl (compile_err line col ''unterminated multiline string'')
           else if current = ''.'' then Inr (value, l')
           else if \<not> utf8_valid text then
             Inl (compile_err line col ''string is not valid utf-8'')
           else if max_string_size lim < length value' then
             Inl (compile_err line col ''string exceeds the maximum length'')
           else if \<not> terminated then
             Inl (compile_err line col ''unterminated multiline string'')
           else multiline_lines lim line col l' value')"
  by pat_completeness auto
termination
  by (relation "measure (\<lambda>(lim, line, col, l, value). lx_left l)")
    (auto dest!: text_line_progress [OF sym])

declare multiline_lines.simps [simp del]

definition multiline_string ::
  "compiler_limits \<Rightarrow> nat \<Rightarrow> nat \<Rightarrow> lexer \<Rightarrow> fault + bytes \<times> lexer" where
  "multiline_string lim line col l =
     and_then (multiline_header line col l) (\<lambda>l'. multiline_lines lim line col l' [])"

section \<open>Every scanner moves the cursor forward\<close>

lemma lx_word_reach: "lx_word l w = (v, l') \<Longrightarrow> lx_reach l l'"
proof (induction l w rule: lx_word.induct)
  case (1 l w)
  show ?case
  proof (cases "lx_peek l")
    case None
    with "1.prems" show ?thesis by (simp add: lx_word.simps [of l])
  next
    case (Some b)
    with "1.prems" "1.IH"(1,2) [OF Some] show ?thesis
      by (auto simp: lx_word.simps [of l] split: if_splits intro: lx_reach_skip)
  qed
qed

lemma lx_word_progress:
  assumes "lx_word l w = (v, l')" "lx_peek l = Some b" "is_word_start b"
  shows "lx_left l' < lx_left l"
proof -
  from assms obtain u where "lx_word (lx_skip l) u = (v, l')"
    by (auto simp: lx_word.simps [of l] is_word_start_def split: if_splits)
  from lx_reach_left [OF lx_word_reach [OF this]] lx_skip_left [OF assms(2)]
  show ?thesis by simp
qed

lemma quoted_loop_reach: "quoted_loop lim line col l v = Inr (w, l') \<Longrightarrow> lx_reach l l'"
proof (induction lim line col l v rule: quoted_loop.induct)
  case (1 lim line col l v)
  from "1.prems" obtain b l1 where a: "lx_advance l = (Some b, l1)"
    by (auto simp: quoted_loop.simps [of _ _ _ l] split: prod.splits option.splits)
  consider (close) "b = CHR 0x22" | (quote) "b = CHR 0x5C" | (plain) "b \<noteq> CHR 0x22" "b \<noteq> CHR 0x5C"
    by blast
  then show ?case
  proof cases
    case close
    with a "1.prems" show ?thesis
      by (auto simp: quoted_loop.simps [of _ _ _ l] intro: lx_reach_advance)
  next
    case quote
    with a "1.prems" obtain c l2 v2 where c: "lx_advance l1 = (Some c, l2)"
      and p: "push_limited lim line col v c = Inr v2" "quoted_loop lim line col l2 v2 = Inr (w, l')"
      by (auto simp: quoted_loop.simps [of _ _ _ l] and_then_eq_Inr split: prod.splits option.splits)
    from "1.IH"(1) [OF a [symmetric] refl _ quote c [symmetric] refl p] quote a c
    show ?thesis by (auto intro: lx_reach_advance)
  next
    case plain
    with a "1.prems" obtain v2 where
      p: "push_limited lim line col v b = Inr v2" "quoted_loop lim line col l1 v2 = Inr (w, l')"
      by (auto simp: quoted_loop.simps [of _ _ _ l] and_then_eq_Inr)
    from "1.IH"(2) [OF a [symmetric] refl _ _ p] plain a show ?thesis
      by (auto intro: lx_reach_advance)
  qed
qed

lemma quoted_string_reach:
  "quoted_string lim line col l = Inr (w, l') \<Longrightarrow> lx_reach (lx_skip l) l'"
  by (auto simp: quoted_string_def and_then_eq_Inr split: if_splits dest: quoted_loop_reach)

lemma number_loop_reach: "number_loop line col l v = Inr (w, l') \<Longrightarrow> lx_reach l l'"
proof (induction line col l v rule: number_loop.induct)
  case (1 line col l v)
  from "1.prems" show ?case
    by (subst (asm) number_loop.simps)
      (auto split: option.splits if_splits dest!: "1.IH" intro: lx_reach_skip)
qed

lemma number_loop_progress:
  assumes "number_loop line col l v = Inr (w, l')" "lx_peek l = Some b" "is_ascii_digit b"
  shows "lx_reach (lx_skip l) l'"
  using assms by (auto simp: number_loop.simps [of _ _ l] split: option.splits dest: number_loop_reach)

lemma lx_number_reach:
  assumes "lx_number line col l = Inr (w, l')" "lx_peek l = Some b" "is_ascii_digit b"
  shows "lx_reach (lx_skip l) l'"
  using assms
  by (auto simp: lx_number_def and_then_eq_Inr split: option.splits
      dest!: number_loop_progress [OF _ assms(2,3)] intro: lx_reach_step)

lemma multiline_header_reach: "multiline_header line col l = Inr l' \<Longrightarrow> lx_reach l l'"
proof (induction line col l rule: multiline_header.induct)
  case (1 line col l)
  from "1.prems" obtain b where b: "lx_peek l = Some b"
    by (auto simp: multiline_header.simps [of _ _ l] split: option.splits)
  consider (blank) "b = CHR '' '' \<or> b = HT \<or> b = CR"
    | (hash) "\<not> (b = CHR '' '' \<or> b = HT \<or> b = CR)" "b = CHR ''#''" | (rest) "b \<noteq> CHR ''#''"
      "\<not> (b = CHR '' '' \<or> b = HT \<or> b = CR)"
    by blast
  then show ?case
  proof cases
    case blank
    with b "1.prems" "1.IH"(1) [OF b] show ?thesis
      by (auto simp: multiline_header.simps [of _ _ l] intro: lx_reach_skip)
  next
    case hash
    with b "1.prems" "1.IH"(2) [OF b] show ?thesis
      by (auto simp: multiline_header.simps [of _ _ l] intro: lx_reach_trans [OF skip_line_reach])
  next
    case rest
    with b "1.prems" show ?thesis
      by (auto simp: multiline_header.simps [of _ _ l] split: if_splits intro: lx_reach_skip)
  qed
qed

lemma multiline_lines_reach:
  "multiline_lines lim line col l v = Inr (w, l') \<Longrightarrow> lx_reach l l'"
proof (induction lim line col l v rule: multiline_lines.induct)
  case (1 lim line col l v)
  obtain cur0 ended l1 where t: "text_line l [] = (cur0, ended, l1)" by (cases "text_line l []") auto
  have l1: "lx_reach l l1" using t by (rule text_line_reach)
  define cur where "cur = (if cur0 \<noteq> [] \<and> last cur0 = CR then butlast cur0 else cur0)"
  show ?case
  proof (cases "cur = ''.''")
    case True
    with "1.prems" t l1 show ?thesis
      by (auto simp: multiline_lines.simps [of _ _ _ l] cur_def [symmetric] Let_def split: if_splits)
  next
    case False
    with "1.prems" t have "multiline_lines lim line col l1
        (v @ (if prefix ''..'' cur then drop 1 cur else cur) @ CRLF) = Inr (w, l')"
      and "\<not> (\<not> ended \<and> cur = [])" "ended"
      "utf8_valid (if prefix ''..'' cur then drop 1 cur else cur)"
      "\<not> max_string_size lim < length (v @ (if prefix ''..'' cur then drop 1 cur else cur) @ CRLF)"
      by (auto simp: multiline_lines.simps [of _ _ _ l] cur_def [symmetric] Let_def split: if_splits)
    from "1.IH" [OF t [symmetric] refl cur_def refl refl this(2) False _ this(5) _ this(1)] this(3,4)
    have "lx_reach l1 l'" by simp
    with l1 show ?thesis by (rule lx_reach_trans)
  qed
qed

lemma multiline_string_reach:
  "multiline_string lim line col l = Inr (w, l') \<Longrightarrow> lx_reach l l'"
  by (auto simp: multiline_string_def and_then_eq_Inr
      dest!: multiline_header_reach multiline_lines_reach intro: lx_reach_trans)

section \<open>The next token\<close>

definition mk_token :: "tok \<Rightarrow> nat \<Rightarrow> nat \<Rightarrow> token" where
  "mk_token t line col = \<lparr>t_tok = t, t_line = line, t_col = col\<rparr>"

definition punctuation :: "byte \<Rightarrow> tok option" where
  "punctuation b =
     (if b = CHR ''('' then Some LParen else if b = CHR '')'' then Some RParen
      else if b = CHR ''{'' then Some LBrace else if b = CHR ''}'' then Some RBrace
      else if b = CHR ''['' then Some LBracket else if b = CHR '']'' then Some RBracket
      else if b = CHR '','' then Some Comma else if b = CHR '';'' then Some Semicolon
      else None)"

definition hex_char :: "nat \<Rightarrow> byte" where
  "hex_char n = char_of (if n < 10 then 48 + n else 87 + n)"

text \<open>The arms of \<open>next_token\<close> that return, for a byte that starts a token.\<close>

definition scan_token :: "compiler_limits \<Rightarrow> byte \<Rightarrow> lexer \<Rightarrow> fault + token \<times> lexer" where
  "scan_token lim b l =
     (let line = lx_line l; col = lx_col l in
      if b = CHR 0x22 then
        and_then (quoted_string lim line col l) (\<lambda>(value, l'). Inr (mk_token (Str value) line col, l'))
      else if is_ascii_digit b then
        and_then (lx_number line col l) (\<lambda>(value, l'). Inr (mk_token (Number value) line col, l'))
      else if is_word_start b then
        (case lx_word l [] of (word, l') \<Rightarrow>
           if word = ''text'' \<and> lx_peek l' = Some CHR '':'' then
             and_then (multiline_string lim line col (lx_skip l'))
               (\<lambda>(value, l''). Inr (mk_token (Str value) line col, l''))
           else Inr (mk_token (Identifier word) line col, l'))
      else if b = CHR '':'' then
        (case lx_peek (lx_skip l) of
           Some c \<Rightarrow>
             if is_word_start c then
               (case lx_word (lx_skip l) [] of (word, l') \<Rightarrow> Inr (mk_token (Tag word) line col, l'))
             else Inl (compile_err line col
                    (''expected tag name after '' @ [CHR 0x27] @ '':'' @ [CHR 0x27]))
         | None \<Rightarrow> Inl (compile_err line col
                    (''expected tag name after '' @ [CHR 0x27] @ '':'' @ [CHR 0x27])))
      else (case punctuation b of
              Some t \<Rightarrow> Inr (mk_token t line col, lx_skip l)
            | None \<Rightarrow> Inl (compile_err line col
                (''unexpected character 0x'' @
                 [hex_char (byte_val b div 16), hex_char (byte_val b mod 16)]))))"

function next_token :: "compiler_limits \<Rightarrow> lexer \<Rightarrow> fault + token option \<times> lexer" where
  "next_token lim l =
     (case lx_peek l of
        None \<Rightarrow> Inr (None, l)
      | Some b \<Rightarrow>
          if b = CHR '' '' \<or> b = HT \<or> b = CR \<or> b = LF then next_token lim (lx_skip l)
          else if b = CHR ''#'' then next_token lim (skip_line l)
          else if b = CHR ''/'' \<and> lx_peek_at l 1 = Some CHR ''*'' then
            (case skip_block (lx_skip (lx_skip l)) of
               None \<Rightarrow> Inl (compile_err (lx_line l) (lx_col l) ''unterminated comment'')
             | Some l' \<Rightarrow> next_token lim l')
          else and_then (scan_token lim b l) (\<lambda>(t, l'). Inr (Some t, l')))"
  by pat_completeness auto
termination
proof (relation "measure (lx_left \<circ> snd)")
  show "wf (measure (lx_left \<circ> snd :: compiler_limits \<times> lexer \<Rightarrow> nat))" by simp
next
  fix lim :: compiler_limits and l l' b
  assume "lx_peek l = Some b" "skip_block (lx_skip (lx_skip l)) = Some l'"
  then show "((lim, l'), (lim, l)) \<in> measure (lx_left \<circ> snd)"
    using lx_reach_left [OF skip_block_reach, of "lx_skip (lx_skip l)" l']
      lx_skip_left_le [of "lx_skip l"] lx_skip_left [of l b] by simp
qed (simp_all add: lx_skip_left skip_line_progress)

declare next_token.simps [simp del]

lemma scan_token_reach:
  assumes "scan_token lim b l = Inr (t, l')" "lx_peek l = Some b"
  shows "lx_reach l l' \<and> lx_left l' < lx_left l"
proof -
  have fwd: "lx_reach l l1 \<and> lx_left l1 < lx_left l" if "lx_reach (lx_skip l) l1" for l1
    using that lx_reach_left [OF that] lx_skip_left [OF assms(2)] by (auto intro: lx_reach_skip)
  have w: "lx_reach l l1 \<and> lx_left l1 < lx_left l"
    if "lx_word l [] = (w, l1)" "is_word_start b" for w l1
    using lx_word_reach [OF that(1)] lx_word_progress [OF that(1) assms(2) that(2)] by simp
  have m: "lx_reach l l2 \<and> lx_left l2 < lx_left l"
    if "lx_word l [] = (w, l1)" "is_word_start b" "multiline_string lim line col (lx_skip l1) = Inr (v, l2)"
    for w l1 v l2 line col
    using w [OF that(1,2)] lx_reach_skip [OF multiline_string_reach [OF that(3)]]
    by (auto intro: lx_reach_trans dest: lx_reach_left)
  from assms fwd [OF lx_reach_refl] show ?thesis
    by (auto simp: scan_token_def Let_def and_then_eq_Inr split: if_splits prod.splits option.splits
        dest: w m fwd [OF quoted_string_reach] fwd [OF lx_number_reach] fwd [OF lx_word_reach])
qed

lemma next_token_progress:
  "next_token lim l = Inr (Some t, l') \<Longrightarrow> lx_left l' < lx_left l"
proof (induction lim l rule: next_token.induct)
  case (1 lim l)
  from "1.prems" obtain b where b: "lx_peek l = Some b"
    by (auto simp: next_token.simps [of _ l] split: option.splits)
  have s: "lx_left (lx_skip l) < lx_left l" using b by (rule lx_skip_left)
  consider (blank) "b = CHR '' '' \<or> b = HT \<or> b = CR \<or> b = LF"
    | (hash) "\<not> (b = CHR '' '' \<or> b = HT \<or> b = CR \<or> b = LF)" "b = CHR ''#''"
    | (block) "b = CHR ''/''" "lx_peek_at l 1 = Some CHR ''*''"
    | (tok) "\<not> (b = CHR '' '' \<or> b = HT \<or> b = CR \<or> b = LF)" "b \<noteq> CHR ''#''"
      "\<not> (b = CHR ''/'' \<and> lx_peek_at l 1 = Some CHR ''*'')"
    by blast
  then show ?case
  proof cases
    case blank
    with b "1.prems" "1.IH"(1) [OF b] s show ?thesis by (auto simp: next_token.simps [of _ l])
  next
    case hash
    with b "1.prems" "1.IH"(2) [OF b] skip_line_progress [OF b] show ?thesis
      by (auto simp: next_token.simps [of _ l])
  next
    case block
    with b "1.prems" obtain l1 where l1: "skip_block (lx_skip (lx_skip l)) = Some l1"
      "next_token lim l1 = Inr (Some t, l')"
      by (auto simp: next_token.simps [of _ l] split: option.splits)
    have "lx_left l1 < lx_left l"
      using lx_reach_left [OF skip_block_reach [OF l1(1)]] lx_skip_left_le [of "lx_skip l"] s by simp
    with "1.IH"(3) [OF b _ _ _ l1] block show ?thesis by simp
  next
    case tok
    with b "1.prems" show ?thesis
      by (auto simp: next_token.simps [of _ l] and_then_eq_Inr dest: scan_token_reach)
  qed
qed

function tokenize_loop :: "compiler_limits \<Rightarrow> lexer \<Rightarrow> token list \<Rightarrow> fault + token list" where
  "tokenize_loop lim l tokens =
     (case next_token lim l of
        Inl e \<Rightarrow> Inl e
      | Inr (None, _) \<Rightarrow> Inr tokens
      | Inr (Some t, l') \<Rightarrow> tokenize_loop lim l' (tokens @ [t]))"
  by pat_completeness auto
termination
  by (relation "measure (\<lambda>(lim, l, tokens). lx_left l)") (auto dest!: next_token_progress)

declare tokenize_loop.simps [simp del]

definition tokenize :: "bytes \<Rightarrow> compiler_limits \<Rightarrow> fault + token list" where
  "tokenize source lim = tokenize_loop lim (lexer_new source) []"

end
