(* ===== verification/Sieve_String.thy ===== *)
theory Sieve_String
  imports Sieve_Types
begin

text \<open>
  \<open>crates/sieve/src/string.rs\<close>: the \<open>encoded-character\<close> extension, which replaces
  \<open>${hex: ...}\<close> and \<open>${unicode: ...}\<close> in strings and leaves everything else alone.
\<close>

section \<open>Numbers in radix 16\<close>

definition hex_digit :: "byte \<Rightarrow> nat" where
  "hex_digit c = (if is_ascii_digit c then byte_val c - 48
                  else if byte_val c \<le> 70 then byte_val c - 55 else byte_val c - 87)"

text \<open>\<open>from_str_radix(s, 16)\<close> on a string of at most six hexadecimal digits.\<close>

definition from_hex :: "bytes \<Rightarrow> nat" where
  "from_hex s = foldl (\<lambda>n c. n * 16 + hex_digit c) 0 s"

section \<open>Sequences\<close>

text \<open>The loop over the groups of a \<open>hex\<close> sequence: \<open>None\<close> when a group is malformed.\<close>

fun decode_hex_groups :: "bytes list \<Rightarrow> bytes option" where
  "decode_hex_groups [] = Some []"
| "decode_hex_groups (pair # rest) =
     (if pair = [] \<or> 2 < length pair \<or> \<not> list_all is_ascii_hexdigit pair then None
      else map_option ((#) (char_of (from_hex pair))) (decode_hex_groups rest))"

text \<open>The loop over the groups of a \<open>unicode\<close> sequence, with its two early returns.\<close>

fun decode_unicode_groups :: "bytes list \<Rightarrow> bytes + bytes option" where
  "decode_unicode_groups [] = Inr (Some [])"
| "decode_unicode_groups (grp # rest) =
     (if grp = [] \<or> 6 < length grp \<or> \<not> list_all is_ascii_hexdigit grp then Inr None
      else if \<not> is_scalar (from_hex grp) then Inl (''invalid unicode code point '' @ grp)
      else and_then (decode_unicode_groups rest)
             (\<lambda>r. Inr (map_option ((@) (utf8_encode (from_hex grp))) r)))"

definition find_byte :: "byte \<Rightarrow> bytes \<Rightarrow> nat option" where
  "find_byte c s =
     (let n = length (takeWhile ((\<noteq>) c) s) in if n < length s then Some n else None)"

text \<open>The \<open>match kind\<close> of \<open>decode_sequence\<close>: the decoded text of the body, if it is one.\<close>

definition decode_digits :: "bytes \<Rightarrow> bytes \<Rightarrow> bytes + bytes option" where
  "decode_digits kind digits =
     (if kind = ''hex'' then
        (case decode_hex_groups (split_ascii_whitespace digits) of
           None \<Rightarrow> Inr None
         | Some decoded \<Rightarrow>
             if decoded = [] then Inr None
             else if utf8_valid decoded then Inr (Some decoded) else Inr None)
      else if kind = ''unicode'' then
        and_then (decode_unicode_groups (split_ascii_whitespace digits))
          (\<lambda>r. if split_ascii_whitespace digits = [] then Inr None else Inr r)
      else Inr None)"

definition decode_sequence :: "bytes \<Rightarrow> nat \<Rightarrow> bytes + (bytes \<times> nat) option" where
  "decode_sequence input start =
     (case find_byte CHR ''}'' (drop start input) of
        None \<Rightarrow> Inr None
      | Some i \<Rightarrow>
          (let close = start + i;
               body = take (close - (start + 2)) (drop (start + 2) input)
           in case split_once ((=) CHR '':'') body of
                None \<Rightarrow> Inr None
              | Some (kind, digits) \<Rightarrow>
                  and_then (decode_digits (to_ascii_lowercase (trim kind)) (trim digits))
                    (\<lambda>r. Inr (map_option (\<lambda>decoded. (decoded, close + 1)) r))))"

lemma decode_sequence_Some:
  "decode_sequence input start = Inr (Some (d, stop)) \<Longrightarrow>
     start < stop \<and> stop \<le> length input
     \<and> (\<exists>kind digits. decode_digits kind digits = Inr (Some d))"
  by (auto simp: decode_sequence_def find_byte_def Let_def and_then_eq_Inr
      split: option.splits if_splits) blast

text \<open>The bytes of the character that starts at \<open>pos\<close> (\<open>input[pos..].chars().next()\<close>).\<close>

definition char_len_at :: "bytes \<Rightarrow> nat \<Rightarrow> nat" where
  "char_len_at input pos =
     (case drop pos input of
        [] \<Rightarrow> 0
      | c # s \<Rightarrow> (case utf8_next c s of Inr (_, n) \<Rightarrow> n | Inl n \<Rightarrow> n))"

lemma char_len_at_pos:
  "pos < length input \<Longrightarrow> 0 < char_len_at input pos \<and> length input - (pos + char_len_at input pos) < length input - pos"
  by (auto simp: char_len_at_def split: list.splits sum.splits
      dest: utf8_next_Inr_pos utf8_next_Inl_pos)

function decode_loop :: "bytes \<Rightarrow> nat \<Rightarrow> bytes \<Rightarrow> bytes + bytes" where
  "decode_loop input pos out =
     (if pos < length input then
        let plain = decode_loop input (pos + char_len_at input pos)
                      (out @ take (char_len_at input pos) (drop pos input))
        in if input ! pos = CHR ''$'' \<and> get_at input (pos + 1) = Some CHR ''{'' then
             (case decode_sequence input pos of
                Inl e \<Rightarrow> Inl e
              | Inr (Some (decoded, stop)) \<Rightarrow> decode_loop input stop (out @ decoded)
              | Inr None \<Rightarrow> plain)
           else plain
      else Inr out)"
  by pat_completeness auto
termination
  by (relation "measure (\<lambda>(input, pos, out). length input - pos)")
    (auto dest!: char_len_at_pos decode_sequence_Some)

definition decode_encoded_characters :: "bytes \<Rightarrow> bytes + bytes" where
  "decode_encoded_characters input = decode_loop input 0 []"

declare decode_loop.simps [simp del]

section \<open>Properties\<close>

text \<open>The input has no \<open>${\<close> at or after a position.\<close>

definition no_sequence :: "bytes \<Rightarrow> bool" where
  "no_sequence s \<longleftrightarrow> \<not> sublist ''${'' s"

lemma no_sequence_at:
  assumes "no_sequence s" "pos < length s" "s ! pos = CHR ''$''"
  shows "get_at s (pos + 1) \<noteq> Some CHR ''{''"
proof
  assume "get_at s (pos + 1) = Some CHR ''{''"
  then have l: "pos + 1 < length s" and b: "s ! (pos + 1) = CHR ''{''"
    by (auto simp: get_at_eq_Some)
  have "drop pos s = s ! pos # s ! (pos + 1) # drop (pos + 2) s"
    using l by (metis Cons_nth_drop_Suc Suc_eq_plus1 add_2_eq_Suc' add_lessD1)
  then have "s = take pos s @ ''${'' @ drop (pos + 2) s"
    using b assms(3) by (metis append_Cons append_Nil append_take_drop_id)
  then show False using assms(1) unfolding no_sequence_def sublist_def by blast
qed

lemma decode_loop_plain:
  "no_sequence input \<Longrightarrow> decode_loop input pos out = Inr (out @ drop pos input)"
proof (induction input pos out rule: decode_loop.induct)
  case (1 input pos out)
  show ?case
  proof (cases "pos < length input")
    case True
    let ?n = "char_len_at input pos"
    have step: "decode_loop input pos out
            = decode_loop input (pos + ?n) (out @ take ?n (drop pos input))"
      using True no_sequence_at [OF "1.prems" True]
      by (subst decode_loop.simps) (auto simp: Let_def)
    also have "\<dots> = Inr ((out @ take ?n (drop pos input)) @ drop (pos + ?n) input)"
      using "1.IH"(1) [OF True "1.prems"] .
    also have "\<dots> = Inr (out @ drop pos input)"
      using append_take_drop_id [of ?n "drop pos input"] by (simp add: add.commute)
    finally show ?thesis .
  next
    case False
    then show ?thesis by (subst decode_loop.simps) simp
  qed
qed

text \<open>Decoding keeps strings well-formed: the output of the loop is valid UTF-8.\<close>

lemma decode_unicode_groups_valid:
  "decode_unicode_groups gs = Inr (Some d) \<Longrightarrow> utf8_valid d"
proof (induction gs arbitrary: d)
  case Nil
  then show ?case by simp
next
  case (Cons g gs)
  then obtain d' where "is_scalar (from_hex g)" "decode_unicode_groups gs = Inr (Some d')"
    "d = utf8_encode (from_hex g) @ d'"
    by (auto simp: and_then_eq_Inr split: if_splits)
  with Cons.IH [of d'] show ?case
    using utf8_valid_append [of "utf8_encode (from_hex g)" d']
      utf8_valid_str_of [of "[from_hex g]"] by simp
qed

lemma decode_digits_valid: "decode_digits kind digits = Inr (Some d) \<Longrightarrow> utf8_valid d"
  by (auto simp: decode_digits_def and_then_eq_Inr
      split: option.splits if_splits dest: decode_unicode_groups_valid)

text \<open>A sequence ends right behind its closing brace, an ASCII byte.\<close>

lemma decode_sequence_close:
  assumes "decode_sequence input start = Inr (Some (d, stop))"
  shows "0 < stop \<and> input ! (stop - 1) = CHR ''}''"
proof -
  from assms obtain i where i: "find_byte CHR ''}'' (drop start input) = Some i" "stop = start + i + 1"
    by (auto simp: decode_sequence_def Let_def and_then_eq_Inr split: option.splits)
  then have "i < length (drop start input)" "i = length (takeWhile ((\<noteq>) CHR ''}'') (drop start input))"
    by (auto simp: find_byte_def Let_def split: if_splits)
  then have "drop start input ! i = CHR ''}''"
    using nth_length_takeWhile [of "(\<noteq>) CHR ''}''" "drop start input"] by simp
  with i \<open>i < length (drop start input)\<close> show ?thesis by simp
qed

lemma utf8_valid_after:
  assumes "utf8_valid s" "0 < n" "n \<le> length s" "is_ascii (s ! (n - 1))"
  shows "utf8_valid (drop n s)"
proof -
  have "s = take (n - 1) s @ s ! (n - 1) # drop n s"
    using assms(2,3) id_take_nth_drop [of "n - 1" s] by simp
  with assms(1,4) show ?thesis by (metis utf8_valid_ascii_split)
qed

lemma decode_loop_valid:
  "utf8_valid (drop pos input) \<Longrightarrow> utf8_valid out \<Longrightarrow> utf8_valid input \<Longrightarrow>
     decode_loop input pos out = Inr t \<Longrightarrow> utf8_valid t"
proof (induction input pos out rule: decode_loop.induct)
  case (1 input pos out)
  show ?case
  proof (cases "pos < length input")
    case False
    with "1.prems" show ?thesis by (simp add: decode_loop.simps [of input pos])
  next
    case True
    let ?n = "char_len_at input pos"
    from True obtain c s where cs: "drop pos input = c # s"
      by (metis Cons_nth_drop_Suc)
    with "1.prems"(1) obtain x n where x: "utf8_next c s = Inr (x, n)" "utf8_valid (drop n (c # s))"
      by (auto simp: utf8_valid_def utf8_decode.simps(2) split: sum.splits)
    then have n: "?n = n" by (simp add: char_len_at_def cs)
    have v: "utf8_valid (drop (pos + ?n) input)"
      using x(2) cs n by (metis add.commute drop_drop)
    have o: "utf8_valid (out @ take ?n (drop pos input))"
      using x(1) cs n "1.prems"(2) by (simp add: utf8_valid_append utf8_valid_take_next)
    note plain = "1.IH"(1) [OF True v o "1.prems"(3)]
    show ?thesis
    proof (cases "input ! pos = CHR ''$'' \<and> get_at input (pos + 1) = Some CHR ''{''
        \<and> decode_sequence input pos \<noteq> Inr None")
      case False
      with "1.prems"(4) True plain show ?thesis
        by (auto simp: decode_loop.simps [of input pos] Let_def split: if_splits)
    next
      case seq: True
      with "1.prems"(4) True obtain d stop where
        ds: "decode_sequence input pos = Inr (Some (d, stop))"
        and t: "decode_loop input stop (out @ d) = Inr t"
        by (auto simp: decode_loop.simps [of input pos] Let_def split: sum.splits option.splits)
      have "utf8_valid d" "stop \<le> length input"
        using decode_sequence_Some [OF ds] decode_digits_valid by blast+
      moreover have "utf8_valid (drop stop input)"
        using decode_sequence_close [OF ds] \<open>stop \<le> length input\<close> "1.prems"(3)
        by (intro utf8_valid_after) (simp_all add: is_ascii_def)
      ultimately show ?thesis
        using "1.IH"(2) [OF True refl _ ds refl refl _ _ "1.prems"(3) t] seq "1.prems"(2)
        by (simp add: utf8_valid_append)
    qed
  qed
qed



text \<open>A string without \<open>${\<close> passes through unchanged.\<close>

theorem decode_encoded_characters_plain:
  "no_sequence input \<Longrightarrow> decode_encoded_characters input = Inr input"
  by (simp add: decode_encoded_characters_def decode_loop_plain)

theorem decode_encoded_characters_plain_witness:
  "no_sequence ''plain $ {text}''
   \<and> decode_encoded_characters ''plain $ {text}'' = Inr ''plain $ {text}''"
proof -
  have "no_sequence ''plain $ {text}''"
    by (simp add: no_sequence_def str_contains_sublist [symmetric])
  with decode_encoded_characters_plain [OF this] show ?thesis by blast
qed

end
