(* ===== verification/Sieve_Grammar.thy ===== *)
theory Sieve_Grammar
  imports Sieve_Lexer Sieve_String
begin

text \<open>
  \<open>crates/sieve/src/grammar.rs\<close>: the one-pass compiler from tokens to instructions. The
  parser's struct is a record that every method takes and returns; a method that fails returns
  the \<open>CompileError\<close>, and \<open>Parser::patch\<close> returns \<open>Panic\<close> where the source indexes
  out of range or reaches \<open>unreachable!\<close>. The vector of open blocks grows at its end.
\<close>

section \<open>The parser's state\<close>

record open_block =
  jz_at :: "nat option"
  chain_jmps :: "nat list"

record parser =
  pr_tokens :: "token list"
  pr_pos :: nat
  pr_limits :: compiler_limits
  pr_instructions :: "instruction list"
  pr_capabilities :: "bytes list"
  pr_commands_started :: bool
  pr_blocks :: "open_block list"

definition parser_new :: "token list \<Rightarrow> compiler_limits \<Rightarrow> parser" where
  "parser_new tokens lim =
     \<lparr>pr_tokens = tokens, pr_pos = 0, pr_limits = lim, pr_instructions = [], pr_capabilities = [],
      pr_commands_started = False, pr_blocks = []\<rparr>"

definition pr_peek :: "parser \<Rightarrow> tok option" where
  "pr_peek p = map_option t_tok (get_at (pr_tokens p) (pr_pos p))"

definition pr_advance :: "parser \<Rightarrow> token option \<times> parser" where
  "pr_advance p =
     (case get_at (pr_tokens p) (pr_pos p) of
        None \<Rightarrow> (None, p)
      | Some t \<Rightarrow> (Some t, p\<lparr>pr_pos := pr_pos p + 1\<rparr>))"

definition err_at :: "token \<Rightarrow> bytes \<Rightarrow> fault" where
  "err_at t message = compile_err (t_line t) (t_col t) message"

definition pr_err :: "parser \<Rightarrow> bytes \<Rightarrow> fault" where
  "pr_err p message =
     (case get_at (pr_tokens p) (min (pr_pos p) (length (pr_tokens p) - 1)) of
        Some t \<Rightarrow> compile_err (t_line t) (t_col t) message
      | None \<Rightarrow> compile_err 1 1 message)"

abbreviation quoted :: "bytes \<Rightarrow> bytes" where
  "quoted s \<equiv> CHR 0x22 # s @ [CHR 0x22]"

abbreviation ticked :: "bytes \<Rightarrow> bytes" where
  "ticked s \<equiv> CHR 0x27 # s @ [CHR 0x27]"

definition pr_expect :: "tok \<Rightarrow> bytes \<Rightarrow> parser \<Rightarrow> fault + parser" where
  "pr_expect expected description p =
     (case pr_advance p of
        (Some t, p') \<Rightarrow>
          if t_tok t = expected then Inr p' else Inl (err_at t (''expected '' @ description))
      | (None, p') \<Rightarrow> Inl (pr_err p' (''expected '' @ description)))"

definition has_capability :: "parser \<Rightarrow> bytes \<Rightarrow> bool" where
  "has_capability p name \<longleftrightarrow> list_ex (\<lambda>c. c = name) (pr_capabilities p)"

definition need_capability :: "parser \<Rightarrow> bytes \<Rightarrow> token \<Rightarrow> fault + unit" where
  "need_capability p name t =
     (if has_capability p name then Inr ()
      else Inl (err_at t (quoted name @ '' must be required first'')))"

fun set_jump :: "nat \<Rightarrow> instruction \<Rightarrow> instruction option" where
  "set_jump t (Jmp _) = Some (Jmp t)"
| "set_jump t (Jz _) = Some (Jz t)"
| "set_jump t (Jnz _) = Some (Jnz t)"
| "set_jump t _ = None"

definition patch :: "nat \<Rightarrow> nat \<Rightarrow> parser \<Rightarrow> fault + parser" where
  "patch index target p =
     (case Option.bind (get_at (pr_instructions p) index) (set_jump target) of
        None \<Rightarrow> Inl Panic
      | Some i \<Rightarrow> Inr (p\<lparr>pr_instructions := (pr_instructions p)[index := i]\<rparr>))"

text \<open>\<open>for jump in jumps { self.patch(jump, target); }\<close>\<close>

fun patch_all :: "nat list \<Rightarrow> nat \<Rightarrow> parser \<Rightarrow> fault + parser" where
  "patch_all [] target p = Inr p"
| "patch_all (j # js) target p = and_then (patch j target p) (patch_all js target)"

definition push_instruction :: "instruction \<Rightarrow> parser \<Rightarrow> parser" where
  "push_instruction i p = p\<lparr>pr_instructions := pr_instructions p @ [i]\<rparr>"

text \<open>The number of tokens left: every loop of the parser is bounded by it.\<close>

definition pr_left :: "parser \<Rightarrow> nat" where
  "pr_left p = length (pr_tokens p) - pr_pos p"

lemma pr_advance_Some: "pr_advance p = (Some t, p') \<Longrightarrow> pr_left p' < pr_left p"
  by (auto simp: pr_advance_def pr_left_def get_at_def split: option.splits if_splits)

lemma pr_advance_left: "pr_advance p = (t, p') \<Longrightarrow> pr_left p' \<le> pr_left p"
  by (auto simp: pr_advance_def pr_left_def split: option.splits)

lemma pr_peek_advance: "pr_peek p = Some k \<Longrightarrow> pr_left (snd (pr_advance p)) < pr_left p"
  by (auto simp: pr_peek_def pr_advance_def pr_left_def get_at_def split: option.splits if_splits)

section \<open>Strings and string lists\<close>

definition pr_decode :: "parser \<Rightarrow> bytes \<Rightarrow> nat \<Rightarrow> nat \<Rightarrow> fault + bytes" where
  "pr_decode p value line col =
     (if \<not> has_capability p ''encoded-character'' then Inr value
      else case decode_encoded_characters value of
        Inr decoded \<Rightarrow> Inr decoded
      | Inl message \<Rightarrow> Inl (compile_err (if line = 0 then 1 else line) (max col 1) message))"

definition parse_string :: "parser \<Rightarrow> fault + bytes \<times> parser" where
  "parse_string p =
     (case pr_advance p of
        (Some t, p') \<Rightarrow>
          (case t_tok t of
             Str value \<Rightarrow> and_then (pr_decode p' value (t_line t) (t_col t)) (\<lambda>s. Inr (s, p'))
           | _ \<Rightarrow> Inl (err_at t ''expected a string''))
      | (None, p') \<Rightarrow> Inl (pr_err p' ''expected a string''))"

lemma parse_string_left: "parse_string p = Inr (s, p') \<Longrightarrow> pr_left p' < pr_left p"
  by (auto simp: parse_string_def and_then_eq_Inr split: prod.splits option.splits tok.splits
      dest: pr_advance_Some)

function raw_list_loop :: "parser \<Rightarrow> bytes list \<Rightarrow> fault + bytes list \<times> parser" where
  "raw_list_loop p values =
     (case pr_advance p of
        (None, p1) \<Rightarrow> Inl (pr_err p1 ''expected a string'')
      | (Some t, p1) \<Rightarrow>
          (case t_tok t of
             Str value \<Rightarrow>
               if max_list_items (pr_limits p1) < length (values @ [value]) then
                 Inl (pr_err p1 ''list has too many items'')
               else
                 (case pr_advance p1 of
                    (None, p2) \<Rightarrow> Inl (pr_err p2 (''expected '' @ ticked '','' @ '' or '' @ ticked '']''))
                  | (Some t2, p2) \<Rightarrow>
                      if t_tok t2 = Comma then raw_list_loop p2 (values @ [value])
                      else if t_tok t2 = RBracket then Inr (values @ [value], p2)
                      else Inl (err_at t2 (''expected '' @ ticked '','' @ '' or '' @ ticked '']'')))
           | _ \<Rightarrow> Inl (err_at t ''expected a string'')))"
  by pat_completeness auto
termination
  by (relation "measure (pr_left \<circ> fst)") (auto dest!: pr_advance_Some [OF sym])

declare raw_list_loop.simps [simp del]

definition parse_raw_string_list :: "parser \<Rightarrow> fault + bytes list \<times> parser" where
  "parse_raw_string_list p =
     (case pr_advance p of
        (Some t, p') \<Rightarrow>
          (case t_tok t of
             Str value \<Rightarrow> Inr ([value], p')
           | LBracket \<Rightarrow> raw_list_loop p' []
           | _ \<Rightarrow> Inl (err_at t ''expected a string or string list''))
      | (None, p') \<Rightarrow> Inl (pr_err p' ''expected a string or string list''))"

fun decode_list :: "parser \<Rightarrow> bytes list \<Rightarrow> fault + bytes list" where
  "decode_list p [] = Inr []"
| "decode_list p (value # raw) =
     and_then (pr_decode p value 0 0) (\<lambda>d. and_then (decode_list p raw) (\<lambda>ds. Inr (d # ds)))"

definition parse_string_list :: "parser \<Rightarrow> fault + bytes list \<times> parser" where
  "parse_string_list p =
     and_then (parse_raw_string_list p)
       (\<lambda>(raw, p'). and_then (decode_list p' raw) (\<lambda>decoded. Inr (decoded, p')))"

definition valid_header_name :: "bytes \<Rightarrow> bool" where
  "valid_header_name header \<longleftrightarrow>
     header \<noteq> [] \<and> list_all (\<lambda>b. 33 \<le> byte_val b \<and> byte_val b \<le> 126 \<and> b \<noteq> CHR '':'') header"

definition parse_header_list :: "token \<Rightarrow> parser \<Rightarrow> fault + bytes list \<times> parser" where
  "parse_header_list t p =
     and_then (parse_string_list p)
       (\<lambda>(headers, p'). case find (\<lambda>h. \<not> valid_header_name h) headers of
          Some header \<Rightarrow> Inl (err_at t (''invalid header name '' @ quoted header))
        | None \<Rightarrow> Inr (headers, p'))"

section \<open>Tags\<close>

record match_tags =
  mt_match_type :: "match_type option"
  mt_comparator :: "comparator option"
  mt_part :: "address_part option"

definition is_match_tag :: "bytes \<Rightarrow> bool" where
  "is_match_tag tag \<longleftrightarrow> tag = ''is'' \<or> tag = ''contains'' \<or> tag = ''matches''"

definition is_part_tag :: "bytes \<Rightarrow> bool" where
  "is_part_tag tag \<longleftrightarrow> tag = ''all'' \<or> tag = ''localpart'' \<or> tag = ''domain''"

definition match_type_of :: "bytes \<Rightarrow> match_type" where
  "match_type_of tag = (if tag = ''is'' then Is else if tag = ''contains'' then Contains else Matches)"

definition part_of :: "bytes \<Rightarrow> address_part" where
  "part_of tag = (if tag = ''all'' then PartAll else if tag = ''localpart'' then Localpart else Domain)"

definition parse_comparator :: "token \<Rightarrow> parser \<Rightarrow> fault + comparator \<times> parser" where
  "parse_comparator t p =
     and_then (parse_string p)
       (\<lambda>(name, p').
          if name = ''i;octet'' then
            and_then (need_capability p' ''comparator-i;octet'' t) (\<lambda>_. Inr (Octet, p'))
          else if name = ''i;ascii-casemap'' then Inr (AsciiCaseMap, p')
          else Inl (err_at t (''unknown comparator '' @ quoted name)))"

lemma parse_comparator_left: "parse_comparator t p = Inr (c, p') \<Longrightarrow> pr_left p' < pr_left p"
  by (auto simp: parse_comparator_def and_then_eq_Inr split: if_splits dest: parse_string_left)

function match_tags_loop ::
  "token \<Rightarrow> bool \<Rightarrow> match_tags \<Rightarrow> parser \<Rightarrow> fault + match_tags \<times> parser" where
  "match_tags_loop t with_part m p =
     (case pr_peek p of
        Some (Tag tag) \<Rightarrow>
          (let p1 = snd (pr_advance p) in
           if is_match_tag tag then
             if mt_match_type m \<noteq> None then Inl (err_at t ''duplicate match type'')
             else match_tags_loop t with_part (m\<lparr>mt_match_type := Some (match_type_of tag)\<rparr>) p1
           else if tag = ''comparator'' then
             if mt_comparator m \<noteq> None then Inl (err_at t ''duplicate comparator'')
             else and_then (parse_comparator t p1)
               (\<lambda>(c, p2). match_tags_loop t with_part (m\<lparr>mt_comparator := Some c\<rparr>) p2)
           else if with_part \<and> is_part_tag tag then
             if mt_part m \<noteq> None then Inl (err_at t ''duplicate address part'')
             else match_tags_loop t with_part (m\<lparr>mt_part := Some (part_of tag)\<rparr>) p1
           else Inl (err_at t (''unknown tag '' @ quoted (CHR '':'' # tag))))
      | _ \<Rightarrow> Inr (m, p))"
  by pat_completeness auto
termination
proof (relation "measure (\<lambda>(t, wp, m, p). pr_left p)")
  fix t :: token and wp :: bool and m :: match_tags and p p1 p2 :: parser and k tag c cp
  assume k: "pr_peek p = Some k" and p1: "p1 = snd (pr_advance p)"
    and cp: "parse_comparator t p1 = Inr cp" "(c, p2) = cp"
  from cp have "pr_left p2 < pr_left p1" by (auto dest: parse_comparator_left)
  with pr_peek_advance [OF k] p1
  show "((t, wp, m\<lparr>mt_comparator := Some c\<rparr>, p2), (t, wp, m, p)) \<in> measure (\<lambda>(t, wp, m, p). pr_left p)"
    by simp
qed (simp_all add: pr_peek_advance)

declare match_tags_loop.simps [simp del]

definition parse_match_tags ::
  "token \<Rightarrow> bool \<Rightarrow> parser \<Rightarrow> fault + (match_type \<times> comparator \<times> address_part) \<times> parser" where
  "parse_match_tags t with_part p =
     and_then
       (match_tags_loop t with_part \<lparr>mt_match_type = None, mt_comparator = None, mt_part = None\<rparr> p)
       (\<lambda>(m, p'). Inr ((case mt_match_type m of Some x \<Rightarrow> x | None \<Rightarrow> Is,
                        case mt_comparator m of Some x \<Rightarrow> x | None \<Rightarrow> AsciiCaseMap,
                        case mt_part m of Some x \<Rightarrow> x | None \<Rightarrow> PartAll), p'))"

function size_tags_loop :: "token \<Rightarrow> bool option \<Rightarrow> parser \<Rightarrow> fault + bool option \<times> parser" where
  "size_tags_loop t over p =
     (case pr_peek p of
        Some (Tag tag) \<Rightarrow>
          (let p1 = snd (pr_advance p) in
           if tag = ''over'' \<or> tag = ''under'' then
             if over \<noteq> None then Inl (err_at t ''duplicate size tag'')
             else size_tags_loop t (Some (tag = ''over'')) p1
           else Inl (err_at t (''unknown tag '' @ quoted (CHR '':'' # tag))))
      | _ \<Rightarrow> Inr (over, p))"
  by pat_completeness auto
termination
  by (relation "measure (\<lambda>(t, over, p). pr_left p)") (simp_all add: pr_peek_advance)

declare size_tags_loop.simps [simp del]

section \<open>Tests\<close>

fun envelope_parts :: "token \<Rightarrow> bytes list \<Rightarrow> fault + envelope_part list" where
  "envelope_parts t [] = Inr []"
| "envelope_parts t (name # names) =
     (if to_ascii_lowercase name = ''from'' then
        and_then (envelope_parts t names) (\<lambda>parts. Inr (EnvFrom # parts))
      else if to_ascii_lowercase name = ''to'' then
        and_then (envelope_parts t names) (\<lambda>parts. Inr (EnvTo # parts))
      else Inl (err_at t (''unsupported envelope part '' @ quoted name)))"

definition parse_exists :: "token \<Rightarrow> bool \<Rightarrow> parser \<Rightarrow> fault + parser" where
  "parse_exists t negate p =
     and_then (parse_header_list t p)
       (\<lambda>(headers, p'). Inr (push_instruction (Test (Exists headers negate)) p'))"

definition parse_size :: "token \<Rightarrow> bool \<Rightarrow> parser \<Rightarrow> fault + parser" where
  "parse_size t negate p =
     and_then (size_tags_loop t None p)
       (\<lambda>(over, p1). case over of
          None \<Rightarrow> Inl (err_at t ''size requires :over or :under'')
        | Some ov \<Rightarrow>
            (case pr_advance p1 of
               (Some t2, p2) \<Rightarrow>
                 (case t_tok t2 of
                    Number n \<Rightarrow> Inr (push_instruction (Test (Size ov n negate)) p2)
                  | _ \<Rightarrow> Inl (err_at t ''size requires a number''))
             | (None, p2) \<Rightarrow> Inl (err_at t ''size requires a number'')))"

definition parse_header :: "token \<Rightarrow> bool \<Rightarrow> parser \<Rightarrow> fault + parser" where
  "parse_header t negate p =
     and_then (parse_match_tags t False p) (\<lambda>((mt, cmp, part), p1).
     and_then (parse_header_list t p1) (\<lambda>(headers, p2).
     and_then (parse_string_list p2) (\<lambda>(keys, p3).
       Inr (push_instruction (Test (Header headers keys mt cmp negate)) p3))))"

definition parse_address :: "token \<Rightarrow> bool \<Rightarrow> parser \<Rightarrow> fault + parser" where
  "parse_address t negate p =
     and_then (parse_match_tags t True p) (\<lambda>((mt, cmp, part), p1).
     and_then (parse_header_list t p1) (\<lambda>(headers, p2).
     and_then (parse_string_list p2) (\<lambda>(keys, p3).
       Inr (push_instruction (Test (Address headers keys part mt cmp negate)) p3))))"

definition parse_envelope :: "token \<Rightarrow> bool \<Rightarrow> parser \<Rightarrow> fault + parser" where
  "parse_envelope t negate p =
     and_then (need_capability p ''envelope'' t) (\<lambda>_.
     and_then (parse_match_tags t True p) (\<lambda>((mt, cmp, part), p1).
     and_then (parse_string_list p1) (\<lambda>(names, p2).
     and_then (envelope_parts t names) (\<lambda>parts.
     and_then (parse_string_list p2) (\<lambda>(keys, p3).
       Inr (push_instruction (Test (EnvelopeTest parts keys part mt cmp negate)) p3))))))"

text \<open>The arms of \<open>parse_test_expr\<close> that do not recurse.\<close>

definition parse_leaf :: "bytes \<Rightarrow> token \<Rightarrow> bool \<Rightarrow> parser \<Rightarrow> fault + parser" where
  "parse_leaf word t negate p =
     (if word = ''true'' \<or> word = ''false'' then
        Inr (push_instruction (Test (Bool ((word = ''true'') \<noteq> negate))) p)
      else if word = ''exists'' then parse_exists t negate p
      else if word = ''size'' then parse_size t negate p
      else if word = ''header'' then parse_header t negate p
      else if word = ''address'' then parse_address t negate p
      else if word = ''envelope'' then parse_envelope t negate p
      else Inl (err_at t (''unknown test '' @ quoted word)))"

text \<open>Parsers only move forward; \<open>pr_fwd\<close> is what they keep of the state.\<close>

definition pr_fwd :: "parser \<Rightarrow> parser \<Rightarrow> bool" where
  "pr_fwd p p' \<longleftrightarrow> pr_tokens p' = pr_tokens p \<and> pr_limits p' = pr_limits p \<and> pr_pos p \<le> pr_pos p'
     \<and> pr_capabilities p' = pr_capabilities p \<and> pr_blocks p' = pr_blocks p
     \<and> pr_commands_started p' = pr_commands_started p"

lemma pr_fwd_refl [simp]: "pr_fwd p p"
  and pr_fwd_trans [trans]: "pr_fwd p p' \<Longrightarrow> pr_fwd p' p'' \<Longrightarrow> pr_fwd p p''"
  and pr_fwd_push [simp]: "pr_fwd p (push_instruction i p') = pr_fwd p p'"
  and pr_fwd_left: "pr_fwd p p' \<Longrightarrow> pr_left p' \<le> pr_left p"
  by (auto simp: pr_fwd_def push_instruction_def pr_left_def)

lemma pr_advance_fwd:
  "pr_advance p = (t, p') \<Longrightarrow> pr_fwd p p' \<and> pr_instructions p' = pr_instructions p"
  by (auto simp: pr_advance_def pr_fwd_def split: option.splits)

lemma pr_skip_fwd: "pr_fwd p (snd (pr_advance p)) \<and> pr_instructions (snd (pr_advance p)) = pr_instructions p"
  using pr_advance_fwd [of p "fst (pr_advance p)" "snd (pr_advance p)"] by simp

text \<open>\<open>pr_read\<close>: the same, with no instruction added.\<close>

definition pr_read :: "parser \<Rightarrow> parser \<Rightarrow> bool" where
  "pr_read p p' \<longleftrightarrow> pr_fwd p p' \<and> pr_instructions p' = pr_instructions p"

lemma pr_read_refl [simp]: "pr_read p p"
  and pr_read_trans [trans]: "pr_read p p' \<Longrightarrow> pr_read p' p'' \<Longrightarrow> pr_read p p''"
  and pr_read_advance: "pr_advance p = (t, p') \<Longrightarrow> pr_read p p'"
  and pr_read_skip: "pr_read p (snd (pr_advance p))"
  using pr_advance_fwd pr_skip_fwd by (auto simp: pr_read_def intro: pr_fwd_trans)

lemma pr_read_expect: "pr_expect k d p = Inr p' \<Longrightarrow> pr_read p p'"
  by (auto simp: pr_expect_def split: prod.splits option.splits if_splits dest: pr_read_advance)

lemma pr_read_string: "parse_string p = Inr (s, p') \<Longrightarrow> pr_read p p'"
  by (auto simp: parse_string_def and_then_eq_Inr split: prod.splits option.splits tok.splits
      dest: pr_read_advance)

lemma pr_read_raw_loop: "raw_list_loop p vs = Inr (ws, p') \<Longrightarrow> pr_read p p'"
proof (induction p vs rule: raw_list_loop.induct)
  case (1 p vs)
  from "1.prems" obtain t p1 v t2 p2 where t: "pr_advance p = (Some t, p1)" "t_tok t = Str v"
    "\<not> max_list_items (pr_limits p1) < length (vs @ [v])"
    "pr_advance p1 = (Some t2, p2)" "t_tok t2 = Comma \<or> t_tok t2 = RBracket"
    by (auto simp: raw_list_loop.simps [of p] split: prod.splits option.splits tok.splits if_splits)
  have r: "pr_read p p2" using t(1,4) by (blast intro: pr_read_trans pr_read_advance)
  from t(5) show ?case
  proof
    assume c: "t_tok t2 = Comma"
    with "1.prems" t have "raw_list_loop p2 (vs @ [v]) = Inr (ws, p')"
      by (simp add: raw_list_loop.simps [of p])
    from "1.IH" [OF t(1) [symmetric] refl t(2,3) t(4) [symmetric] refl c this] r
    show ?case by (blast intro: pr_read_trans)
  next
    assume "t_tok t2 = RBracket"
    with "1.prems" t r show ?case by (simp add: raw_list_loop.simps [of p])
  qed
qed

lemma pr_read_raw: "parse_raw_string_list p = Inr (vs, p') \<Longrightarrow> pr_read p p'"
  by (auto simp: parse_raw_string_list_def split: prod.splits option.splits tok.splits
      dest: pr_read_advance pr_read_raw_loop intro: pr_read_trans)

lemma pr_read_list: "parse_string_list p = Inr (vs, p') \<Longrightarrow> pr_read p p'"
  by (auto simp: parse_string_list_def and_then_eq_Inr dest: pr_read_raw)

lemma pr_read_headers: "parse_header_list t p = Inr (vs, p') \<Longrightarrow> pr_read p p'"
  by (auto simp: parse_header_list_def and_then_eq_Inr split: option.splits dest: pr_read_list)

lemma pr_read_comparator: "parse_comparator t p = Inr (c, p') \<Longrightarrow> pr_read p p'"
  by (auto simp: parse_comparator_def and_then_eq_Inr split: if_splits dest: pr_read_string)

lemma pr_read_match_loop: "match_tags_loop t wp m p = Inr (m', p') \<Longrightarrow> pr_read p p'"
proof (induction t wp m p rule: match_tags_loop.induct)
  case (1 t wp m p)
  let ?p1 = "snd (pr_advance p)"
  have r: "pr_read p ?p1" by (rule pr_read_skip)
  show ?case
  proof (cases "\<exists>tag. pr_peek p = Some (Tag tag)")
    case False
    with "1.prems" show ?thesis
      by (auto simp: match_tags_loop.simps [of _ _ _ p] split: option.splits tok.splits)
  next
    case True
    then obtain tag where tag: "pr_peek p = Some (Tag tag)" by blast
    note e = match_tags_loop.simps [of t wp m p] and ih = "1.IH" [OF tag refl refl]
    consider (match_tag) "is_match_tag tag" | (cmp) "\<not> is_match_tag tag" "tag = ''comparator''"
      | (part) "\<not> is_match_tag tag" "tag \<noteq> ''comparator''" by blast
    then show ?thesis
    proof cases
      case match_tag
      with "1.prems" tag ih(1) r show ?thesis
        by (auto simp: e Let_def split: if_splits intro: pr_read_trans)
    next
      case cmp
      have n: "\<not> mt_comparator m \<noteq> None" using "1.prems" tag cmp by (simp add: e split: if_splits)
      have "and_then (parse_comparator t ?p1)
          (\<lambda>(c, p2). match_tags_loop t wp (m\<lparr>mt_comparator := Some c\<rparr>) p2) = Inr (m', p')"
        using "1.prems" tag cmp n by (simp add: e Let_def)
      then obtain c p2 where c: "parse_comparator t ?p1 = Inr (c, p2)"
        "match_tags_loop t wp (m\<lparr>mt_comparator := Some c\<rparr>) p2 = Inr (m', p')"
        by (auto simp: and_then_eq_Inr)
      from ih(2) [OF cmp n c(1) refl c(2)] r c(1) show ?thesis
        by (blast intro: pr_read_trans pr_read_comparator)
    next
      case part
      with "1.prems" tag ih(3) r show ?thesis
        by (auto simp: e Let_def split: if_splits intro: pr_read_trans)
    qed
  qed
qed

lemma pr_read_match_tags: "parse_match_tags t wp p = Inr (m, p') \<Longrightarrow> pr_read p p'"
  by (auto simp: parse_match_tags_def and_then_eq_Inr dest: pr_read_match_loop)

lemma pr_read_size_loop: "size_tags_loop t ov p = Inr (ov', p') \<Longrightarrow> pr_read p p'"
proof (induction t ov p rule: size_tags_loop.induct)
  case (1 t ov p)
  show ?case
  proof (cases "\<exists>tag. pr_peek p = Some (Tag tag)")
    case False
    with "1.prems" show ?thesis
      by (auto simp: size_tags_loop.simps [of _ _ p] split: option.splits tok.splits)
  next
    case True
    then obtain tag where tag: "pr_peek p = Some (Tag tag)" by blast
    from "1.prems" tag have "tag = ''over'' \<or> tag = ''under''" "\<not> ov \<noteq> None"
      "size_tags_loop t (Some (tag = ''over'')) (snd (pr_advance p)) = Inr (ov', p')"
      by (auto simp: size_tags_loop.simps [of _ _ p] Let_def split: if_splits)
    from "1.IH" [OF tag refl refl this] pr_read_skip show ?thesis by (blast intro: pr_read_trans)
  qed
qed

text \<open>
  A leaf test appends one test instruction that carries the requested negation, names valid
  headers only, and uses no capability that was not required.
\<close>

fun test_negated :: "test \<Rightarrow> bool \<Rightarrow> bool" where
  "test_negated (Header _ _ _ _ n) b = (n = b)"
| "test_negated (Address _ _ _ _ _ n) b = (n = b)"
| "test_negated (EnvelopeTest _ _ _ _ _ n) b = (n = b)"
| "test_negated (Exists _ n) b = (n = b)"
| "test_negated (Size _ _ n) b = (n = b)"
| "test_negated (Bool _) b = True"

definition comparator_ok :: "bytes list \<Rightarrow> comparator \<Rightarrow> bool" where
  "comparator_ok caps c \<longleftrightarrow> c = AsciiCaseMap \<or> ''comparator-i;octet'' \<in> set caps"

fun test_ok :: "bytes list \<Rightarrow> test \<Rightarrow> bool" where
  "test_ok caps (Header hs _ _ c _) = (list_all valid_header_name hs \<and> comparator_ok caps c)"
| "test_ok caps (Address hs _ _ _ c _) = (list_all valid_header_name hs \<and> comparator_ok caps c)"
| "test_ok caps (EnvelopeTest _ _ _ _ c _) = (''envelope'' \<in> set caps \<and> comparator_ok caps c)"
| "test_ok caps (Exists hs _) = list_all valid_header_name hs"
| "test_ok caps (Size _ _ _) = True"
| "test_ok caps (Bool _) = True"

lemma has_capability_iff: "has_capability p name \<longleftrightarrow> name \<in> set (pr_capabilities p)"
  by (auto simp: has_capability_def list_ex_iff)

lemma need_capability_Inr: "need_capability p name t = Inr u \<Longrightarrow> name \<in> set (pr_capabilities p)"
  by (simp add: need_capability_def has_capability_iff split: if_splits)

lemma pr_read_capabilities: "pr_read p p' \<Longrightarrow> pr_capabilities p' = pr_capabilities p"
  by (simp add: pr_read_def pr_fwd_def)

lemma parse_header_list_valid:
  "parse_header_list t p = Inr (hs, p') \<Longrightarrow> list_all valid_header_name hs"
  by (auto simp: parse_header_list_def and_then_eq_Inr find_None_iff list_all_iff split: option.splits)

lemma parse_comparator_ok:
  assumes "parse_comparator t p = Inr (c, p')"
  shows "comparator_ok (pr_capabilities p) c"
proof -
  from assms obtain name q where n: "parse_string p = Inr (name, q)"
    and c: "(if name = ''i;octet'' then
            and_then (need_capability q ''comparator-i;octet'' t) (\<lambda>_. Inr (Octet, q))
          else if name = ''i;ascii-casemap'' then Inr (AsciiCaseMap, q)
          else Inl (err_at t (''unknown comparator '' @ quoted name))) = Inr (c, p')"
    unfolding parse_comparator_def by (auto elim!: and_then_InrE)
  have "pr_capabilities q = pr_capabilities p" using pr_read_string [OF n] by (rule pr_read_capabilities)
  with c show ?thesis
    by (auto simp: comparator_ok_def split: if_splits elim!: and_then_InrE dest: need_capability_Inr)
qed

lemma match_tags_loop_ok:
  "match_tags_loop t wp m p = Inr (m', p') \<Longrightarrow> pred_option (comparator_ok (pr_capabilities p)) (mt_comparator m) \<Longrightarrow>
     pred_option (comparator_ok (pr_capabilities p)) (mt_comparator m')"
proof (induction t wp m p rule: match_tags_loop.induct)
  case (1 t wp m p)
  let ?p1 = "snd (pr_advance p)"
  have r: "pr_capabilities ?p1 = pr_capabilities p" by (rule pr_read_capabilities [OF pr_read_skip])
  show ?case
  proof (cases "\<exists>tag. pr_peek p = Some (Tag tag)")
    case False
    with "1.prems" show ?thesis
      by (auto simp: match_tags_loop.simps [of _ _ _ p] split: option.splits tok.splits)
  next
    case True
    then obtain tag where tag: "pr_peek p = Some (Tag tag)" by blast
    note e = match_tags_loop.simps [of t wp m p] and ih = "1.IH" [OF tag refl refl]
    consider (match_tag) "is_match_tag tag" | (cmp) "\<not> is_match_tag tag" "tag = ''comparator''"
      | (part) "\<not> is_match_tag tag" "tag \<noteq> ''comparator''" by blast
    then show ?thesis
    proof cases
      case match_tag
      with "1.prems" tag ih(1) r show ?thesis by (simp add: e Let_def split: if_splits)
    next
      case cmp
      have n: "\<not> mt_comparator m \<noteq> None" using "1.prems" tag cmp by (simp add: e split: if_splits)
      have "and_then (parse_comparator t ?p1)
          (\<lambda>(c, p2). match_tags_loop t wp (m\<lparr>mt_comparator := Some c\<rparr>) p2) = Inr (m', p')"
        using "1.prems" tag cmp n by (simp add: e Let_def)
      then obtain c p2 where c: "parse_comparator t ?p1 = Inr (c, p2)"
        "match_tags_loop t wp (m\<lparr>mt_comparator := Some c\<rparr>) p2 = Inr (m', p')"
        by (auto simp: and_then_eq_Inr)
      from ih(2) [OF cmp n c(1) refl c(2)] r parse_comparator_ok [OF c(1)]
        pr_read_capabilities [OF pr_read_comparator [OF c(1)]] show ?thesis by simp
    next
      case part
      with "1.prems" tag ih(3) r show ?thesis by (simp add: e Let_def split: if_splits)
    qed
  qed
qed

lemma parse_match_tags_ok:
  assumes "parse_match_tags t wp p = Inr ((mt, c, part), p')"
  shows "comparator_ok (pr_capabilities p) c"
proof -
  from assms obtain m where
    m: "match_tags_loop t wp \<lparr>mt_match_type = None, mt_comparator = None, mt_part = None\<rparr> p = Inr (m, p')"
    and c: "c = (case mt_comparator m of Some x \<Rightarrow> x | None \<Rightarrow> AsciiCaseMap)"
    unfolding parse_match_tags_def by (auto elim!: and_then_InrE)
  from match_tags_loop_ok [OF m] c show ?thesis by (auto simp: comparator_ok_def split: option.splits)
qed

definition leaf_result :: "bool \<Rightarrow> parser \<Rightarrow> parser \<Rightarrow> bool" where
  "leaf_result negate p p' \<longleftrightarrow>
     (\<exists>q t. pr_read p q \<and> test_negated t negate \<and> test_ok (pr_capabilities p) t
        \<and> p' = push_instruction (Test t) q)"

lemma leaf_resultI:
  "pr_read p q \<Longrightarrow> test_negated t negate \<Longrightarrow> test_ok (pr_capabilities p) t \<Longrightarrow>
     leaf_result negate p (push_instruction (Test t) q)"
  by (auto simp: leaf_result_def)

lemma parse_exists_leaf: "parse_exists t n p = Inr p' \<Longrightarrow> leaf_result n p p'"
  by (auto simp: parse_exists_def pr_read_headers parse_header_list_valid elim!: and_then_InrE
      intro!: leaf_resultI)

lemma parse_size_leaf:
  assumes "parse_size t n p = Inr p'"
  shows "leaf_result n p p'"
proof -
  from assms obtain ov p1 where ov: "size_tags_loop t None p = Inr (ov, p1)"
    unfolding parse_size_def by (auto simp: and_then_eq_Inr)
  from assms obtain x t2 p2 k where "ov = Some x" "pr_advance p1 = (Some t2, p2)" "t_tok t2 = Number k"
    "p' = push_instruction (Test (Size x k n)) p2"
    by (simp add: parse_size_def ov split: option.splits prod.splits tok.splits)
  with ov show ?thesis
    by (auto dest!: pr_read_size_loop pr_read_advance intro!: leaf_resultI intro: pr_read_trans)
qed

lemma parse_header_leaf:
  assumes "parse_header t n p = Inr p'"
  shows "leaf_result n p p'"
proof -
  from assms obtain mt c part p1 hs p2 ks p3 where
    e: "parse_match_tags t False p = Inr ((mt, c, part), p1)" "parse_header_list t p1 = Inr (hs, p2)"
      "parse_string_list p2 = Inr (ks, p3)" "p' = push_instruction (Test (Header hs ks mt c n)) p3"
    unfolding parse_header_def by (auto elim!: and_then_InrE)
  have "pr_read p p3" using e by (blast intro: pr_read_trans pr_read_match_tags pr_read_headers pr_read_list)
  with e parse_match_tags_ok [OF e(1)] parse_header_list_valid [OF e(2)] show ?thesis
    by (simp add: leaf_resultI)
qed

lemma parse_address_leaf:
  assumes "parse_address t n p = Inr p'"
  shows "leaf_result n p p'"
proof -
  from assms obtain mt c part p1 hs p2 ks p3 where
    e: "parse_match_tags t True p = Inr ((mt, c, part), p1)" "parse_header_list t p1 = Inr (hs, p2)"
      "parse_string_list p2 = Inr (ks, p3)" "p' = push_instruction (Test (Address hs ks part mt c n)) p3"
    unfolding parse_address_def by (auto elim!: and_then_InrE)
  have "pr_read p p3" using e by (blast intro: pr_read_trans pr_read_match_tags pr_read_headers pr_read_list)
  with e parse_match_tags_ok [OF e(1)] parse_header_list_valid [OF e(2)] show ?thesis
    by (simp add: leaf_resultI)
qed

lemma parse_envelope_leaf:
  assumes "parse_envelope t n p = Inr p'"
  shows "leaf_result n p p'"
proof -
  from assms obtain u mt c part p1 ns p2 ps ks p3 where
    e: "need_capability p ''envelope'' t = Inr u" "parse_match_tags t True p = Inr ((mt, c, part), p1)"
      "parse_string_list p1 = Inr (ns, p2)" "parse_string_list p2 = Inr (ks, p3)"
      "p' = push_instruction (Test (EnvelopeTest ps ks part mt c n)) p3"
    unfolding parse_envelope_def by (auto elim!: and_then_InrE)
  have "pr_read p p3" using e by (blast intro: pr_read_trans pr_read_match_tags pr_read_list)
  with e parse_match_tags_ok [OF e(2)] need_capability_Inr [OF e(1)] show ?thesis
    by (simp add: leaf_resultI)
qed

lemma parse_leaf_leaf: "parse_leaf word t n p = Inr p' \<Longrightarrow> leaf_result n p p'"
  by (simp add: parse_leaf_def parse_exists_leaf parse_size_leaf parse_header_leaf parse_address_leaf
      parse_envelope_leaf split: if_splits) (auto intro: leaf_resultI)

lemma leaf_result_fwd: "leaf_result n p p' \<Longrightarrow> pr_fwd p p'"
  by (auto simp: leaf_result_def pr_read_def)

section \<open>Test expressions\<close>

function parse_test_expr :: "bool \<Rightarrow> nat \<Rightarrow> parser \<Rightarrow> fault + parser"
  and test_list_loop :: "bool \<Rightarrow> nat \<Rightarrow> bool \<Rightarrow> nat list \<Rightarrow> parser \<Rightarrow> fault + nat list \<times> parser" where
  "parse_test_expr negate depth p =
     (if max_nested_tests (pr_limits p) \<le> depth then Inl (pr_err p ''tests are nested too deeply'')
      else case pr_advance p of
        (None, p1) \<Rightarrow> Inl (pr_err p1 ''expected a test'')
      | (Some t, p1) \<Rightarrow>
          (case t_tok t of
             Identifier word \<Rightarrow>
               if word = ''not'' then parse_test_expr (\<not> negate) (depth + 1) p1
               else if word = ''allof'' \<or> word = ''anyof'' then
                 and_then (pr_expect LParen (ticked ''('') p1) (\<lambda>p2.
                 and_then (test_list_loop negate depth ((word = ''allof'') \<noteq> negate) [] p2)
                   (\<lambda>(jumps, p3). patch_all jumps (length (pr_instructions p3)) p3))
               else parse_leaf word t negate p1
           | _ \<Rightarrow> Inl (err_at t ''expected a test'')))"
| "test_list_loop negate depth is_all jumps p =
     and_then (parse_test_expr negate (depth + 1) p) (\<lambda>p1.
       case pr_advance p1 of
         (Some t, p2) \<Rightarrow>
           if t_tok t = Comma then
             let p3 = push_instruction (if is_all then Jz usize_max else Jnz usize_max) p2
             in test_list_loop negate depth is_all (jumps @ [length (pr_instructions p3) - 1]) p3
           else if t_tok t = RParen then Inr (jumps, p2)
           else Inl (err_at t (''expected '' @ ticked '','' @ '' or '' @ ticked '')''))
       | (None, p2) \<Rightarrow> Inl (pr_err p2 (''expected '' @ ticked '','' @ '' or '' @ ticked '')'')))"
  by pat_completeness auto

lemma patch_fwd: "patch j t p = Inr p' \<Longrightarrow> pr_fwd p p' \<and> length (pr_instructions p') = length (pr_instructions p)"
  by (auto simp: patch_def pr_fwd_def split: option.splits)

lemma patch_all_fwd:
  "patch_all js t p = Inr p' \<Longrightarrow> pr_fwd p p' \<and> length (pr_instructions p') = length (pr_instructions p)"
proof (induction js arbitrary: p)
  case (Cons j js)
  from Cons.prems obtain q where q: "patch j t p = Inr q" "patch_all js t q = Inr p'"
    by (auto simp: and_then_eq_Inr)
  from patch_fwd [OF q(1)] Cons.IH [OF q(2)] show ?case by (auto intro: pr_fwd_trans)
qed simp

text \<open>The arms that succeed, for any call whose recursive calls are given by \<open>pe\<close> and \<open>lp\<close>.\<close>

definition parse_test_step ::
  "(bool \<Rightarrow> nat \<Rightarrow> parser \<Rightarrow> fault + parser) \<Rightarrow>
   (bool \<Rightarrow> nat \<Rightarrow> bool \<Rightarrow> nat list \<Rightarrow> parser \<Rightarrow> fault + nat list \<times> parser) \<Rightarrow>
   bool \<Rightarrow> nat \<Rightarrow> parser \<Rightarrow> parser \<Rightarrow> bool" where
  "parse_test_step pe lp negate depth p p' \<longleftrightarrow>
     (\<exists>t p1 word. depth < max_nested_tests (pr_limits p) \<and> pr_advance p = (Some t, p1) \<and> t_tok t = Identifier word \<and>
        (word = ''not'' \<and> pe (\<not> negate) (depth + 1) p1 = Inr p' \<or>
         word \<noteq> ''not'' \<and> (word = ''allof'' \<or> word = ''anyof'') \<and>
           (\<exists>p2 jumps p3. pr_expect LParen (ticked ''('') p1 = Inr p2 \<and>
              lp negate depth ((word = ''allof'') \<noteq> negate) [] p2 = Inr (jumps, p3) \<and>
              patch_all jumps (length (pr_instructions p3)) p3 = Inr p') \<or>
         word \<noteq> ''not'' \<and> \<not> (word = ''allof'' \<or> word = ''anyof'') \<and> parse_leaf word t negate p1 = Inr p'))"

lemma parse_test_step_cases:
  assumes "(if max_nested_tests (pr_limits p) \<le> depth then Inl (pr_err p ''tests are nested too deeply'')
      else case pr_advance p of
        (None, p1) \<Rightarrow> Inl (pr_err p1 ''expected a test'')
      | (Some t, p1) \<Rightarrow>
          (case t_tok t of
             Identifier word \<Rightarrow>
               if word = ''not'' then pe (\<not> negate) (depth + 1) p1
               else if word = ''allof'' \<or> word = ''anyof'' then
                 and_then (pr_expect LParen (ticked ''('') p1) (\<lambda>p2.
                 and_then (lp negate depth ((word = ''allof'') \<noteq> negate) [] p2)
                   (\<lambda>(jumps, p3). patch_all jumps (length (pr_instructions p3)) p3))
               else parse_leaf word t negate p1
           | _ \<Rightarrow> Inl (err_at t ''expected a test''))) = Inr p'"
  shows "parse_test_step pe lp negate depth p p'"
proof -
  from assms have d: "depth < max_nested_tests (pr_limits p)" by (auto split: if_splits)
  obtain x p1 where a: "pr_advance p = (x, p1)" by (cases "pr_advance p")
  from assms d a obtain t word where t: "x = Some t" "t_tok t = Identifier word"
    by (auto split: option.splits tok.splits)
  consider "word = ''not''" | "word \<noteq> ''not''" "word = ''allof'' \<or> word = ''anyof''"
    | "word \<noteq> ''not''" "\<not> (word = ''allof'' \<or> word = ''anyof'')" by blast
  then show ?thesis
  proof cases
    case 1
    with assms a t d show ?thesis unfolding parse_test_step_def by simp
  next
    case 2
    with assms a t d have "and_then (pr_expect LParen (ticked ''('') p1) (\<lambda>p2.
                 and_then (lp negate depth ((word = ''allof'') \<noteq> negate) [] p2)
                   (\<lambda>(jumps, p3). patch_all jumps (length (pr_instructions p3)) p3)) = Inr p'"
      by (simp del: HOL.disj_assoc)
    then obtain p2 jumps p3 where "pr_expect LParen (ticked ''('') p1 = Inr p2"
      "lp negate depth ((word = ''allof'') \<noteq> negate) [] p2 = Inr (jumps, p3)"
      "patch_all jumps (length (pr_instructions p3)) p3 = Inr p'"
      by (auto simp only: and_then_eq_Inr split_paired_Ex prod.case)
    with a t d 2 show ?thesis unfolding parse_test_step_def by blast
  next
    case 3
    with assms a t d have "parse_leaf word t negate p1 = Inr p'" by simp
    with a t d 3 show ?thesis unfolding parse_test_step_def by blast
  qed
qed

lemma pr_left_push [simp]: "pr_left (push_instruction i p) = pr_left p"
  by (simp add: pr_left_def push_instruction_def)

lemma pr_expect_left: "pr_expect k d p = Inr p' \<Longrightarrow> pr_left p' \<le> pr_left p"
  using pr_read_expect pr_fwd_left by (auto simp: pr_read_def)

text \<open>The placeholder pushed behind a comma.\<close>

abbreviation jump_hole :: "bool \<Rightarrow> instruction" where
  "jump_hole is_all \<equiv> if is_all then Jz usize_max else Jnz usize_max"

lemma test_list_step_cases:
  assumes "and_then r (\<lambda>p1.
       case pr_advance p1 of
         (Some t, p2) \<Rightarrow>
           if t_tok t = Comma then
             let p3 = push_instruction (jump_hole is_all) p2
             in lp (jumps @ [length (pr_instructions p3) - 1]) p3
           else if t_tok t = RParen then Inr (jumps, p2)
           else Inl (err_at t (''expected '' @ ticked '','' @ '' or '' @ ticked '')''))
       | (None, p2) \<Rightarrow> Inl (pr_err p2 (''expected '' @ ticked '','' @ '' or '' @ ticked '')''))) = Inr (js, p')"
  obtains p1 t p2 where "r = Inr p1" "pr_advance p1 = (Some t, p2)"
    "t_tok t = Comma" "lp (jumps @ [length (pr_instructions p2)]) (push_instruction (jump_hole is_all) p2) = Inr (js, p')"
  | p1 t p2 where "r = Inr p1" "pr_advance p1 = (Some t, p2)" "t_tok t = RParen" "js = jumps" "p' = p2"
proof -
  from assms obtain p1 where r: "r = Inr p1" by (rule and_then_InrE)
  obtain x p2 where a: "pr_advance p1 = (x, p2)" by (cases "pr_advance p1")
  have l: "length (pr_instructions (push_instruction i p2)) - 1 = length (pr_instructions p2)" for i
    by (simp add: push_instruction_def)
  from assms r a obtain t where t: "x = Some t" by (cases x) auto
  consider "t_tok t = Comma" | "t_tok t = RParen" | "t_tok t \<noteq> Comma" "t_tok t \<noteq> RParen" by blast
  then show thesis
  proof cases
    case 1
    show thesis by (rule that(1)) (use assms r a t 1 l in \<open>simp_all only: Let_def and_then_Inr prod.case option.case refl if_True\<close>)
  next
    case 2
    show thesis by (rule that(2)) (use assms r a t 2 in simp_all)
  next
    case 3
    with assms r a t show thesis by simp
  qed
qed

lemma parse_test_dom_fwd:
  "parse_test_expr_test_list_loop_dom (Inl (negate, depth, p)) \<Longrightarrow>
     parse_test_expr negate depth p = Inr p' \<Longrightarrow> pr_fwd p p' \<and> pr_left p' < pr_left p"
  "parse_test_expr_test_list_loop_dom (Inr (negate, depth, is_all, jumps, p)) \<Longrightarrow>
     test_list_loop negate depth is_all jumps p = Inr (js, p'') \<Longrightarrow> pr_fwd p p''"
proof (induction negate depth p and negate depth is_all jumps p arbitrary: p' and js p''
    rule: parse_test_expr_test_list_loop.pinduct)
  case (1 negate depth p)
  note prems = "1.prems" [unfolded parse_test_expr.psimps [OF "1.hyps"]]
  from parse_test_step_cases [of p depth parse_test_expr negate test_list_loop p', OF prems]
  obtain t p1 word where d: "depth < max_nested_tests (pr_limits p)" "pr_advance p = (Some t, p1)"
    "t_tok t = Identifier word" and c: "(word = ''not'' \<and> parse_test_expr (\<not> negate) (depth + 1) p1 = Inr p' \<or>
         word \<noteq> ''not'' \<and> (word = ''allof'' \<or> word = ''anyof'') \<and>
           (\<exists>p2 jumps p3. pr_expect LParen (ticked ''('') p1 = Inr p2 \<and>
              test_list_loop negate depth ((word = ''allof'') \<noteq> negate) [] p2 = Inr (jumps, p3) \<and>
              patch_all jumps (length (pr_instructions p3)) p3 = Inr p') \<or>
         word \<noteq> ''not'' \<and> \<not> (word = ''allof'' \<or> word = ''anyof'') \<and> parse_leaf word t negate p1 = Inr p')"
    unfolding parse_test_step_def by blast
  have nd: "\<not> max_nested_tests (pr_limits p) \<le> depth" using d(1) by simp
  note ih = "1.IH" [OF nd d(2) [symmetric] refl d(3)]
  from c have "pr_fwd p1 p'"
  proof (elim disjE conjE exE)
    assume "word = ''not''" "parse_test_expr (\<not> negate) (depth + 1) p1 = Inr p'"
    with ih(1) show ?thesis by blast
  next
    fix p2 jumps p3 assume w: "word \<noteq> ''not''" "word = ''allof''"
      and e: "pr_expect LParen (ticked ''('') p1 = Inr p2"
      "test_list_loop negate depth ((word = ''allof'') \<noteq> negate) [] p2 = Inr (jumps, p3)"
      "patch_all jumps (length (pr_instructions p3)) p3 = Inr p'"
    from ih(2) [OF w(1) disjI1 [OF w(2)] e(1,2)] pr_read_expect [OF e(1)] patch_all_fwd [OF e(3)]
    show ?thesis by (auto simp: pr_read_def intro: pr_fwd_trans)
  next
    fix p2 jumps p3 assume w: "word \<noteq> ''not''" "word = ''anyof''"
      and e: "pr_expect LParen (ticked ''('') p1 = Inr p2"
      "test_list_loop negate depth ((word = ''allof'') \<noteq> negate) [] p2 = Inr (jumps, p3)"
      "patch_all jumps (length (pr_instructions p3)) p3 = Inr p'"
    from ih(2) [OF w(1) disjI2 [OF w(2)] e(1,2)] pr_read_expect [OF e(1)] patch_all_fwd [OF e(3)]
    show ?thesis by (auto simp: pr_read_def intro: pr_fwd_trans)
  next
    assume "parse_leaf word t negate p1 = Inr p'"
    then show ?thesis by (rule leaf_result_fwd [OF parse_leaf_leaf])
  qed
  with pr_advance_Some [OF d(2)] pr_read_advance [OF d(2)] show ?case
    by (auto simp: pr_read_def intro: pr_fwd_trans dest: pr_fwd_left)
next
  case (2 negate depth is_all jumps p)
  from "2.prems" [unfolded test_list_loop.psimps [OF "2.hyps"]] show ?case
  proof (rule test_list_step_cases)
    fix p1 t p2
    assume p1: "parse_test_expr negate (depth + 1) p = Inr p1" and a: "pr_advance p1 = (Some t, p2)"
      and c: "t_tok t = Comma" and l: "test_list_loop negate depth is_all (jumps @ [length (pr_instructions p2)])
        (push_instruction (jump_hole is_all) p2) = Inr (js, p'')"
    have f: "pr_fwd p p2"
      using "2.IH"(1) [OF p1] pr_read_advance [OF a] by (auto simp: pr_read_def intro: pr_fwd_trans)
    have "pr_fwd (push_instruction (jump_hole is_all) p2) p''"
      using "2.IH"(2) [OF p1 a [symmetric] refl c refl] l by (simp add: push_instruction_def)
    with f show ?thesis by (auto intro: pr_fwd_trans [of p "push_instruction (jump_hole is_all) p2" p''])
  next
    fix p1 t p2
    assume p1: "parse_test_expr negate (depth + 1) p = Inr p1" and a: "pr_advance p1 = (Some t, p2)"
      and "p'' = p2"
    with "2.IH"(1) [OF p1] pr_read_advance [OF a] show ?thesis by (auto simp: pr_read_def intro: pr_fwd_trans)
  qed
qed

lemma parse_test_total: "All parse_test_expr_test_list_loop_dom"
proof (rule "parse_test_expr_test_list_loop.termination" [of "measure (\<lambda>x. case x of
    Inl (negate, depth, p) \<Rightarrow> 2 * pr_left p
    | Inr (negate, depth, is_all, jumps, p) \<Rightarrow> 2 * pr_left p + 1)"], goal_cases)
  case 3
  then show ?case by (auto dest!: pr_advance_Some [OF sym] pr_expect_left)
next
  case (5 negate depth is_all jumps p p1 x p2 t p3)
  then have "pr_left p1 < pr_left p" "pr_left p2 < pr_left p1" "p3 = push_instruction (jump_hole is_all) p2"
    using parse_test_dom_fwd(1) [of negate "depth + 1" p p1] by (auto dest: pr_advance_Some [OF sym])
  then show ?case by simp
qed (auto dest: pr_advance_Some [OF sym])

termination parse_test_expr
  by (rule parse_test_total)

declare parse_test_expr.simps [simp del] test_list_loop.simps [simp del]

lemma parse_test_expr_fwd:
  "parse_test_expr negate depth p = Inr p' \<Longrightarrow> pr_fwd p p' \<and> pr_left p' < pr_left p"
  by (rule parse_test_dom_fwd(1) [OF parse_test_total [rule_format]])

lemma test_list_loop_fwd: "test_list_loop negate depth is_all jumps p = Inr (js, p') \<Longrightarrow> pr_fwd p p'"
  by (rule parse_test_dom_fwd(2) [OF parse_test_total [rule_format]])

section \<open>Commands\<close>

definition known_capability :: "bytes \<Rightarrow> bool" where
  "known_capability name \<longleftrightarrow>
     name \<in> {''fileinto'', ''envelope'', ''imap4flags'', ''encoded-character'',
             ''comparator-i;octet'', ''comparator-i;ascii-casemap''}"

fun add_capabilities :: "token \<Rightarrow> bytes list \<Rightarrow> parser \<Rightarrow> fault + parser" where
  "add_capabilities t [] p = Inr p"
| "add_capabilities t (name # names) p =
     (if known_capability name then
        add_capabilities t names
          (if has_capability p name then p else p\<lparr>pr_capabilities := pr_capabilities p @ [name]\<rparr>)
      else Inl (err_at t (''unknown capability '' @ quoted name)))"

definition start_commands :: "parser \<Rightarrow> parser" where
  "start_commands p = p\<lparr>pr_commands_started := True\<rparr>"

definition simple_command :: "instruction \<Rightarrow> parser \<Rightarrow> fault + parser" where
  "simple_command i p =
     and_then (pr_expect Semicolon (ticked '';'') (start_commands p)) (\<lambda>p'. Inr (push_instruction i p'))"

definition cmd_require :: "token \<Rightarrow> parser \<Rightarrow> fault + parser" where
  "cmd_require t p =
     (if pr_commands_started p \<or> pr_blocks p \<noteq> [] then
        Inl (err_at t ''require must precede all other commands'')
      else and_then (parse_raw_string_list p) (\<lambda>(names, p1).
           and_then (add_capabilities t names p1) (\<lambda>p2. pr_expect Semicolon (ticked '';'') p2)))"

definition cmd_if :: "token \<Rightarrow> parser \<Rightarrow> fault + parser" where
  "cmd_if t p =
     (let p0 = start_commands p in
      if max_nested_blocks (pr_limits p0) \<le> length (pr_blocks p0) then
        Inl (err_at t ''blocks are nested too deeply'')
      else and_then (parse_test_expr False 0 p0) (\<lambda>p1.
        let p2 = push_instruction (Jz usize_max) p1;
            p3 = p2\<lparr>pr_blocks := pr_blocks p2 @
                   [\<lparr>jz_at = Some (length (pr_instructions p2) - 1), chain_jmps = []\<rparr>]\<rparr>
        in pr_expect LBrace (ticked ''{'') p3))"

definition cmd_fileinto :: "token \<Rightarrow> parser \<Rightarrow> fault + parser" where
  "cmd_fileinto t p =
     (let p0 = start_commands p in
      and_then (need_capability p0 ''fileinto'' t) (\<lambda>_.
      and_then (parse_string p0) (\<lambda>(mailbox, p1).
      and_then (pr_expect Semicolon (ticked '';'') p1) (\<lambda>p2.
        Inr (push_instruction (FileInto mailbox) p2)))))"

definition cmd_redirect :: "parser \<Rightarrow> fault + parser" where
  "cmd_redirect p =
     and_then (parse_string (start_commands p)) (\<lambda>(address, p1).
     and_then (pr_expect Semicolon (ticked '';'') p1) (\<lambda>p2.
       Inr (push_instruction (Redirect address) p2)))"

definition cmd_flags :: "(bytes list \<Rightarrow> instruction) \<Rightarrow> token \<Rightarrow> parser \<Rightarrow> fault + parser" where
  "cmd_flags mk t p =
     (let p0 = start_commands p in
      and_then (need_capability p0 ''imap4flags'' t) (\<lambda>_.
      and_then (parse_string_list p0) (\<lambda>(entries, p1).
      and_then (pr_expect Semicolon (ticked '';'') p1) (\<lambda>p2.
        Inr (push_instruction (mk (concat (map split_ascii_whitespace entries))) p2)))))"

definition command :: "bytes \<Rightarrow> token \<Rightarrow> parser \<Rightarrow> fault + parser" where
  "command word t p =
     (if word = ''require'' then cmd_require t p
      else if word = ''if'' then cmd_if t p
      else if word = ''elsif'' \<or> word = ''else'' then
        Inl (err_at t (word @ '' without a preceding if''))
      else if word = ''stop'' then simple_command Stop p
      else if word = ''keep'' then simple_command Keep p
      else if word = ''discard'' then simple_command Discard p
      else if word = ''fileinto'' then cmd_fileinto t p
      else if word = ''redirect'' then cmd_redirect p
      else if word = ''addflag'' then cmd_flags AddFlag t p
      else if word = ''setflag'' then cmd_flags SetFlag t p
      else if word = ''removeflag'' then cmd_flags RemoveFlag t p
      else Inl (err_at t (''unknown command '' @ quoted word)))"

text \<open>What follows the closed block: \<open>Some True\<close> for \<open>elsif\<close>, \<open>Some False\<close> for \<open>else\<close>.\<close>

definition continuation :: "parser \<Rightarrow> bool option" where
  "continuation p =
     (if pr_peek p = Some (Identifier ''elsif'') then Some True
      else if pr_peek p = Some (Identifier ''else'') then Some False
      else None)"

definition continue_block :: "bool \<Rightarrow> open_block \<Rightarrow> parser \<Rightarrow> fault + parser" where
  "continue_block is_elsif block p =
     (case jz_at block of
        None \<Rightarrow> Inl (pr_err p ''else block cannot be followed by another branch'')
      | Some jz \<Rightarrow>
          (let p1 = push_instruction (Jmp usize_max) (snd (pr_advance p));
               chain = chain_jmps block @ [length (pr_instructions p1) - 1]
           in and_then (patch jz (length (pr_instructions p1)) p1) (\<lambda>p2.
              and_then
                (if is_elsif then
                   and_then (parse_test_expr False 0 p2) (\<lambda>p3.
                     let p4 = push_instruction (Jz usize_max) p3
                     in Inr (\<lparr>jz_at = Some (length (pr_instructions p4) - 1), chain_jmps = chain\<rparr>, p4))
                 else Inr (\<lparr>jz_at = None, chain_jmps = chain\<rparr>, p2))
                (\<lambda>(block', p5).
                   pr_expect LBrace (ticked ''{'') (p5\<lparr>pr_blocks := pr_blocks p5 @ [block']\<rparr>)))))"

definition end_block :: "open_block \<Rightarrow> parser \<Rightarrow> fault + parser" where
  "end_block block p =
     (let target = length (pr_instructions p) in
      and_then (case jz_at block of None \<Rightarrow> Inr p | Some jz \<Rightarrow> patch jz target p)
        (patch_all (chain_jmps block) target))"

definition close_block :: "token \<Rightarrow> parser \<Rightarrow> fault + parser" where
  "close_block t p =
     (if pr_blocks p = [] then Inl (err_at t (ticked ''}'' @ '' without an open block''))
      else let block = last (pr_blocks p); p0 = p\<lparr>pr_blocks := butlast (pr_blocks p)\<rparr>
           in case continuation p0 of
                Some is_elsif \<Rightarrow> continue_block is_elsif block p0
              | None \<Rightarrow> end_block block p0)"

text \<open>One turn of the loop of \<open>run\<close>, for the token it has taken.\<close>

definition parser_step :: "token \<Rightarrow> parser \<Rightarrow> fault + parser" where
  "parser_step t p =
     (case t_tok t of
        Identifier word \<Rightarrow> command word t p
      | RBrace \<Rightarrow> close_block t p
      | _ \<Rightarrow> Inl (err_at t ''expected a command''))"

text \<open>\<open>pr_ahead\<close>: the tokens and limits are untouched and the cursor never moves back.\<close>

definition pr_ahead :: "parser \<Rightarrow> parser \<Rightarrow> bool" where
  "pr_ahead p p' \<longleftrightarrow> pr_tokens p' = pr_tokens p \<and> pr_limits p' = pr_limits p \<and> pr_pos p \<le> pr_pos p'"

lemma pr_ahead_refl [simp]: "pr_ahead p p"
  and pr_ahead_trans [trans]: "pr_ahead p p' \<Longrightarrow> pr_ahead p' p'' \<Longrightarrow> pr_ahead p p''"
  and pr_ahead_fwd: "pr_fwd p p' \<Longrightarrow> pr_ahead p p'"
  and pr_ahead_read: "pr_read p p' \<Longrightarrow> pr_ahead p p'"
  and pr_ahead_left: "pr_ahead p p' \<Longrightarrow> pr_left p' \<le> pr_left p"
  and pr_ahead_push [simp]: "pr_ahead p (push_instruction i p') = pr_ahead p p'"
  and pr_ahead_start [simp]: "pr_ahead (start_commands p) p' = pr_ahead p p'"
  and pr_ahead_blocks [simp]: "pr_ahead p (p'\<lparr>pr_blocks := bs\<rparr>) = pr_ahead p p'"
    "pr_ahead (p\<lparr>pr_blocks := bs\<rparr>) p' = pr_ahead p p'"
    "pr_ahead (push_instruction i p) p' = pr_ahead p p'"
  by (auto simp: pr_ahead_def pr_fwd_def pr_read_def push_instruction_def start_commands_def pr_left_def)

lemmas pr_ahead_intros = pr_ahead_read [OF pr_read_expect] pr_ahead_read [OF pr_read_string]
  pr_ahead_read [OF pr_read_raw] pr_ahead_read [OF pr_read_list]
  pr_ahead_fwd [OF conjunct1 [OF parse_test_expr_fwd]] pr_ahead_fwd [OF conjunct1 [OF patch_fwd]]
  pr_ahead_fwd [OF conjunct1 [OF patch_all_fwd]]

lemma add_capabilities_ahead: "add_capabilities t names p = Inr p' \<Longrightarrow> pr_ahead p p'"
proof (induction names arbitrary: p)
  case (Cons n ns)
  then show ?case by (auto split: if_splits dest!: Cons.IH simp: pr_ahead_def)
qed simp

lemma simple_command_ahead: "simple_command i p = Inr p' \<Longrightarrow> pr_ahead p p'"
  unfolding simple_command_def by (auto elim!: and_then_InrE dest: pr_ahead_intros)

lemma cmd_require_ahead: "cmd_require t p = Inr p' \<Longrightarrow> pr_ahead p p'"
  unfolding cmd_require_def
  by (auto split: if_splits elim!: and_then_InrE dest!: pr_ahead_intros add_capabilities_ahead
      intro: pr_ahead_trans)

lemma cmd_if_ahead: "cmd_if t p = Inr p' \<Longrightarrow> pr_ahead p p'"
  unfolding cmd_if_def
  by (auto simp: Let_def split: if_splits elim!: and_then_InrE dest!: pr_ahead_intros
      intro: pr_ahead_trans)

lemma cmd_fileinto_ahead: "cmd_fileinto t p = Inr p' \<Longrightarrow> pr_ahead p p'"
  unfolding cmd_fileinto_def
  by (auto simp: Let_def elim!: and_then_InrE dest!: pr_ahead_intros intro: pr_ahead_trans)

lemma cmd_redirect_ahead: "cmd_redirect p = Inr p' \<Longrightarrow> pr_ahead p p'"
  unfolding cmd_redirect_def
  by (auto elim!: and_then_InrE dest!: pr_ahead_intros intro: pr_ahead_trans)

lemma cmd_flags_ahead: "cmd_flags mk t p = Inr p' \<Longrightarrow> pr_ahead p p'"
  unfolding cmd_flags_def
  by (auto simp: Let_def elim!: and_then_InrE dest!: pr_ahead_intros intro: pr_ahead_trans)

lemma command_ahead: "command word t p = Inr p' \<Longrightarrow> pr_ahead p p'"
  by (simp add: command_def simple_command_ahead cmd_require_ahead cmd_if_ahead cmd_fileinto_ahead
      cmd_redirect_ahead cmd_flags_ahead split: if_splits)

lemma end_block_ahead: "end_block b p = Inr p' \<Longrightarrow> pr_ahead p p'"
  unfolding end_block_def
  by (auto simp: Let_def split: option.splits elim!: and_then_InrE dest!: pr_ahead_intros
      intro: pr_ahead_trans)

lemma continue_block_ahead: "continue_block e b p = Inr p' \<Longrightarrow> pr_ahead p p'"
  unfolding continue_block_def
  using pr_ahead_read [OF pr_read_skip, of p]
  by (auto simp: Let_def split: option.splits if_splits elim!: and_then_InrE dest!: pr_ahead_intros(1,5,6))
    (blast intro: pr_ahead_trans)+

lemma close_block_ahead: "close_block t p = Inr p' \<Longrightarrow> pr_ahead p p'"
  unfolding close_block_def
  by (auto simp: Let_def split: if_splits option.splits dest!: end_block_ahead continue_block_ahead)

lemma parser_step_ahead: "parser_step t p = Inr p' \<Longrightarrow> pr_ahead p p'"
  unfolding parser_step_def by (auto split: tok.splits dest: command_ahead close_block_ahead)

function parser_run :: "parser \<Rightarrow> fault + parser" where
  "parser_run p =
     (case pr_advance p of
        (None, p1) \<Rightarrow>
          if pr_blocks p1 \<noteq> [] then Inl (pr_err p1 ''unclosed block at end of script'') else Inr p1
      | (Some t, p1) \<Rightarrow> and_then (parser_step t p1) parser_run)"
  by pat_completeness auto
termination
proof (relation "measure pr_left", goal_cases)
  case (2 p x p1 t p2)
  then show ?case
    by (auto dest!: pr_advance_Some [OF sym] pr_ahead_left [OF parser_step_ahead])
qed simp

declare parser_run.simps [simp del]

definition grammar_compile :: "token list \<Rightarrow> compiler_limits \<Rightarrow> fault + instruction list \<times> bytes list" where
  "grammar_compile tokens lim =
     and_then (parser_run (parser_new tokens lim))
       (\<lambda>p. Inr (pr_instructions p, pr_capabilities p))"

text \<open>\<open>Compiler::compile\<close> of \<open>lib.rs\<close>.\<close>

definition compile :: "compiler_limits \<Rightarrow> bytes \<Rightarrow> fault + script" where
  "compile lim source =
     (if max_script_size lim < length source then
        Inl (compile_err 1 1 ''script exceeds the maximum size'')
      else and_then (tokenize source lim) (\<lambda>tokens.
           and_then (grammar_compile tokens lim) (\<lambda>(is, caps).
             Inr \<lparr>instructions = is, capabilities = caps\<rparr>)))"

end
