(* ===== verification/Sieve_Lexer_Props.thy ===== *)
theory Sieve_Lexer_Props
  imports Sieve_Lexer
begin

text \<open>
  Properties of the tokenizer: where its tokens and errors point, what its strings hold, and
  that it reads back a printed token list.
\<close>

section \<open>Positions\<close>

definition line_of :: "bytes \<Rightarrow> nat \<Rightarrow> nat" where
  "line_of s pos = Suc (length (filter ((=) LF) (take pos s)))"

definition col_of :: "bytes \<Rightarrow> nat \<Rightarrow> nat" where
  "col_of s pos = Suc (length (takeWhile ((\<noteq>) LF) (rev (take pos s))))"

definition lx_wf :: "bytes \<Rightarrow> lexer \<Rightarrow> bool" where
  "lx_wf s l \<longleftrightarrow> lx_bytes l = s \<and> lx_pos l \<le> length s
     \<and> lx_line l = line_of s (lx_pos l) \<and> lx_col l = col_of s (lx_pos l)"

lemma lx_wf_new: "lx_wf s (lexer_new s)"
  by (simp add: lx_wf_def lexer_new_def line_of_def col_of_def)

lemma lx_wf_skip: "lx_wf s l \<Longrightarrow> lx_wf s (lx_skip l)"
  by (auto simp: lx_wf_def lx_advance_def lx_peek_def get_at_def line_of_def col_of_def
      take_Suc_conv_app_nth split: option.splits if_splits)

lemma lx_wf_reach: "lx_reach l l' \<Longrightarrow> lx_wf s l \<Longrightarrow> lx_wf s l'"
proof -
  have "lx_wf s l \<Longrightarrow> lx_wf s ((lx_skip ^^ n) l)" for n
    by (induction n) (simp_all add: lx_wf_skip)
  then show "lx_reach l l' \<Longrightarrow> lx_wf s l \<Longrightarrow> lx_wf s l'" by (auto simp: lx_reach_def)
qed

text \<open>Skipping blanks and comments, \<open>next_token\<close> comes to one of three places.\<close>

lemma next_token_cases:
  "\<exists>l0. lx_reach l l0 \<and>
     (lx_peek l0 = None \<and> next_token lim l = Inr (None, l0)
      \<or> lx_peek l0 = Some CHR ''/'' \<and>
        next_token lim l = Inl (compile_err (lx_line l0) (lx_col l0) ''unterminated comment'')
      \<or> (\<exists>b. lx_peek l0 = Some b \<and>
           next_token lim l = and_then (scan_token lim b l0) (\<lambda>(t, l'). Inr (Some t, l'))))"
proof (induction lim l rule: next_token.induct)
  case (1 lim l)
  show ?case
  proof (cases "lx_peek l")
    case None
    then show ?thesis by (intro exI [of _ l]) (simp add: next_token.simps [of _ l])
  next
    case b: (Some b)
    consider (blank) "b = CHR '' '' \<or> b = HT \<or> b = CR \<or> b = LF"
      | (hash) "\<not> (b = CHR '' '' \<or> b = HT \<or> b = CR \<or> b = LF)" "b = CHR ''#''"
      | (open_comment) "b = CHR ''/''" "lx_peek_at l 1 = Some CHR ''*''"
          "skip_block (lx_skip (lx_skip l)) = None"
      | (comment) l1 where "b = CHR ''/''" "lx_peek_at l 1 = Some CHR ''*''"
          "skip_block (lx_skip (lx_skip l)) = Some l1"
      | (scan) "\<not> (b = CHR '' '' \<or> b = HT \<or> b = CR \<or> b = LF)" "b \<noteq> CHR ''#''"
          "\<not> (b = CHR ''/'' \<and> lx_peek_at l 1 = Some CHR ''*'')"
      by (cases "skip_block (lx_skip (lx_skip l))") auto
    then show ?thesis
    proof cases
      case blank
      with b have "next_token lim l = next_token lim (lx_skip l)"
        by (auto simp: next_token.simps [of _ l])
      with "1.IH"(1) [OF b blank] show ?thesis by (auto intro: lx_reach_skip)
    next
      case hash
      with b have "next_token lim l = next_token lim (skip_line l)"
        by (simp add: next_token.simps [of _ l])
      with "1.IH"(2) [OF b hash] show ?thesis by (auto intro: lx_reach_trans [OF skip_line_reach])
    next
      case open_comment
      with b show ?thesis by (intro exI [of _ l]) (simp add: next_token.simps [of _ l])
    next
      case comment
      with b have "next_token lim l = next_token lim l1"
        by (simp add: next_token.simps [of _ l])
      moreover have "lx_reach l l1"
        using skip_block_reach [OF comment(3)] by (auto intro: lx_reach_skip)
      ultimately show ?thesis
        using "1.IH"(3) [OF b _ _ _ comment(3)] comment(1,2) by (auto intro: lx_reach_trans)
    next
      case scan
      with b show ?thesis by (intro exI [of _ l]) (auto simp: next_token.simps [of _ l])
    qed
  qed
qed

text \<open>A token carries the position of the byte it starts at.\<close>

lemma scan_token_position:
  "scan_token lim b l = Inr (t, l') \<Longrightarrow> t_line t = lx_line l \<and> t_col t = lx_col l"
  by (auto simp: scan_token_def mk_token_def Let_def and_then_eq_Inr
      split: if_splits prod.splits option.splits)

lemma quoted_loop_err:
  "quoted_loop lim line col l v = Inl f \<Longrightarrow> \<exists>msg. f = compile_err line col msg"
proof (induction lim line col l v rule: quoted_loop.induct)
  case (1 lim line col l v)
  obtain b l1 where a: "lx_advance l = (b, l1)" by (cases "lx_advance l")
  obtain c l2 where c: "lx_advance l1 = (c, l2)" by (cases "lx_advance l1")
  show ?case
  proof (cases b)
    case None
    with a "1.prems" show ?thesis by (auto simp: quoted_loop.simps [of _ _ _ l])
  next
    case (Some b')
    with "1.prems" a c "1.IH"(1) [OF a [symmetric] Some _ _ c [symmetric]]
      "1.IH"(2) [OF a [symmetric] Some]
    show ?thesis
      by (auto simp: quoted_loop.simps [of _ _ _ l] and_then_eq_Inl push_limited_def
          split: if_splits option.splits)
  qed
qed

lemma number_loop_err:
  "number_loop line col l v = Inl f \<Longrightarrow> \<exists>msg. f = compile_err line col msg"
proof (induction line col l v rule: number_loop.induct)
  case (1 line col l v)
  from "1.prems" show ?case
    by (subst (asm) number_loop.simps) (auto split: option.splits if_splits dest!: "1.IH")
qed

lemma multiline_header_err:
  "multiline_header line col l = Inl f \<Longrightarrow> \<exists>msg. f = compile_err line col msg"
proof (induction line col l rule: multiline_header.induct)
  case (1 line col l)
  show ?case
  proof (cases "lx_peek l")
    case None
    with "1.prems" show ?thesis by (auto simp: multiline_header.simps [of _ _ l])
  next
    case (Some b)
    with "1.prems" "1.IH"(1,2) [OF Some] show ?thesis
      by (auto simp: multiline_header.simps [of _ _ l] simp del: append.simps split: if_splits)
  qed
qed

lemma multiline_lines_err:
  "multiline_lines lim line col l v = Inl f \<Longrightarrow> \<exists>msg. f = compile_err line col msg"
proof (induction lim line col l v rule: multiline_lines.induct)
  case (1 lim line col l v)
  obtain cur0 ended l1 where t: "text_line l [] = (cur0, ended, l1)" by (cases "text_line l []") auto
  from "1.prems" "1.IH" [OF t [symmetric] refl refl refl refl] t show ?case
    by (auto simp: multiline_lines.simps [of _ _ _ l] Let_def simp del: append.simps split: if_splits)
qed

lemma scan_token_err:
  "scan_token lim b l = Inl f \<Longrightarrow> \<exists>msg. f = compile_err (lx_line l) (lx_col l) msg"
  by (auto simp: scan_token_def quoted_string_def lx_number_def multiline_string_def Let_def
      and_then_eq_Inl simp del: append.simps
      split: if_splits prod.splits option.splits
      dest!: quoted_loop_err number_loop_err multiline_header_err multiline_lines_err)

lemma next_token_Some:
  assumes "next_token lim l = Inr (Some t, l')"
  shows "\<exists>l0 b. lx_reach l l0 \<and> lx_peek l0 = Some b \<and> scan_token lim b l0 = Inr (t, l')"
proof -
  from next_token_cases [of l lim] assms obtain l0 b where "lx_reach l l0" "lx_peek l0 = Some b"
    "and_then (scan_token lim b l0) (\<lambda>(t, l'). Inr (Some t, l')) = Inr (Some t, l')" by auto
  then show ?thesis by (auto simp: and_then_eq_Inr)
qed

lemma next_token_Inl:
  assumes "next_token lim l = Inl f"
  shows "\<exists>l0 b msg. lx_reach l l0 \<and> lx_peek l0 = Some b \<and>
    f = compile_err (lx_line l0) (lx_col l0) msg"
proof -
  from next_token_cases [of l lim] assms obtain l0 b where l0: "lx_reach l l0" "lx_peek l0 = Some b"
    and "f = compile_err (lx_line l0) (lx_col l0) ''unterminated comment'' \<or>
      and_then (scan_token lim b l0) (\<lambda>(t, l'). Inr (Some t, l')) = Inl f" by auto
  then have "\<exists>msg. f = compile_err (lx_line l0) (lx_col l0) msg"
    by (auto simp: and_then_eq_Inl dest: scan_token_err)
  with l0 show ?thesis by blast
qed

definition token_at :: "bytes \<Rightarrow> nat \<Rightarrow> token \<Rightarrow> bool" where
  "token_at s pos t \<longleftrightarrow> pos < length s \<and> t_line t = line_of s pos \<and> t_col t = col_of s pos"

lemma next_token_position:
  assumes "lx_wf s l" "next_token lim l = Inr (Some t, l')"
  shows "\<exists>pos. token_at s pos t \<and> lx_pos l \<le> pos \<and> pos < lx_pos l' \<and> lx_wf s l'"
proof -
  from assms(2) obtain l0 b where l0: "lx_reach l l0"
    "lx_peek l0 = Some b" "scan_token lim b l0 = Inr (t, l')"
    by (blast dest: next_token_Some)
  have w: "lx_wf s l0" using l0(1) assms(1) by (rule lx_wf_reach)
  from scan_token_reach [OF l0(3,2)] have r: "lx_reach l0 l'" "lx_left l' < lx_left l0" by auto
  have w': "lx_wf s l'" using r(1) w by (rule lx_wf_reach)
  have "lx_left l0 \<le> lx_left l" using l0(1) by (rule lx_reach_left)
  with r(2) w w' assms(1) have "lx_pos l \<le> lx_pos l0" "lx_pos l0 < lx_pos l'" "lx_pos l0 < length s"
    by (auto simp: lx_wf_def lx_left_def)
  with w w' scan_token_position [OF l0(3)] show ?thesis
    by (intro exI [of _ "lx_pos l0"]) (simp add: token_at_def lx_wf_def)
qed

lemma tokenize_loop_positions:
  "lx_wf s l \<Longrightarrow> tokenize_loop lim l ts = Inr us \<Longrightarrow>
     \<exists>offs vs. us = ts @ vs \<and> sorted_wrt (<) offs \<and> list_all2 (token_at s) offs vs
       \<and> (\<forall>pos\<in>set offs. lx_pos l \<le> pos)"
proof (induction lim l ts rule: tokenize_loop.induct)
  case (1 lim l ts)
  show ?case
  proof (cases "\<exists>t l'. next_token lim l = Inr (Some t, l')")
    case True
    then obtain t l' where t: "next_token lim l = Inr (Some t, l')" by blast
    from next_token_position [OF "1.prems"(1) t] obtain pos where
      pos: "token_at s pos t" "lx_pos l \<le> pos" "pos < lx_pos l'" "lx_wf s l'" by blast
    from "1.prems"(2) t have "tokenize_loop lim l' (ts @ [t]) = Inr us"
      by (simp add: tokenize_loop.simps [of _ l])
    from "1.IH" [OF t refl refl pos(4) this] obtain offs vs where
      "us = (ts @ [t]) @ vs" "sorted_wrt (<) offs" "list_all2 (token_at s) offs vs"
      "\<forall>p\<in>set offs. lx_pos l' \<le> p" by blast
    with pos show ?thesis by (intro exI [of _ "pos # offs"] exI [of _ "t # vs"]) auto
  next
    case False
    with "1.prems"(2) have "us = ts"
      by (auto simp: tokenize_loop.simps [of _ l] split: sum.splits option.splits)
    then show ?thesis by (intro exI [of _ "[]"]) simp
  qed
qed

lemma tokenize_loop_err:
  "lx_wf s l \<Longrightarrow> tokenize_loop lim l ts = Inl f \<Longrightarrow>
     \<exists>pos msg. pos < length s \<and> f = compile_err (line_of s pos) (col_of s pos) msg"
proof (induction lim l ts rule: tokenize_loop.induct)
  case (1 lim l ts)
  show ?case
  proof (cases "next_token lim l")
    case (Inl g)
    with "1.prems"(2) have g: "g = f" by (simp add: tokenize_loop.simps [of _ l])
    from Inl g obtain l0 b msg where l0: "lx_reach l l0"
      "lx_peek l0 = Some b" "f = compile_err (lx_line l0) (lx_col l0) msg"
      by (blast dest: next_token_Inl)
    have "lx_wf s l0" using l0(1) "1.prems"(1) by (rule lx_wf_reach)
    with l0(2,3) show ?thesis
      by (intro exI [of _ "lx_pos l0"] exI [of _ msg]) (auto simp: lx_wf_def lx_peek_def get_at_eq_Some)
  next
    case (Inr p)
    with "1.prems"(2) obtain t l' where t: "next_token lim l = Inr (Some t, l')"
      "tokenize_loop lim l' (ts @ [t]) = Inl f"
      by (cases p) (auto simp: tokenize_loop.simps [of _ l] split: option.splits)
    from next_token_position [OF "1.prems"(1) t(1)] have "lx_wf s l'" by blast
    from "1.IH" [OF t(1) refl refl this t(2)] show ?thesis .
  qed
qed

section \<open>The contents of tokens\<close>

definition is_folded_byte :: "byte \<Rightarrow> bool" where
  "is_folded_byte b \<longleftrightarrow> is_ascii_lowercase b \<or> is_ascii_digit b \<or> b = CHR ''_''"

definition is_folded_word :: "bytes \<Rightarrow> bool" where
  "is_folded_word w \<longleftrightarrow> w \<noteq> [] \<and> \<not> is_ascii_digit (hd w) \<and> list_all is_folded_byte w"

fun tok_ok :: "compiler_limits \<Rightarrow> tok \<Rightarrow> bool" where
  "tok_ok lim (Str v) = (utf8_valid v \<and> length v \<le> max_string_size lim)"
| "tok_ok lim (Identifier w) = is_folded_word w"
| "tok_ok lim (Tag w) = is_folded_word w"
| "tok_ok lim _ = True"

lemma folded_byte:
  "is_folded_byte b \<Longrightarrow> is_ascii_lowercase b \<or> is_ascii_digit b \<or> b = CHR ''_''"
  "is_ascii_uppercase b \<Longrightarrow> is_folded_byte (to_ascii_lowercase_byte b)"
  "is_ascii_uppercase b \<Longrightarrow> \<not> is_ascii_digit (to_ascii_lowercase_byte b)"
  by (auto simp: is_folded_byte_def rust_simps)

lemma lx_word_folded:
  "lx_word l acc = (w, l') \<Longrightarrow> list_all is_folded_byte acc \<Longrightarrow>
     list_all is_folded_byte w \<and> prefix acc w"
proof (induction l acc rule: lx_word.induct)
  case (1 l acc)
  show ?case
  proof (cases "lx_peek l")
    case None
    with "1.prems" show ?thesis by (simp add: lx_word.simps [of l])
  next
    case (Some b)
    with "1.prems" "1.IH"(1,2) [OF Some] show ?thesis
      by (auto simp: lx_word.simps [of l] is_folded_byte_def [of b] folded_byte(2)
          split: if_splits dest: append_prefixD)
  qed
qed

lemma lx_word_nonempty:
  assumes "lx_word l [] = (w, l')" "lx_peek l = Some b" "is_word_start b"
  shows "is_folded_word w"
proof -
  define c where "c = (if is_ascii_uppercase b then to_ascii_lowercase_byte b else b)"
  have c: "is_folded_byte c" "\<not> is_ascii_digit c"
    using assms(3) folded_byte(2,3) [of b]
    by (auto simp: c_def is_word_start_def is_folded_byte_def rust_simps)
  have "\<not> is_ascii_lowercase b \<and> \<not> is_ascii_digit b \<and> b \<noteq> CHR ''_''" if "is_ascii_uppercase b"
    using that by (auto simp: rust_simps)
  with assms have "lx_word (lx_skip l) [c] = (w, l')"
    by (auto simp: lx_word.simps [of l] c_def is_word_start_def split: if_splits)
  from lx_word_folded [OF this] c show ?thesis
    by (auto simp: is_folded_word_def prefix_def)
qed

lemma quoted_loop_length:
  "quoted_loop lim line col l v = Inr (w, l') \<Longrightarrow> length v \<le> max_string_size lim \<Longrightarrow>
     length w \<le> max_string_size lim"
proof (induction lim line col l v rule: quoted_loop.induct)
  case (1 lim line col l v)
  obtain b l1 where a: "lx_advance l = (b, l1)" by (cases "lx_advance l")
  obtain c l2 where c: "lx_advance l1 = (c, l2)" by (cases "lx_advance l1")
  show ?case
  proof (cases b)
    case None
    with a "1.prems" show ?thesis by (simp add: quoted_loop.simps [of _ _ _ l])
  next
    case (Some b')
    with "1.prems" a c "1.IH"(1) [OF a [symmetric] Some _ _ c [symmetric]]
      "1.IH"(2) [OF a [symmetric] Some]
    show ?thesis
      by (auto simp: quoted_loop.simps [of _ _ _ l] and_then_eq_Inr push_limited_def
          split: if_splits option.splits)
  qed
qed

lemma multiline_lines_ok:
  "multiline_lines lim line col l v = Inr (w, l') \<Longrightarrow> length v \<le> max_string_size lim \<Longrightarrow>
     utf8_valid v \<Longrightarrow> length w \<le> max_string_size lim \<and> utf8_valid w"
proof (induction lim line col l v rule: multiline_lines.induct)
  case (1 lim line col l v)
  obtain cur0 ended l1 where t: "text_line l [] = (cur0, ended, l1)" by (cases "text_line l []") auto
  have "utf8_valid CRLF" by (rule utf8_valid_ascii) (simp add: is_ascii_def)
  then have crlf: "utf8_valid x \<Longrightarrow> utf8_valid (v @ x @ CRLF)" for x
    using "1.prems"(3) by (simp add: utf8_valid_append del: append.simps)
  from "1.prems"(1) t show ?case
    using "1.IH" [OF t [symmetric] refl refl refl refl] "1.prems"(2,3) crlf
    by (auto simp: multiline_lines.simps [of _ _ _ l] Let_def simp del: append.simps length_append
        split: if_splits)
qed

lemma scan_token_ok:
  assumes "scan_token lim b l = Inr (t, l')" "lx_peek l = Some b"
  shows "tok_ok lim (t_tok t)"
proof -
  have q: "tok_ok lim (Str v)" if "quoted_string lim line col l = Inr (v, l1)" for v line col l1
    using that
    by (auto simp: quoted_string_def and_then_eq_Inr split: if_splits dest!: quoted_loop_length)
  have m: "tok_ok lim (Str v)" if "multiline_string lim line col l0 = Inr (v, l1)" for v line col l0 l1
    using that by (auto simp: multiline_string_def and_then_eq_Inr dest!: multiline_lines_ok)
  from assms show ?thesis
    by (auto simp: scan_token_def mk_token_def punctuation_def Let_def and_then_eq_Inr
        split: if_splits prod.splits option.splits dest: q m lx_word_nonempty)
qed

lemma tokenize_loop_ok:
  "tokenize_loop lim l ts = Inr us \<Longrightarrow> list_all (tok_ok lim \<circ> t_tok) ts \<Longrightarrow>
     list_all (tok_ok lim \<circ> t_tok) us"
proof (induction lim l ts rule: tokenize_loop.induct)
  case (1 lim l ts)
  show ?case
  proof (cases "\<exists>t l'. next_token lim l = Inr (Some t, l')")
    case True
    then obtain t l' where t: "next_token lim l = Inr (Some t, l')" by blast
    then have "tok_ok lim (t_tok t)" by (blast dest: next_token_Some scan_token_ok)
    with 1 t show ?thesis by (simp add: tokenize_loop.simps [of _ l])
  next
    case False
    with "1.prems" show ?thesis
      by (auto simp: tokenize_loop.simps [of _ l] split: sum.splits option.splits)
  qed
qed

section \<open>Printing tokens\<close>

text \<open>A printer of the token language: strings are quoted and escaped, tokens are separated by
  blanks. Scanning what it prints is described over the bytes not read yet.\<close>

definition escape_string :: "bytes \<Rightarrow> bytes" where
  "escape_string v = concat (map (\<lambda>b. if b = CHR 0x22 \<or> b = CHR 0x5C then [CHR 0x5C, b] else [b]) v)"

fun render_tok :: "tok \<Rightarrow> bytes" where
  "render_tok (Identifier w) = w"
| "render_tok (Tag w) = CHR '':'' # w"
| "render_tok (Number n) = show_nat (unat n)"
| "render_tok (Str v) = CHR 0x22 # escape_string v @ [CHR 0x22]"
| "render_tok LParen = ''(''"
| "render_tok RParen = '')''"
| "render_tok LBrace = ''{''"
| "render_tok RBrace = ''}''"
| "render_tok LBracket = ''[''"
| "render_tok RBracket = '']''"
| "render_tok Comma = '',''"
| "render_tok Semicolon = '';''"

definition render_toks :: "tok list \<Rightarrow> bytes" where
  "render_toks ts = concat (map (\<lambda>t. render_tok t @ '' '') ts)"

definition lx_rest :: "lexer \<Rightarrow> bytes" where
  "lx_rest l = drop (lx_pos l) (lx_bytes l)"

lemma lx_rest_Cons:
  assumes "lx_rest l = b # r"
  shows "lx_peek l = Some b" "lx_rest (lx_skip l) = r"
proof -
  from assms have lt: "lx_pos l < length (lx_bytes l)"
    by (cases "lx_pos l < length (lx_bytes l)") (auto simp: lx_rest_def)
  from Cons_nth_drop_Suc [OF lt] assms have "lx_bytes l ! lx_pos l = b" "drop (Suc (lx_pos l)) (lx_bytes l) = r"
    by (auto simp: lx_rest_def)
  with lt show "lx_peek l = Some b" and "lx_rest (lx_skip l) = r"
    by (auto simp: lx_peek_def get_at_def lx_rest_def lx_advance_def)
qed

lemma lx_rest_advance:
  assumes "lx_rest l = b # r"
  shows "\<exists>l1. lx_advance l = (Some b, l1) \<and> lx_rest l1 = r"
  using lx_rest_Cons [OF assms] by (simp add: lx_advance_def)

lemma lx_rest_Nil: "lx_rest l = [] \<Longrightarrow> lx_peek l = None"
  by (auto simp: lx_rest_def lx_peek_def get_at_def)

lemma lx_word_render:
  "lx_rest l = w @ CHR '' '' # r \<Longrightarrow> list_all is_folded_byte w \<Longrightarrow>
     \<exists>l'. lx_word l acc = (acc @ w, l') \<and> lx_rest l' = CHR '' '' # r"
proof (induction w arbitrary: l acc)
  case Nil
  with lx_rest_Cons [of l "CHR '' ''" r] show ?case by (simp add: lx_word.simps [of l] rust_simps)
next
  case (Cons b w)
  have r: "lx_rest l = b # w @ CHR '' '' # r" using Cons.prems by simp
  from Cons.IH [of "lx_skip l" "acc @ [b]"] Cons.prems lx_rest_Cons [OF r] show ?case
    by (auto simp: lx_word.simps [of l] is_folded_byte_def)
qed

lemma quoted_loop_render:
  "lx_rest l = escape_string v @ CHR 0x22 # r \<Longrightarrow> length (acc @ v) \<le> max_string_size lim \<Longrightarrow>
     \<exists>l'. quoted_loop lim line col l acc = Inr (acc @ v, l') \<and> lx_rest l' = r"
proof (induction v arbitrary: l acc)
  case Nil
  with lx_rest_advance [of l "CHR 0x22" r] show ?case
    by (auto simp: quoted_loop.simps [of _ _ _ l] escape_string_def)
next
  case (Cons b v)
  let ?t = "escape_string v @ CHR 0x22 # r"
  have p: "push_limited lim line col acc b = Inr (acc @ [b])"
    using Cons.prems(2) by (simp add: push_limited_def)
  show ?case
  proof (cases "b = CHR 0x22 \<or> b = CHR 0x5C")
    case True
    with Cons.prems(1) have r: "lx_rest l = CHR 0x5C # b # ?t" by (auto simp: escape_string_def)
    from lx_rest_advance [OF r] lx_rest_advance obtain l1 l2 where
      "lx_advance l = (Some CHR 0x5C, l1)" "lx_advance l1 = (Some b, l2)" "lx_rest l2 = ?t" by blast
    with Cons.IH [of l2 "acc @ [b]"] Cons.prems(2) p show ?thesis
      by (simp add: quoted_loop.simps [of _ _ _ l])
  next
    case False
    with Cons.prems(1) have r: "lx_rest l = b # ?t" by (auto simp: escape_string_def)
    from lx_rest_advance [OF r] obtain l1 where
      "lx_advance l = (Some b, l1)" "lx_rest l1 = ?t" by blast
    with Cons.IH [of l1 "acc @ [b]"] Cons.prems(2) p False show ?thesis
      by (simp add: quoted_loop.simps [of _ _ _ l])
  qed
qed

lemma number_loop_render:
  "lx_rest l = ds @ CHR '' '' # r \<Longrightarrow> list_all is_ascii_digit ds \<Longrightarrow> dec_val (unat v) ds < 2 ^ 64 \<Longrightarrow>
     \<exists>l'. number_loop line col l v = Inr (of_nat (dec_val (unat v) ds), l') \<and> lx_rest l' = CHR '' '' # r"
proof (induction ds arbitrary: l v)
  case Nil
  with lx_rest_Cons [of l "CHR '' ''" r] show ?case by (simp add: number_loop.simps [of _ _ l] rust_simps)
next
  case (Cons d ds)
  have r: "lx_rest l = d # ds @ CHR '' '' # r" using Cons.prems by simp
  let ?d = "byte_val d - 48"
  have lt: "unat v * 10 + ?d < 2 ^ 64"
    using Cons.prems(3) dec_val_ge [of "unat v * 10 + ?d" ds] by simp
  have d: "?d < 10" using Cons.prems(2) by (auto simp: is_ascii_digit_def)
  then have ud: "unat (of_nat ?d :: u64) = ?d" by (simp add: unat_of_nat)
  from lt have um: "unat (v * 10) = unat v * 10" by (simp add: unat_word_ariths)
  let ?v = "v * 10 + of_nat ?d :: u64"
  have uv: "unat ?v = unat v * 10 + ?d" using lt um ud by (simp add: unat_word_ariths)
  have "Option.bind (checked_mul v 10) (\<lambda>w. checked_add w (of_nat ?d)) = Some ?v"
    using lt um ud by (simp add: checked_mul_def checked_add_def)
  moreover from Cons.IH [OF lx_rest_Cons(2) [OF r], of ?v] Cons.prems(2,3) uv
  have "\<exists>l'. number_loop line col (lx_skip l) ?v = Inr (of_nat (dec_val (unat v) (d # ds)), l')
    \<and> lx_rest l' = CHR '' '' # r" by simp
  ultimately show ?case using lx_rest_Cons(1) [OF r] Cons.prems(2)
    by (simp add: number_loop.simps [of _ _ l])
qed

lemma scan_token_render:
  assumes r: "lx_rest l = render_tok t @ CHR '' '' # r" and "tok_ok lim t"
  shows "\<exists>b l' u. lx_peek l = Some b \<and> b \<notin> {CHR '' '', HT, CR, LF, CHR ''#'', CHR ''/''} \<and>
    scan_token lim b l = Inr (u, l') \<and> t_tok u = t \<and> lx_rest l' = CHR '' '' # r"
proof (cases t)
  case (Identifier w)
  with assms(2) obtain b w' where w: "w = b # w'" "is_folded_byte b" "\<not> is_ascii_digit b"
    "list_all is_folded_byte w" by (cases w) (auto simp: is_folded_word_def)
  from lx_word_render [of l w r "[]"] r w Identifier obtain l' where
    l': "lx_word l [] = (w, l')" "lx_rest l' = CHR '' '' # r" by auto
  have p: "lx_peek l = Some b" using r w Identifier lx_rest_Cons(1) [of l b] by simp
  from w(2,3) have "is_word_start b" "b \<notin> {CHR 0x22, CHR '' '', HT, CR, LF, CHR ''#'', CHR ''/''}"
    by (auto simp: is_folded_byte_def is_word_start_def rust_simps)
  with p l' w(3) Identifier lx_rest_Cons(1) [OF l'(2)] show ?thesis
    by (auto simp: scan_token_def mk_token_def Let_def)
next
  case (Tag w)
  with assms(2) obtain b w' where w: "w = b # w'" "is_folded_byte b" "\<not> is_ascii_digit b"
    "list_all is_folded_byte w" by (cases w) (auto simp: is_folded_word_def)
  have p: "lx_peek l = Some CHR '':''" "lx_rest (lx_skip l) = w @ CHR '' '' # r"
    using r Tag lx_rest_Cons(1,2) [of l "CHR '':''"] by auto
  have q: "lx_peek (lx_skip l) = Some b" using p(2) w lx_rest_Cons(1) [of "lx_skip l" b] by simp
  from w(2,3) have "is_word_start b" by (auto simp: is_folded_byte_def is_word_start_def)
  with p q lx_word_render [OF p(2) w(4), of "[]"] Tag show ?thesis
    by (auto simp: scan_token_def mk_token_def Let_def is_word_start_def rust_simps)
next
  case (Number n)
  obtain d ds where ds: "show_nat (unat n) = d # ds" by (cases "show_nat (unat n)") auto
  have dig: "list_all is_ascii_digit (show_nat (unat n))" by (auto simp: list_all_iff show_nat_digits)
  have "unat n < 2 ^ 64" using unsigned_less [of n] by simp
  with number_loop_render [of l "show_nat (unat n)" r 0] r dig Number obtain l' where
    l': "number_loop (lx_line l) (lx_col l) l 0 = Inr (n, l')" "lx_rest l' = CHR '' '' # r" by auto
  have p: "lx_peek l = Some d" using r ds Number lx_rest_Cons(1) [of l d] by simp
  from dig ds have "is_ascii_digit d" "d \<notin> {CHR 0x22, CHR '' '', HT, CR, LF, CHR ''#'', CHR ''/''}"
    by (auto simp: rust_simps)
  with p l' Number lx_rest_Cons(1) [OF l'(2)] show ?thesis
    by (auto simp: scan_token_def lx_number_def number_multiplier_def mk_token_def Let_def)
next
  case (Str v)
  have p: "lx_peek l = Some CHR 0x22" "lx_rest (lx_skip l) = escape_string v @ CHR 0x22 # CHR '' '' # r"
    using r Str lx_rest_Cons(1,2) [of l "CHR 0x22"] by auto
  from quoted_loop_render [OF p(2), of "[]" lim "lx_line l" "lx_col l"] assms(2) Str p show ?thesis
    by (auto simp: scan_token_def quoted_string_def mk_token_def Let_def)
qed (use r lx_rest_Cons [of l] in \<open>auto simp: scan_token_def punctuation_def mk_token_def Let_def
    is_word_start_def rust_simps\<close>)

lemma next_token_blank: "lx_rest l = CHR '' '' # r \<Longrightarrow> next_token lim l = next_token lim (lx_skip l)"
  using lx_rest_Cons(1) [of l] by (simp add: next_token.simps [of _ l])

lemma next_token_render:
  assumes "lx_rest l = render_tok t @ CHR '' '' # r" and "tok_ok lim t"
  shows "\<exists>l' u. next_token lim l = Inr (Some u, l') \<and> t_tok u = t \<and> lx_rest l' = CHR '' '' # r"
  using scan_token_render [OF assms] by (auto simp: next_token.simps [of _ l])

lemma tokenize_loop_render:
  "lx_rest l = CHR '' '' # render_toks ts \<or> lx_rest l = render_toks ts \<Longrightarrow> list_all (tok_ok lim) ts \<Longrightarrow>
     \<exists>us. tokenize_loop lim l vs = Inr (vs @ us) \<and> map t_tok us = ts"
proof (induction ts arbitrary: l vs)
  case Nil
  have e: "next_token lim l = Inr (None, l)" if "lx_rest l = []" for l
    using lx_rest_Nil [OF that] by (simp add: next_token.simps [of _ l])
  from Nil have "\<exists>l'. next_token lim l = Inr (None, l')"
    using e [of l] e [of "lx_skip l"] next_token_blank [of l] lx_rest_Cons(2) [of l]
    by (auto simp: render_toks_def)
  then show ?case by (auto simp: tokenize_loop.simps [of _ l])
next
  case (Cons t ts)
  let ?r = "render_tok t @ CHR '' '' # render_toks ts"
  from Cons.prems have "lx_rest l = CHR '' '' # ?r \<or> lx_rest l = ?r" by (simp add: render_toks_def)
  then have "\<exists>l' u. next_token lim l = Inr (Some u, l') \<and> t_tok u = t
      \<and> lx_rest l' = CHR '' '' # render_toks ts"
    using next_token_render [of l t _ lim] next_token_render [of "lx_skip l" t _ lim]
      next_token_blank [of l _ lim] lx_rest_Cons(2) [of l] Cons.prems(2) by auto
  then obtain l' u where u: "next_token lim l = Inr (Some u, l')" "t_tok u = t"
    "lx_rest l' = CHR '' '' # render_toks ts" by blast
  from Cons.IH [of l' "vs @ [u]"] u Cons.prems(2) show ?case
    by (auto simp: tokenize_loop.simps [of _ l])
qed

section \<open>Two runs\<close>

lemmas lexer_eval = tokenize_def tokenize_loop.simps next_token.simps lx_word.simps scan_token_def
  Let_def lexer_new_def lx_peek_def lx_advance_def get_at_def is_word_start_def punctuation_def
  hex_char_def mk_token_def rust_simps

lemma tokenize_keep:
  "tokenize ''a ;'' lim =
     Inr [\<lparr>t_tok = Identifier ''a'', t_line = 1, t_col = 1\<rparr>, \<lparr>t_tok = Semicolon, t_line = 1, t_col = 3\<rparr>]"
  by (simp add: lexer_eval eval_nat_numeral)

lemma tokenize_percent:
  "tokenize [LF, CHR ''%''] lim = Inl (compile_err 2 1 ''unexpected character 0x25'')"
  by (simp add: lexer_eval compile_err_def char_of_eq_iff take_bit_eq_mod)

section \<open>Properties\<close>

text \<open>C32. Every token carries the line and column of a byte of the source, and successive
  tokens start at strictly increasing offsets.\<close>

theorem tokenize_positions:
  "tokenize s lim = Inr ts \<Longrightarrow> \<exists>offs. sorted_wrt (<) offs \<and> list_all2 (token_at s) offs ts"
  using tokenize_loop_positions [OF lx_wf_new] unfolding tokenize_def by fastforce

theorem tokenize_positions_witness:
  "tokenize ''a ;'' default_compiler_limits =
     Inr [\<lparr>t_tok = Identifier ''a'', t_line = 1, t_col = 1\<rparr>, \<lparr>t_tok = Semicolon, t_line = 1, t_col = 3\<rparr>]
   \<and> (\<exists>offs. sorted_wrt (<) offs \<and> list_all2 (token_at ''a ;'') offs
     [\<lparr>t_tok = Identifier ''a'', t_line = 1, t_col = 1\<rparr>, \<lparr>t_tok = Semicolon, t_line = 1, t_col = 3\<rparr>])"
  using tokenize_positions [OF tokenize_keep] tokenize_keep by blast

text \<open>C31. The tokenizer never panics: a failure is a compile error that points at the line and
  column of a byte of the source.\<close>

theorem tokenize_error_position:
  "tokenize s lim = Inl f \<Longrightarrow>
     \<exists>pos msg. pos < length s \<and> f = compile_err (line_of s pos) (col_of s pos) msg"
  using tokenize_loop_err [OF lx_wf_new] unfolding tokenize_def by blast

theorem tokenize_error_position_witness:
  "tokenize [LF, CHR ''%''] default_compiler_limits = Inl (compile_err 2 1 ''unexpected character 0x25'')
   \<and> (\<exists>pos msg. pos < length [LF, CHR ''%''] \<and> compile_err 2 1 ''unexpected character 0x25'' =
        compile_err (line_of [LF, CHR ''%''] pos) (col_of [LF, CHR ''%''] pos) msg)"
  using tokenize_error_position [OF tokenize_percent] tokenize_percent by blast

text \<open>C33. Every string token is valid UTF-8 within the string size limit, and identifiers and
  tags are non-empty lower-case words.\<close>

theorem tokenize_tokens_ok:
  "tokenize s lim = Inr ts \<Longrightarrow> list_all (\<lambda>t. tok_ok lim (t_tok t)) ts"
  using tokenize_loop_ok [of lim "lexer_new s" "[]" ts] by (simp add: tokenize_def comp_def)

theorem tokenize_tokens_ok_witness:
  "tokenize ''a ;'' default_compiler_limits =
     Inr [\<lparr>t_tok = Identifier ''a'', t_line = 1, t_col = 1\<rparr>, \<lparr>t_tok = Semicolon, t_line = 1, t_col = 3\<rparr>]
   \<and> tok_ok default_compiler_limits (Identifier ''a'')"
  using tokenize_tokens_ok [OF tokenize_keep, of default_compiler_limits] tokenize_keep by simp

text \<open>C30. Printing and tokenizing are inverse: the tokens the lexer can produce, printed with
  quoting and separated by blanks, are tokenized back unchanged.\<close>

theorem tokenize_render:
  assumes "list_all (tok_ok lim) ts"
  shows "\<exists>us. tokenize (render_toks ts) lim = Inr us \<and> map t_tok us = ts"
proof -
  have "lx_rest (lexer_new (render_toks ts)) = render_toks ts"
    by (simp add: lx_rest_def lexer_new_def)
  with tokenize_loop_render [of "lexer_new (render_toks ts)" ts lim "[]"] assms show ?thesis
    by (simp add: tokenize_def)
qed

theorem tokenize_render_witness:
  "list_all (tok_ok default_compiler_limits) [Identifier ''keep'', Number 10, Str ''a'', Semicolon] \<and>
   (\<exists>us. tokenize (render_toks [Identifier ''keep'', Number 10, Str ''a'', Semicolon])
           default_compiler_limits = Inr us
       \<and> map t_tok us = [Identifier ''keep'', Number 10, Str ''a'', Semicolon])"
proof -
  have "list_all (tok_ok default_compiler_limits) [Identifier ''keep'', Number 10, Str ''a'', Semicolon]"
    by (simp add: is_folded_word_def is_folded_byte_def default_compiler_limits_def rust_simps
        utf8_valid_ascii)
  from this tokenize_render [OF this] show ?thesis by blast
qed

end
