(* ===== verification/Sieve_Grammar_Props.thy ===== *)
theory Sieve_Grammar_Props
  imports Sieve_Grammar Sieve_Lexer_Props
begin

text \<open>
  What the compiler promises of the code it emits: it never panics, every jump it emits is
  resolved and goes forward, and no instruction uses a capability that was not required.
\<close>

section \<open>Unresolved jumps\<close>

definition jump_ix :: "instruction list \<Rightarrow> nat set" where
  "jump_ix is = {i. i < length is \<and> is_jump (is ! i)}"

definition open_jumps :: "instruction list \<Rightarrow> nat set" where
  "open_jumps is =
     {i. i < length is \<and> (\<exists>t. jump_target (is ! i) = Some t \<and> \<not> (i < t \<and> t \<le> length is))}"

lemma open_jumps_Nil [simp]: "open_jumps [] = {}"
  by (simp add: open_jumps_def)

lemma jump_ix_push: "jump_ix is \<subseteq> jump_ix (is @ [i])"
  by (auto simp: jump_ix_def nth_append)

lemma jump_ix_last: "is_jump i \<Longrightarrow> length is \<in> jump_ix (is @ [i])"
  by (simp add: jump_ix_def)

lemma jump_ix_lt: "j \<in> jump_ix is \<Longrightarrow> j < length is"
  by (simp add: jump_ix_def)

lemma open_jumps_push: "open_jumps (is @ [i]) \<subseteq> insert (length is) (open_jumps is)"
  by (auto simp: open_jumps_def nth_append split: if_splits)

lemma open_jumps_push_other:
  assumes "jump_target i = None"
  shows "open_jumps (is @ [i]) \<subseteq> open_jumps is"
  using assms by (auto simp: open_jumps_def nth_append split: if_splits)

lemma set_jump_Some:
  "is_jump i \<longleftrightarrow> (\<exists>i'. set_jump t i = Some i')"
  "set_jump t i = Some i' \<Longrightarrow> is_jump i' \<and> jump_target i' = Some t"
  by (cases i; auto)+

lemma patch_defined:
  assumes "j \<in> jump_ix (pr_instructions p)"
  shows "\<exists>p'. patch j t p = Inr p'"
proof -
  from assms have "j < length (pr_instructions p)" "is_jump (pr_instructions p ! j)"
    by (simp_all add: jump_ix_def)
  then show ?thesis unfolding set_jump_Some(1) [of _ t] by (auto simp: patch_def get_at_def)
qed

lemma patch_result:
  assumes "patch j t p = Inr p'" "t = length (pr_instructions p)"
  shows "jump_ix (pr_instructions p') = jump_ix (pr_instructions p)"
    and "open_jumps (pr_instructions p') \<subseteq> open_jumps (pr_instructions p) - {j}"
    and "pr_blocks p' = pr_blocks p" "pr_capabilities p' = pr_capabilities p"
    and "length (pr_instructions p') = length (pr_instructions p)"
proof -
  let ?is = "pr_instructions p"
  from assms(1) obtain i where lt: "j < length ?is" and i: "set_jump t (?is ! j) = Some i"
    and p': "p' = p\<lparr>pr_instructions := ?is[j := i]\<rparr>"
    by (auto simp: patch_def get_at_def split: option.splits if_splits)
  have ij: "is_jump i" "jump_target i = Some t" "is_jump (?is ! j)"
    using set_jump_Some(1) [of "?is ! j" t] set_jump_Some(2) [OF i] i by auto
  show "jump_ix (pr_instructions p') = jump_ix ?is"
    using ij lt by (auto simp: p' jump_ix_def nth_list_update split: if_splits)
  show "open_jumps (pr_instructions p') \<subseteq> open_jumps ?is - {j}"
    using ij lt assms(2) by (auto simp: p' open_jumps_def nth_list_update split: if_splits)
  show "pr_blocks p' = pr_blocks p" "pr_capabilities p' = pr_capabilities p"
    "length (pr_instructions p') = length ?is" by (simp_all add: p')
qed

lemma patch_all_result:
  assumes "set js \<subseteq> jump_ix (pr_instructions p)" "t = length (pr_instructions p)"
  shows "\<exists>p'. patch_all js t p = Inr p' \<and> jump_ix (pr_instructions p') = jump_ix (pr_instructions p)
    \<and> open_jumps (pr_instructions p') \<subseteq> open_jumps (pr_instructions p) - set js
    \<and> pr_blocks p' = pr_blocks p \<and> pr_capabilities p' = pr_capabilities p"
  using assms
proof (induction js arbitrary: p)
  case (Cons j js)
  from Cons.prems patch_defined [of j p t] obtain q where q: "patch j t p = Inr q" by auto
  note r = patch_result [OF q Cons.prems(2)]
  from Cons.IH [of q] Cons.prems r obtain p' where "patch_all js t q = Inr p'"
    "jump_ix (pr_instructions p') = jump_ix (pr_instructions q)"
    "open_jumps (pr_instructions p') \<subseteq> open_jumps (pr_instructions q) - set js"
    "pr_blocks p' = pr_blocks q" "pr_capabilities p' = pr_capabilities q" by auto
  with q r show ?case by auto
qed simp

section \<open>No panic outside \<open>patch\<close>\<close>

named_theorems no_panic

lemma err_no_panic [simp]: "err_at t msg \<noteq> Panic" "pr_err p msg \<noteq> Panic"
  by (simp_all add: err_at_def pr_err_def split: option.splits)

lemma pr_expect_no_panic [no_panic]: "pr_expect k d p \<noteq> Inl Panic"
  by (auto simp: pr_expect_def split: prod.splits option.splits)

lemma need_capability_no_panic [no_panic]: "need_capability p n t \<noteq> Inl Panic"
  by (simp add: need_capability_def)

lemma pr_decode_no_panic [no_panic]: "pr_decode p v l c \<noteq> Inl Panic"
  by (auto simp: pr_decode_def split: sum.splits)

lemma parse_string_no_panic [no_panic]: "parse_string p \<noteq> Inl Panic"
  unfolding parse_string_def
  by (auto split: prod.splits option.splits tok.splits simp: and_then_eq_Inl no_panic)

lemma decode_list_no_panic [no_panic]: "decode_list p vs \<noteq> Inl Panic"
  by (induction vs) (auto simp: and_then_eq_Inl no_panic)

lemma raw_list_loop_no_panic [no_panic]: "raw_list_loop p vs \<noteq> Inl Panic"
proof (induction p vs rule: raw_list_loop.induct)
  case (1 p vs)
  obtain x p1 where a: "pr_advance p = (x, p1)" by (cases "pr_advance p")
  obtain y p2 where b: "pr_advance p1 = (y, p2)" by (cases "pr_advance p1")
  show ?case
    using "1.IH" [OF a [symmetric] _ _ _ b [symmetric]]
    by (auto simp: raw_list_loop.simps [of p] a b split: option.splits tok.splits)
qed

lemma parse_raw_string_list_no_panic [no_panic]: "parse_raw_string_list p \<noteq> Inl Panic"
  unfolding parse_raw_string_list_def
  by (auto split: prod.splits option.splits tok.splits simp: no_panic)

lemma parse_string_list_no_panic [no_panic]: "parse_string_list p \<noteq> Inl Panic"
  unfolding parse_string_list_def by (auto simp: and_then_eq_Inl no_panic)

lemma parse_header_list_no_panic [no_panic]: "parse_header_list t p \<noteq> Inl Panic"
  unfolding parse_header_list_def
  by (auto simp: and_then_eq_Inl no_panic split: option.splits)

lemma parse_comparator_no_panic [no_panic]: "parse_comparator t p \<noteq> Inl Panic"
  unfolding parse_comparator_def by (auto simp: and_then_eq_Inl no_panic)

lemma match_tags_loop_no_panic [no_panic]: "match_tags_loop t wp m p \<noteq> Inl Panic"
proof (induction t wp m p rule: match_tags_loop.induct)
  case (1 t wp m p)
  show ?case
  proof (cases "\<exists>tag. pr_peek p = Some (Tag tag)")
    case False
    then show ?thesis
      by (auto simp: match_tags_loop.simps [of _ _ _ p] split: option.splits tok.splits)
  next
    case True
    then obtain tag where tag: "pr_peek p = Some (Tag tag)" by blast
    show ?thesis
      using "1.IH" [OF tag refl refl]
      by (auto simp: match_tags_loop.simps [of t wp m p] tag Let_def no_panic and_then_eq_Inl)
  qed
qed

lemma size_tags_loop_no_panic [no_panic]: "size_tags_loop t ov p \<noteq> Inl Panic"
proof (induction t ov p rule: size_tags_loop.induct)
  case (1 t ov p)
  show ?case
  proof (cases "\<exists>tag. pr_peek p = Some (Tag tag)")
    case False
    then show ?thesis
      by (auto simp: size_tags_loop.simps [of _ _ p] split: option.splits tok.splits)
  next
    case True
    then obtain tag where tag: "pr_peek p = Some (Tag tag)" by blast
    show ?thesis
      using "1.IH" [OF tag refl refl]
      by (auto simp: size_tags_loop.simps [of t ov p] tag Let_def)
  qed
qed

lemma parse_match_tags_no_panic [no_panic]: "parse_match_tags t wp p \<noteq> Inl Panic"
  unfolding parse_match_tags_def by (auto simp: and_then_eq_Inl no_panic)

lemma envelope_parts_no_panic [no_panic]: "envelope_parts t names \<noteq> Inl Panic"
  by (induction t names rule: envelope_parts.induct) (auto simp: and_then_eq_Inl)

lemma parse_leaf_no_panic [no_panic]: "parse_leaf word t n p \<noteq> Inl Panic"
proof -
  have "parse_exists t n p \<noteq> Inl Panic" "parse_header t n p \<noteq> Inl Panic"
    "parse_address t n p \<noteq> Inl Panic" "parse_envelope t n p \<noteq> Inl Panic"
    unfolding parse_exists_def parse_header_def parse_address_def parse_envelope_def
    by (auto simp: and_then_eq_Inl no_panic)
  moreover have "parse_size t n p \<noteq> Inl Panic"
    unfolding parse_size_def
    by (auto simp: and_then_eq_Inl no_panic split: option.splits prod.splits tok.splits)
  ultimately show ?thesis by (simp add: parse_leaf_def)
qed

section \<open>Test expressions emit resolved code\<close>

text \<open>
  What a parser may do to the code: keep every jump a jump, leave no new jump open except
  those of \<open>J\<close>, keep the blocks and the capabilities, and add permitted instructions only.
\<close>

fun instr_ok :: "bytes list \<Rightarrow> instruction \<Rightarrow> bool" where
  "instr_ok caps (Test t) = test_ok caps t"
| "instr_ok caps (FileInto _) = (''fileinto'' \<in> set caps)"
| "instr_ok caps (AddFlag _) = (''imap4flags'' \<in> set caps)"
| "instr_ok caps (SetFlag _) = (''imap4flags'' \<in> set caps)"
| "instr_ok caps (RemoveFlag _) = (''imap4flags'' \<in> set caps)"
| "instr_ok caps _ = True"

definition code_ok :: "parser \<Rightarrow> bool" where
  "code_ok p \<longleftrightarrow> list_all (instr_ok (pr_capabilities p)) (pr_instructions p)"

definition emits :: "nat set \<Rightarrow> parser \<Rightarrow> parser \<Rightarrow> bool" where
  "emits J p p' \<longleftrightarrow>
     jump_ix (pr_instructions p) \<subseteq> jump_ix (pr_instructions p') \<and>
     open_jumps (pr_instructions p') \<subseteq> open_jumps (pr_instructions p) \<union> J \<and>
     pr_blocks p' = pr_blocks p \<and> pr_capabilities p' = pr_capabilities p \<and>
     (code_ok p \<longrightarrow> code_ok p')"

lemma emits_refl [simp]: "emits J p p"
  by (simp add: emits_def)

lemma emits_trans: "emits J p p' \<Longrightarrow> emits K p' p'' \<Longrightarrow> emits (J \<union> K) p p''"
  unfolding emits_def by auto

lemma emits_trans_same: "emits J p p' \<Longrightarrow> emits J p' p'' \<Longrightarrow> emits J p p''"
  using emits_trans [of J p p' J p''] by simp

lemma emits_mono: "emits J p p' \<Longrightarrow> J \<subseteq> K \<Longrightarrow> emits K p p'"
  unfolding emits_def by auto

lemma emits_read: "pr_read p p' \<Longrightarrow> emits J p p'"
  by (auto simp: emits_def pr_read_def pr_fwd_def code_ok_def)

lemma emits_push_other:
  "jump_target i = None \<Longrightarrow> instr_ok (pr_capabilities p) i \<Longrightarrow> emits J p (push_instruction i p)"
  using open_jumps_push_other [of i "pr_instructions p"] jump_ix_push [of "pr_instructions p" i]
  by (auto simp: emits_def push_instruction_def code_ok_def)

lemma emits_push_jump:
  "is_jump i \<Longrightarrow> emits {length (pr_instructions p)} p (push_instruction i p)"
  using open_jumps_push [of "pr_instructions p" i] jump_ix_push [of "pr_instructions p" i]
  by (cases i) (auto simp: emits_def push_instruction_def code_ok_def)

lemma emits_leaf: "leaf_result n p p' \<Longrightarrow> emits J p p'"
proof -
  assume "leaf_result n p p'"
  then obtain q t where q: "pr_read p q" "test_ok (pr_capabilities p) t" "p' = push_instruction (Test t) q"
    by (auto simp: leaf_result_def)
  then show ?thesis
    by (auto intro!: emits_trans_same [OF emits_read [OF q(1)] emits_push_other] simp: pr_read_capabilities)
qed

lemma set_jump_instr_ok: "set_jump t i = Some i' \<Longrightarrow> instr_ok caps i'"
  by (cases i) auto

lemma code_ok_patch: "patch j t p = Inr p' \<Longrightarrow> code_ok p \<Longrightarrow> code_ok p'"
  by (auto simp: patch_def code_ok_def get_at_def list_all_iff split: option.splits if_splits
      dest!: set_mp [OF set_update_subset_insert] intro: set_jump_instr_ok)

lemma code_ok_patch_all: "patch_all js t p = Inr p' \<Longrightarrow> code_ok p \<Longrightarrow> code_ok p'"
  by (induction js arbitrary: p) (auto elim!: and_then_InrE dest: code_ok_patch)

lemma parse_test_emits:
  "parse_test_expr negate depth p \<noteq> Inl Panic \<and>
     (\<forall>p'. parse_test_expr negate depth p = Inr p' \<longrightarrow> emits {} p p')"
  "set jumps \<subseteq> jump_ix (pr_instructions p) \<Longrightarrow>
     test_list_loop negate depth is_all jumps p \<noteq> Inl Panic \<and>
     (\<forall>js p'. test_list_loop negate depth is_all jumps p = Inr (js, p') \<longrightarrow>
        set js \<subseteq> jump_ix (pr_instructions p') \<and> set jumps \<subseteq> set js \<and> emits (set js) p p')"
proof (induction negate depth p and negate depth is_all jumps p rule: parse_test_expr_test_list_loop.induct)
  case (1 negate depth p)
  obtain x p1 where a: "pr_advance p = (x, p1)" by (cases "pr_advance p")
  have r1: "emits {} p p1" using pr_read_advance [OF a] by (rule emits_read)
  consider (bad) "max_nested_tests (pr_limits p) \<le> depth \<or> (\<nexists>t word. x = Some t \<and> t_tok t = Identifier word)"
    | (ok) t word where "\<not> max_nested_tests (pr_limits p) \<le> depth" "x = Some t" "t_tok t = Identifier word"
    by blast
  then show ?case
  proof cases
    case bad
    then show ?thesis
      by (auto simp: parse_test_expr.simps [of _ _ p] a split: option.splits tok.splits)
  next
    case ok
    note ih = "1.IH" [OF ok(1) a [symmetric] ok(2,3)]
    consider (neg) "word = ''not''" | (group) "word \<noteq> ''not''" "word = ''allof'' \<or> word = ''anyof''"
      | (leaf) "word \<noteq> ''not''" "\<not> (word = ''allof'' \<or> word = ''anyof'')" by blast
    then show ?thesis
    proof cases
      case neg
      with ih(1) ok a r1 show ?thesis
        by (auto simp: parse_test_expr.simps [of _ _ p] intro: emits_trans_same)
    next
      case group
      let ?all = "(word = ''allof'') \<noteq> negate"
      have e: "parse_test_expr negate depth p = and_then (pr_expect LParen (ticked ''('') p1) (\<lambda>p2.
                 and_then (test_list_loop negate depth ?all [] p2)
                   (\<lambda>(jumps, p3). patch_all jumps (length (pr_instructions p3)) p3))"
        using ok a group by (simp add: parse_test_expr.simps [of _ _ p])
      show ?thesis
      proof (cases "pr_expect LParen (ticked ''('') p1")
        case (Inl f)
        with pr_expect_no_panic [of LParen "ticked ''(''" p1] show ?thesis unfolding e by auto
      next
        case (Inr p2)
        have r2: "emits {} p p2"
          using r1 pr_read_expect [OF Inr] by (blast intro: emits_trans_same emits_read)
        note ihl = ih(2) [OF group Inr, simplified]
        show ?thesis
        proof (cases "test_list_loop negate depth ?all [] p2")
          case (Inl f)
          with ihl show ?thesis unfolding e Inr by auto
        next
          case (Inr q)
          obtain js p3 where q: "q = (js, p3)" by (cases q)
          with ihl Inr have js: "set js \<subseteq> jump_ix (pr_instructions p3)" "emits (set js) p2 p3" by auto
          from patch_all_result [OF js(1) refl] obtain p4 where
            p4: "patch_all js (length (pr_instructions p3)) p3 = Inr p4"
              "jump_ix (pr_instructions p4) = jump_ix (pr_instructions p3)"
              "open_jumps (pr_instructions p4) \<subseteq> open_jumps (pr_instructions p3) - set js"
              "pr_blocks p4 = pr_blocks p3" "pr_capabilities p4 = pr_capabilities p3" by blast
          have "emits {} p2 p4" using js(2) p4 code_ok_patch_all [OF p4(1)] unfolding emits_def by auto
          with r2 have "emits {} p p4" by (rule emits_trans_same)
          with p4(1) show ?thesis
            unfolding e \<open>pr_expect LParen (ticked ''('') p1 = Inr p2\<close> and_then_Inr Inr q by simp
        qed
      qed
    next
      case leaf
      have e: "parse_test_expr negate depth p = parse_leaf word t negate p1"
        using ok a leaf by (simp add: parse_test_expr.simps [of _ _ p])
      show ?thesis unfolding e using r1 no_panic
        by (auto dest!: parse_leaf_leaf emits_leaf [where J = "{}"] intro: emits_trans_same)
    qed
  qed
next
  case (2 negate depth is_all jumps p)
  show ?case
  proof (cases "parse_test_expr negate (depth + 1) p")
    case (Inl f)
    with "2.IH"(1) show ?thesis by (auto simp: test_list_loop.simps)
  next
    case (Inr p1)
    obtain x p2 where a: "pr_advance p1 = (x, p2)" by (cases "pr_advance p1")
    have r2: "emits {} p p2"
      using "2.IH"(1) Inr pr_read_advance [OF a] by (blast intro: emits_trans_same emits_read)
    then have j2: "set jumps \<subseteq> jump_ix (pr_instructions p2)" using "2.prems" by (auto simp: emits_def)
    consider (other) "x = None \<or> (\<exists>t. x = Some t \<and> t_tok t \<noteq> Comma \<and> t_tok t \<noteq> RParen)"
      | (close) t where "x = Some t" "t_tok t = RParen" | (comma) t where "x = Some t" "t_tok t = Comma"
      by (cases x) auto
    then show ?thesis
    proof cases
      case other
      with Inr a show ?thesis by (auto simp: test_list_loop.simps)
    next
      case close
      with Inr a r2 j2 show ?thesis by (auto simp: test_list_loop.simps intro: emits_mono)
    next
      case comma
      let ?p3 = "push_instruction (jump_hole is_all) p2" and ?n = "length (pr_instructions p2)"
      have e: "test_list_loop negate depth is_all jumps p = test_list_loop negate depth is_all (jumps @ [?n]) ?p3"
        using Inr a comma by (simp add: test_list_loop.simps [of _ _ _ jumps] push_instruction_def)
      have j3: "set (jumps @ [?n]) \<subseteq> jump_ix (pr_instructions ?p3)"
        using j2 jump_ix_push [of "pr_instructions p2" "jump_hole is_all"]
          jump_ix_last [of "jump_hole is_all" "pr_instructions p2"]
        by (auto simp: push_instruction_def)
      have "emits {?n} p ?p3"
        using emits_trans [OF r2 emits_push_jump [of "jump_hole is_all" p2]] by simp
      with "2.IH"(2) [OF Inr a [symmetric] comma refl] j3 show ?thesis
        unfolding e by (auto simp: push_instruction_def intro: emits_trans_same [OF emits_mono])
    qed
  qed
qed

section \<open>The invariant of the parser\<close>

text \<open>
  \<open>K\<close> is the set of jumps that are still to be patched: the unresolved jumps of the code are
  among them, and all of them are jumps.
\<close>

definition pending :: "nat set \<Rightarrow> parser \<Rightarrow> bool" where
  "pending K p \<longleftrightarrow> K \<subseteq> jump_ix (pr_instructions p) \<and> open_jumps (pr_instructions p) \<subseteq> K \<and> code_ok p"

definition block_ix :: "open_block \<Rightarrow> nat set" where
  "block_ix b = set_option (jz_at b) \<union> set (chain_jmps b)"

definition blocks_ix :: "parser \<Rightarrow> nat set" where
  "blocks_ix p = \<Union> (block_ix ` set (pr_blocks p))"

definition parser_inv :: "parser \<Rightarrow> bool" where
  "parser_inv p \<longleftrightarrow> pending (blocks_ix p) p \<and> length (pr_blocks p) \<le> max_nested_blocks (pr_limits p)"

lemma pending_emits:
  "pending K p \<Longrightarrow> emits J p p' \<Longrightarrow> J \<subseteq> jump_ix (pr_instructions p') \<Longrightarrow> pending (K \<union> J) p'"
  by (auto simp: pending_def emits_def)

lemma pending_emits_none: "pending K p \<Longrightarrow> emits {} p p' \<Longrightarrow> pending K p'"
  using pending_emits [of K p "{}" p'] by simp

lemma pending_read: "pending K p \<Longrightarrow> pr_read p p' \<Longrightarrow> pending K p'"
  by (blast intro: pending_emits_none emits_read)

lemma pending_push_jump:
  "pending K p \<Longrightarrow> is_jump i \<Longrightarrow> pending (insert (length (pr_instructions p)) K) (push_instruction i p)"
  using pending_emits [OF _ emits_push_jump, of K p i] jump_ix_last [of i "pr_instructions p"]
  by (simp add: push_instruction_def)

lemma pending_patch:
  assumes "pending K p" "patch j (length (pr_instructions p)) p = Inr p'" "K - {j} \<subseteq> K'" "K' \<subseteq> K"
  shows "pending K' p'"
  using assms patch_result [OF assms(2) refl] code_ok_patch [OF assms(2)] unfolding pending_def by blast

lemma pending_patch_all:
  assumes "pending K p" "set js \<subseteq> K" "K - set js \<subseteq> K'" "K' \<subseteq> K"
  shows "\<exists>p'. patch_all js (length (pr_instructions p)) p = Inr p' \<and> pending K' p' \<and> pr_blocks p' = pr_blocks p"
proof -
  from assms(1,2) have "set js \<subseteq> jump_ix (pr_instructions p)" by (auto simp: pending_def)
  from patch_all_result [OF this refl] obtain p' where p': "patch_all js (length (pr_instructions p)) p = Inr p'"
    "jump_ix (pr_instructions p') = jump_ix (pr_instructions p)"
    "open_jumps (pr_instructions p') \<subseteq> open_jumps (pr_instructions p) - set js" "pr_blocks p' = pr_blocks p" by blast
  from p'(3) assms have "open_jumps (pr_instructions p') \<subseteq> K'" unfolding pending_def by blast
  with p' assms code_ok_patch_all [OF p'(1)] show ?thesis unfolding pending_def by (intro exI [of _ p']) auto
qed

lemma pending_simps [simp]:
  "pending K (p\<lparr>pr_blocks := bs\<rparr>) = pending K p" "pending K (start_commands p) = pending K p"
  by (simp_all add: pending_def code_ok_def start_commands_def)

lemma blocks_ix_simps [simp]:
  "blocks_ix (p\<lparr>pr_blocks := bs\<rparr>) = \<Union> (block_ix ` set bs)" "blocks_ix (start_commands p) = blocks_ix p"
  "blocks_ix (push_instruction i p) = blocks_ix p"
  by (simp_all add: blocks_ix_def start_commands_def push_instruction_def)

lemma parser_inv_start [simp]: "parser_inv (start_commands p) = parser_inv p"
  by (simp add: parser_inv_def) (simp add: start_commands_def)

lemma parser_inv_fwd:
  assumes "parser_inv p" "pr_fwd p p'" "emits {} p p'"
  shows "parser_inv p'"
  using assms pending_emits_none [of "blocks_ix p" p p'] by (auto simp: parser_inv_def pr_fwd_def blocks_ix_def)

lemma parser_inv_read: "pr_read p p' \<Longrightarrow> parser_inv p \<Longrightarrow> parser_inv p'"
  by (rule parser_inv_fwd) (auto simp: pr_read_def intro: emits_read [unfolded pr_read_def])

lemma parser_inv_read_start: "pr_read (start_commands p) p' \<Longrightarrow> parser_inv p \<Longrightarrow> parser_inv p'"
  by (erule parser_inv_read) simp

lemma parser_inv_push:
  "parser_inv p \<Longrightarrow> jump_target i = None \<Longrightarrow> instr_ok (pr_capabilities p) i \<Longrightarrow>
     parser_inv (push_instruction i p)"
  by (erule parser_inv_fwd) (simp_all add: emits_push_other)

lemma parser_inv_new: "parser_inv (parser_new ts lim)"
  by (simp add: parser_inv_def parser_new_def pending_def blocks_ix_def code_ok_def)

section \<open>Commands keep the invariant\<close>

lemma instr_ok_mono:
  assumes "instr_ok caps i" "set caps \<subseteq> set caps'"
  shows "instr_ok caps' i"
proof -
  have "comparator_ok caps c \<Longrightarrow> comparator_ok caps' c" for c
    using assms(2) by (auto simp: comparator_ok_def)
  then have "test_ok caps t \<Longrightarrow> test_ok caps' t" for t using assms(2) by (cases t) auto
  with assms show ?thesis by (cases i) auto
qed

lemma add_capabilities_inv:
  "add_capabilities t names p = Inr p' \<Longrightarrow> parser_inv p \<Longrightarrow> parser_inv p'"
proof (induction names arbitrary: p)
  case (Cons n ns)
  have "instr_ok (pr_capabilities p @ [n]) i" if "instr_ok (pr_capabilities p) i" for i
    using that by (rule instr_ok_mono) auto
  with Cons.prems(2) have "parser_inv (p\<lparr>pr_capabilities := pr_capabilities p @ [n]\<rparr>)"
    by (auto simp: parser_inv_def pending_def code_ok_def blocks_ix_def list_all_iff)
  with Cons show ?case by (auto split: if_splits)
qed simp

lemma add_capabilities_no_panic [no_panic]: "add_capabilities t names p \<noteq> Inl Panic"
  by (induction t names p rule: add_capabilities.induct) simp_all

text \<open>What each command promises.\<close>

definition keeps_inv :: "fault + parser \<Rightarrow> bool" where
  "keeps_inv r \<longleftrightarrow> r \<noteq> Inl Panic \<and> (\<forall>p'. r = Inr p' \<longrightarrow> parser_inv p')"

lemma keeps_inv_simps [simp]: "keeps_inv (Inr p) = parser_inv p" "keeps_inv (Inl f) = (f \<noteq> Panic)"
  by (simp_all add: keeps_inv_def)

lemma keeps_inv_then:
  assumes "r \<noteq> Inl Panic" "\<And>x. r = Inr x \<Longrightarrow> keeps_inv (f x)"
  shows "keeps_inv (and_then r f)"
  using assms by (cases r) auto

lemma keeps_inv_expect: "parser_inv p \<Longrightarrow> keeps_inv (pr_expect k d p)"
  using pr_expect_no_panic [of k d p] by (auto simp: keeps_inv_def dest: pr_read_expect intro: parser_inv_read)

lemma simple_command_inv:
  "parser_inv p \<Longrightarrow> jump_target i = None \<Longrightarrow> instr_ok [] i \<Longrightarrow> keeps_inv (simple_command i p)"
  unfolding simple_command_def
  by (rule keeps_inv_then)
    (auto simp: no_panic dest!: pr_read_expect intro!: parser_inv_push intro: parser_inv_read parser_inv_read_start instr_ok_mono)

lemma cmd_require_inv: "parser_inv p \<Longrightarrow> keeps_inv (cmd_require t p)"
  by (auto simp: cmd_require_def no_panic intro!: keeps_inv_then keeps_inv_expect
      dest!: pr_read_raw intro: parser_inv_read parser_inv_read_start add_capabilities_inv)

lemma cmd_fileinto_inv: "parser_inv p \<Longrightarrow> keeps_inv (cmd_fileinto t p)"
  unfolding cmd_fileinto_def Let_def
  by (auto simp: no_panic pr_read_capabilities intro!: keeps_inv_then parser_inv_push
      dest!: need_capability_Inr pr_read_string pr_read_expect)
    (blast intro: parser_inv_read parser_inv_read_start)+

lemma cmd_redirect_inv: "parser_inv p \<Longrightarrow> keeps_inv (cmd_redirect p)"
  unfolding cmd_redirect_def
  by (auto simp: no_panic intro!: keeps_inv_then parser_inv_push
      dest!: pr_read_string pr_read_expect)
    (blast intro: parser_inv_read parser_inv_read_start)+

lemma cmd_flags_inv:
  assumes "parser_inv p" and mk: "\<And>fs. jump_target (mk fs) = None"
    "\<And>fs caps. ''imap4flags'' \<in> set caps \<Longrightarrow> instr_ok caps (mk fs)"
  shows "keeps_inv (cmd_flags mk t p)"
  unfolding cmd_flags_def Let_def using assms
  by (auto simp: no_panic pr_read_capabilities intro!: keeps_inv_then parser_inv_push
      dest!: need_capability_Inr pr_read_list pr_read_expect)
    (blast intro: parser_inv_read parser_inv_read_start)+

lemma cmd_if_inv:
  assumes "parser_inv p"
  shows "keeps_inv (cmd_if t p)"
proof (cases "max_nested_blocks (pr_limits (start_commands p)) \<le> length (pr_blocks (start_commands p))")
  case True
  then show ?thesis by (simp add: cmd_if_def)
next
  case False
  let ?p0 = "start_commands p"
  have inv0: "parser_inv ?p0" using assms by simp
  show ?thesis
  proof (cases "parse_test_expr False 0 ?p0")
    case (Inl f)
    with parse_test_emits(1) [of False 0 ?p0] False show ?thesis by (auto simp: cmd_if_def Let_def)
  next
    case (Inr p1)
    note f = conjunct1 [OF parse_test_expr_fwd [OF Inr]]
    let ?n = "length (pr_instructions p1)"
    let ?b = "\<lparr>jz_at = Some ?n, chain_jmps = []\<rparr>"
    let ?p3 = "(push_instruction (Jz usize_max) p1)\<lparr>pr_blocks := pr_blocks p1 @ [?b]\<rparr>"
    have "parser_inv p1"
      using inv0 f parse_test_emits(1) [of False 0 ?p0] Inr by (blast intro: parser_inv_fwd)
    then have k: "pending (insert ?n (blocks_ix p1)) (push_instruction (Jz usize_max) p1)"
      by (simp add: parser_inv_def pending_push_jump)
    have "insert ?n (blocks_ix p1) = blocks_ix ?p3" by (auto simp: blocks_ix_def block_ix_def)
    moreover have "length (pr_blocks ?p3) \<le> max_nested_blocks (pr_limits ?p3)"
      using False f by (simp add: pr_fwd_def push_instruction_def)
    ultimately have "parser_inv ?p3" using k by (simp add: parser_inv_def)
    moreover have "cmd_if t p = pr_expect LBrace (ticked ''{'') ?p3"
      using False Inr by (simp add: cmd_if_def Let_def push_instruction_def)
    ultimately show ?thesis by (simp add: keeps_inv_expect)
  qed
qed

lemma command_inv: "parser_inv p \<Longrightarrow> keeps_inv (command word t p)"
  unfolding command_def
  by (simp add: cmd_require_inv cmd_if_inv cmd_fileinto_inv cmd_redirect_inv simple_command_inv
      cmd_flags_inv)

lemma blocks_split:
  assumes "pr_blocks p \<noteq> []"
  shows "blocks_ix p = blocks_ix (p\<lparr>pr_blocks := butlast (pr_blocks p)\<rparr>) \<union> block_ix (last (pr_blocks p))"
proof -
  obtain bs b where "pr_blocks p = bs @ [b]" using assms by (cases "pr_blocks p" rule: rev_cases) auto
  then show ?thesis by (simp add: blocks_ix_def Un_commute)
qed

lemma end_block_inv:
  assumes "pending (blocks_ix p \<union> block_ix b) p" "length (pr_blocks p) \<le> max_nested_blocks (pr_limits p)"
  shows "keeps_inv (end_block b p)"
proof -
  let ?n = "length (pr_instructions p)"
  have "\<exists>q. (case jz_at b of None \<Rightarrow> Inr p | Some jz \<Rightarrow> patch jz ?n p) = Inr q \<and>
      pending (blocks_ix p \<union> set (chain_jmps b)) q \<and> pr_blocks q = pr_blocks p \<and> length (pr_instructions q) = ?n"
  proof (cases "jz_at b")
    case None
    with assms show ?thesis by (simp add: block_ix_def)
  next
    case (Some jz)
    with assms have "jz \<in> jump_ix (pr_instructions p)" by (auto simp: pending_def block_ix_def)
    from patch_defined [OF this, of ?n] obtain q where q: "patch jz ?n p = Inr q" by blast
    from pending_patch [OF assms(1) q, of "blocks_ix p \<union> set (chain_jmps b)"] patch_result [OF q refl] Some q
    show ?thesis by (auto simp: block_ix_def)
  qed
  then obtain q where q: "(case jz_at b of None \<Rightarrow> Inr p | Some jz \<Rightarrow> patch jz ?n p) = Inr q"
    "pending (blocks_ix p \<union> set (chain_jmps b)) q" "pr_blocks q = pr_blocks p" "length (pr_instructions q) = ?n"
    by blast
  from pending_patch_all [OF q(2), of "chain_jmps b" "blocks_ix p"] q(4) obtain p' where
    p': "patch_all (chain_jmps b) ?n q = Inr p'" "pending (blocks_ix p) p'" "pr_blocks p' = pr_blocks q" by auto
  have e: "end_block b p = Inr p'" using q(1) p'(1) by (simp add: end_block_def Let_def)
  from end_block_ahead [OF e] have "pr_limits p' = pr_limits p" by (simp add: pr_ahead_def)
  with assms(2) e p' q(3) show ?thesis by (simp add: parser_inv_def blocks_ix_def)
qed

lemma continue_block_inv:
  assumes "pending (blocks_ix p \<union> block_ix b) p" "length (pr_blocks p) < max_nested_blocks (pr_limits p)"
  shows "keeps_inv (continue_block e b p)"
proof (cases "jz_at b")
  case None
  then show ?thesis by (simp add: continue_block_def)
next
  case (Some jz)
  let ?p0 = "snd (pr_advance p)"
  let ?p1 = "push_instruction (Jmp usize_max) ?p0" and ?n = "length (pr_instructions ?p0)"
  let ?K = "blocks_ix p \<union> set (chain_jmps b @ [?n])"
  have r0: "pr_read p ?p0" by (rule pr_read_skip)
  have k1: "pending (insert ?n (blocks_ix p \<union> block_ix b)) ?p1"
    using pending_push_jump [OF pending_read [OF assms(1) r0]] by simp
  then have "jz \<in> jump_ix (pr_instructions ?p1)" using Some by (auto simp: pending_def block_ix_def)
  from patch_defined [OF this, of "length (pr_instructions ?p1)"] obtain p2 where
    p2: "patch jz (length (pr_instructions ?p1)) ?p1 = Inr p2" by blast
  have k2: "pending ?K p2"
    using pending_patch [OF k1 p2, of ?K] Some by (auto simp: block_ix_def)
  have b2: "pr_blocks p2 = pr_blocks p" "pr_limits p2 = pr_limits p"
    using patch_result(3) [OF p2 refl] patch_fwd [OF p2] r0
    by (auto simp: push_instruction_def pr_read_def pr_fwd_def)
  let ?chain = "chain_jmps b @ [?n]"
  have done_else: "parser_inv (p2\<lparr>pr_blocks := pr_blocks p2 @ [\<lparr>jz_at = None, chain_jmps = ?chain\<rparr>]\<rparr>)"
    using k2 b2 assms(2) by (auto simp: parser_inv_def blocks_ix_def block_ix_def Un_commute)
  have e: "continue_block e b p =
      and_then (if e then
                   and_then (parse_test_expr False 0 p2) (\<lambda>p3.
                     let p4 = push_instruction (Jz usize_max) p3
                     in Inr (\<lparr>jz_at = Some (length (pr_instructions p4) - 1), chain_jmps = ?chain\<rparr>, p4))
                 else Inr (\<lparr>jz_at = None, chain_jmps = ?chain\<rparr>, p2))
                (\<lambda>(block', p5).
                   pr_expect LBrace (ticked ''{'') (p5\<lparr>pr_blocks := pr_blocks p5 @ [block']\<rparr>))"
    using Some p2 by (simp add: continue_block_def Let_def push_instruction_def)
  show ?thesis
  proof (cases e)
    case False
    with done_else show ?thesis unfolding e by (simp add: keeps_inv_expect)
  next
    case True
    show ?thesis
    proof (cases "parse_test_expr False 0 p2")
      case (Inl f)
      with parse_test_emits(1) [of False 0 p2] True show ?thesis unfolding e by auto
    next
      case (Inr p3)
      let ?m = "length (pr_instructions p3)" and ?p4 = "push_instruction (Jz usize_max) p3"
      let ?p6 = "?p4\<lparr>pr_blocks := pr_blocks p3 @ [\<lparr>jz_at = Some ?m, chain_jmps = ?chain\<rparr>]\<rparr>"
      have b3: "pr_blocks p3 = pr_blocks p" "pr_limits p3 = pr_limits p"
        using conjunct1 [OF parse_test_expr_fwd [OF Inr]] b2 by (auto simp: pr_fwd_def)
      have "pending ?K p3"
        using k2 parse_test_emits(1) [of False 0 p2] Inr by (blast intro: pending_emits_none)
      then have "pending (insert ?m ?K) ?p4" by (simp add: pending_push_jump)
      moreover have "insert ?m ?K = blocks_ix ?p6"
        using b3(1) by (auto simp: blocks_ix_def block_ix_def)
      ultimately have "parser_inv ?p6"
        using b3 assms(2) by (simp add: parser_inv_def) (simp add: push_instruction_def)
      then have "keeps_inv (pr_expect LBrace (ticked ''{'') ?p6)" by (rule keeps_inv_expect)
      with True Inr show ?thesis unfolding e by (simp add: Let_def push_instruction_def)
    qed
  qed
qed

lemma close_block_inv:
  assumes "parser_inv p"
  shows "keeps_inv (close_block t p)"
proof (cases "pr_blocks p = []")
  case True
  then show ?thesis by (simp add: close_block_def)
next
  case False
  let ?p0 = "p\<lparr>pr_blocks := butlast (pr_blocks p)\<rparr>" and ?b = "last (pr_blocks p)"
  from assms False have k: "pending (blocks_ix ?p0 \<union> block_ix ?b) ?p0"
    by (simp add: parser_inv_def blocks_split)
  have l: "length (pr_blocks ?p0) < max_nested_blocks (pr_limits ?p0)"
    using assms False by (cases "pr_blocks p" rule: rev_cases) (auto simp: parser_inv_def)
  show ?thesis
    using end_block_inv [OF k] continue_block_inv [OF k l] l False
    by (auto simp: close_block_def Let_def split: option.splits)
qed

lemma parser_step_inv: "parser_inv p \<Longrightarrow> keeps_inv (parser_step t p)"
  by (auto simp: parser_step_def command_inv close_block_inv split: tok.splits)

lemma parser_run_inv:
  "parser_inv p \<Longrightarrow> keeps_inv (parser_run p) \<and> (\<forall>p'. parser_run p = Inr p' \<longrightarrow> pr_blocks p' = [])"
proof (induction p rule: parser_run.induct)
  case (1 p)
  obtain x p1 where a: "pr_advance p = (x, p1)" by (cases "pr_advance p")
  have i1: "parser_inv p1" using pr_read_advance [OF a] "1.prems" by (rule parser_inv_read)
  show ?case
  proof (cases x)
    case None
    with a i1 show ?thesis by (simp add: parser_run.simps [of p])
  next
    case (Some t)
    show ?thesis
    proof (cases "parser_step t p1")
      case (Inl f)
      with parser_step_inv [OF i1, of t] a Some show ?thesis by (simp add: parser_run.simps [of p])
    next
      case (Inr p2)
      with parser_step_inv [OF i1, of t] have "parser_inv p2" by simp
      from "1.IH" [OF a [symmetric] Some Inr this] a Some Inr show ?thesis
        by (simp add: parser_run.simps [of p])
    qed
  qed
qed

section \<open>Properties of compiled scripts\<close>

lemma tokenize_no_panic: "tokenize s lim \<noteq> Inl Panic"
  using tokenize_loop_err [OF lx_wf_new] by (fastforce simp: tokenize_def)

lemma grammar_compile_result:
  assumes "grammar_compile ts lim = Inr (is, caps)"
  shows "open_jumps is = {}" "list_all (instr_ok caps) is"
proof -
  from assms obtain p where p: "parser_run (parser_new ts lim) = Inr p" "is = pr_instructions p"
    "caps = pr_capabilities p" unfolding grammar_compile_def by (auto elim!: and_then_InrE)
  from parser_run_inv [OF parser_inv_new, of ts lim] p(1) have "parser_inv p" "pr_blocks p = []" by auto
  with p show "open_jumps is = {}" "list_all (instr_ok caps) is"
    by (simp_all add: parser_inv_def pending_def blocks_ix_def code_ok_def)
qed

lemma compile_Inr:
  assumes "compile lim source = Inr s"
  obtains ts where "tokenize source lim = Inr ts" "length source \<le> max_script_size lim"
    "grammar_compile ts lim = Inr (instructions s, capabilities s)"
  using assms unfolding compile_def by (auto split: if_splits elim!: and_then_InrE)

lemmas grammar_eval = compile_def grammar_compile_def parser_run.simps parser_new_def pr_advance_def
  parser_step_def command_def cmd_if_def cmd_fileinto_def cmd_require_def simple_command_def
  start_commands_def parse_test_expr.simps parse_leaf_def push_instruction_def pr_expect_def pr_peek_def
  close_block_def continuation_def end_block_def patch_def get_at_def known_capability_def
  has_capability_def need_capability_def parse_string_def pr_decode_def parse_raw_string_list_def

lemma compile_if_false:
  "compile default_compiler_limits ''if false{stop;}'' =
     Inr \<lparr>instructions = [Test (Bool False), Jz 3, Stop], capabilities = []\<rparr>"
  by (simp add: grammar_eval lexer_eval default_compiler_limits_def)


text \<open>C7. In a compiled script every jump is resolved and goes strictly forward, at most to the
  end of the script: no placeholder is left and no script loops.\<close>

theorem compile_jumps_forward:
  assumes "compile lim source = Inr s" "i < length (instructions s)"
    "jump_target (instructions s ! i) = Some t"
  shows "i < t \<and> t \<le> length (instructions s)"
proof -
  from assms(1) obtain ts where "grammar_compile ts lim = Inr (instructions s, capabilities s)"
    by (rule compile_Inr)
  from grammar_compile_result(1) [OF this] assms(2,3) show ?thesis by (auto simp: open_jumps_def)
qed

theorem compile_jumps_forward_witness:
  "compile default_compiler_limits ''if false{stop;}'' =
     Inr \<lparr>instructions = [Test (Bool False), Jz 3, Stop], capabilities = []\<rparr>
   \<and> (1::nat) < 3 \<and> 3 \<le> length [Test (Bool False), Jz 3, Stop]"
  using compile_jumps_forward [OF compile_if_false, of 1 3] compile_if_false by simp

text \<open>C20. A compiled script uses only what it required: \<open>fileinto\<close>, the flag commands, envelope
  tests and the octet comparator appear only under their capability, and header tests name valid
  header fields only.\<close>

theorem compile_capabilities:
  assumes "compile lim source = Inr s"
  shows "list_all (instr_ok (capabilities s)) (instructions s)"
proof -
  from assms(1) obtain ts where "grammar_compile ts lim = Inr (instructions s, capabilities s)"
    by (rule compile_Inr)
  then show ?thesis by (rule grammar_compile_result(2))
qed

theorem compile_capabilities_witness:
  "compile default_compiler_limits ''if false{stop;}'' =
     Inr \<lparr>instructions = [Test (Bool False), Jz 3, Stop], capabilities = []\<rparr>
   \<and> list_all (instr_ok []) [Test (Bool False), Jz 3, Stop]"
  using compile_capabilities [OF compile_if_false] compile_if_false by simp

end
