(* ===== verification/Sieve_Match.thy ===== *)
theory Sieve_Match
  imports Sieve_Types
begin

text \<open>
  \<open>crates/sieve/src/matching.rs\<close>: the three match types, and the two-pointer glob matcher
  with a single backtrack point. The matcher is a loop over four cursors that is not
  structurally terminating, so it is a partial function into \<open>option\<close>; the theorems show
  that it always returns, and that it returns what the obvious recursive matcher returns.
\<close>

section \<open>Glob patterns\<close>

datatype pat = Many | Single | Char nat

fun compile_glob_loop :: "pat list \<Rightarrow> nat list \<Rightarrow> pat list" where
  "compile_glob_loop compiled [] = compiled"
| "compile_glob_loop compiled (ch # chars) =
     (if ch = byte_val CHR ''*'' then
        compile_glob_loop
          (if compiled \<noteq> [] \<and> last compiled = Many then compiled else compiled @ [Many]) chars
      else if ch = byte_val CHR ''?'' then compile_glob_loop (compiled @ [Single]) chars
      else if ch = byte_val CHR 0x5C then
        (case chars of
           [] \<Rightarrow> compiled @ [Char (byte_val CHR 0x5C)]
         | c # cs \<Rightarrow> compile_glob_loop (compiled @ [Char c]) cs)
      else compile_glob_loop (compiled @ [Char ch]) chars)"

definition compile_glob :: "bytes \<Rightarrow> pat list" where
  "compile_glob pattern = compile_glob_loop [] (str_chars pattern)"

text \<open>
  One turn of the loop consumes a character, opens a backtrack point at a \<open>Many\<close>, or falls
  back to the last one; the result is \<open>None\<close> only if the loop does not end.
\<close>

partial_function (option) glob_loop ::
  "pat list \<Rightarrow> nat list \<Rightarrow> nat \<Rightarrow> nat \<Rightarrow> nat \<Rightarrow> nat \<Rightarrow> bool option" where
  "glob_loop pattern value px nx next_px next_nx =
     (if px < length pattern \<or> nx < length value then
        if px < length pattern \<and> nx < length value \<and> pattern ! px = Char (value ! nx) then
          glob_loop pattern value (px + 1) (nx + 1) next_px next_nx
        else if px < length pattern \<and> nx < length value \<and> pattern ! px = Single then
          glob_loop pattern value (px + 1) (nx + 1) next_px next_nx
        else if px < length pattern \<and> pattern ! px = Many then
          glob_loop pattern value (px + 1) nx px (nx + 1)
        else if 0 < next_nx \<and> next_nx \<le> length value then
          glob_loop pattern value next_px next_nx next_px next_nx
        else Some False
      else Some True)"

definition glob_matches :: "bytes \<Rightarrow> bytes \<Rightarrow> bool" where
  "glob_matches pattern value =
     (case glob_loop (compile_glob pattern) (str_chars value) 0 0 0 0 of
        None \<Rightarrow> False
      | Some b \<Rightarrow> b)"

section \<open>Values\<close>

fun value_matches :: "match_type \<Rightarrow> comparator \<Rightarrow> bytes \<Rightarrow> bytes \<Rightarrow> bool" where
  "value_matches Is Octet key value = (value = key)"
| "value_matches Is AsciiCaseMap key value = eq_ignore_ascii_case value key"
| "value_matches Contains c key value =
     (if key = [] then True
      else case c of
        Octet \<Rightarrow> str_contains value key
      | AsciiCaseMap \<Rightarrow> str_contains (to_ascii_lowercase value) (to_ascii_lowercase key))"
| "value_matches Matches Octet key value = glob_matches key value"
| "value_matches Matches AsciiCaseMap key value =
     glob_matches (to_ascii_lowercase key) (to_ascii_lowercase value)"

section \<open>The reference matcher\<close>

fun glob_spec :: "pat list \<Rightarrow> nat list \<Rightarrow> bool" where
  "glob_spec [] v = (v = [])"
| "glob_spec (Many # p) v =
     (glob_spec p v \<or> (case v of [] \<Rightarrow> False | _ # v' \<Rightarrow> glob_spec (Many # p) v'))"
| "glob_spec (Single # p) v = (case v of [] \<Rightarrow> False | _ # v' \<Rightarrow> glob_spec p v')"
| "glob_spec (Char c # p) v = (case v of [] \<Rightarrow> False | x # v' \<Rightarrow> x = c \<and> glob_spec p v')"

lemma glob_spec_Many: "glob_spec (Many # p) v \<longleftrightarrow> (\<exists>k \<le> length v. glob_spec p (drop k v))"
proof (induction v)
  case Nil
  then show ?case by simp
next
  case (Cons x v)
  have "(\<exists>k \<le> length (x # v). glob_spec p (drop k (x # v))) \<longleftrightarrow>
        glob_spec p (x # v) \<or> (\<exists>k \<le> length v. glob_spec p (drop k v))" (is "?l \<longleftrightarrow> ?r")
  proof
    assume ?l
    then obtain k where k: "k \<le> length (x # v)" "glob_spec p (drop k (x # v))" by blast
    then show ?r by (cases k) auto
  next
    assume ?r
    then show ?l
    proof
      assume "glob_spec p (x # v)"
      then show ?l by (intro exI [of _ 0]) simp
    next
      assume "\<exists>k \<le> length v. glob_spec p (drop k v)"
      then obtain k where "k \<le> length v" "glob_spec p (drop k v)" by blast
      then show ?l by (intro exI [of _ "Suc k"]) simp
    qed
  qed
  with Cons show ?case by simp
qed

declare glob_spec.simps(2) [simp del]

lemma glob_spec_Many_mono:
  assumes "glob_spec (Many # p) (drop j v)" "i \<le> j" "j \<le> length v"
  shows "glob_spec (Many # p) (drop i v)"
proof -
  from assms(1) obtain k where k: "k \<le> length v - j" "glob_spec p (drop k (drop j v))"
    by (auto simp: glob_spec_Many)
  have "drop (k + (j - i)) (drop i v) = drop k (drop j v)"
    using assms(2) by (simp add: add.commute)
  with k assms show ?thesis
    by (auto simp: glob_spec_Many intro!: exI [of _ "k + (j - i)"])
qed

text \<open>A star-free segment consumes exactly its own length.\<close>

lemma glob_spec_segment:
  assumes "Many \<notin> set seg" "glob_spec (seg @ p) v"
  shows "length seg \<le> length v \<and> glob_spec p (drop (length seg) v)"
  using assms
proof (induction seg arbitrary: v)
  case Nil
  then show ?case by simp
next
  case (Cons a seg)
  then show ?case by (cases a) (auto split: list.splits)
qed

text \<open>Reading a pattern character by character, without collapsing adjacent stars.\<close>

fun glob_tokens :: "nat list \<Rightarrow> pat list" where
  "glob_tokens [] = []"
| "glob_tokens (ch # chars) =
     (if ch = byte_val CHR ''*'' then Many # glob_tokens chars
      else if ch = byte_val CHR ''?'' then Single # glob_tokens chars
      else if ch = byte_val CHR 0x5C then
        (case chars of [] \<Rightarrow> [Char (byte_val CHR 0x5C)] | c # cs \<Rightarrow> Char c # glob_tokens cs)
      else Char ch # glob_tokens chars)"

lemma glob_spec_append_cong:
  assumes "\<And>v. glob_spec p v = glob_spec q v"
  shows "glob_spec (xs @ p) v = glob_spec (xs @ q) v"
proof (induction xs arbitrary: v)
  case Nil
  show ?case by (simp add: assms)
next
  case (Cons a xs)
  then show ?case by (cases a) (auto simp: glob_spec_Many split: list.splits)
qed

lemma glob_spec_Many_Many: "glob_spec (Many # Many # p) v = glob_spec (Many # p) v"
proof
  assume "glob_spec (Many # Many # p) v"
  then obtain k where "k \<le> length v" "glob_spec (Many # p) (drop k v)"
    by (auto simp: glob_spec_Many [of "Many # p"])
  then show "glob_spec (Many # p) v"
    using glob_spec_Many_mono [of p k v 0] by simp
next
  assume "glob_spec (Many # p) v"
  then show "glob_spec (Many # Many # p) v"
    by (auto simp: glob_spec_Many [of "Many # p"] intro!: exI [of _ 0])
qed

lemma compile_glob_loop_spec:
  "glob_spec (compile_glob_loop compiled cs) v = glob_spec (compiled @ glob_tokens cs) v"
proof (induction compiled cs arbitrary: v rule: compile_glob_loop.induct)
  case (1 compiled)
  then show ?case by simp
next
  case (2 compiled ch chars)
  note IH = "2.IH"
  consider (star) "ch = 42" "compiled \<noteq> [] \<and> last compiled = Many"
    | (star1) "ch = 42" "\<not> (compiled \<noteq> [] \<and> last compiled = Many)"
    | (one) "ch = 63" | (quote) "ch = 92" | (other) "ch \<noteq> 42" "ch \<noteq> 63" "ch \<noteq> 92"
    by blast
  then show ?case
  proof cases
    case star
    then obtain xs where xs: "compiled = xs @ [Many]" by (metis append_butlast_last_id)
    have "glob_spec (xs @ Many # Many # glob_tokens chars) v
            = glob_spec (xs @ Many # glob_tokens chars) v"
      by (rule glob_spec_append_cong) (rule glob_spec_Many_Many)
    with star xs IH(1) [of v] show ?thesis by simp
  next
    case star1
    have "glob_spec (compile_glob_loop (compiled @ [Many]) chars) v
            = glob_spec ((compiled @ [Many]) @ glob_tokens chars) v"
      using IH(1) [of v] star1 by simp
    with star1 show ?thesis by auto
  next
    case one
    with IH(2) [of v] show ?thesis by simp
  next
    case quote
    with IH(3) [of _ _ v] show ?thesis by (cases chars) simp_all
  next
    case other
    with IH(4) [of v] show ?thesis by simp
  qed
qed

section \<open>The loop and the reference matcher agree\<close>

text \<open>
  The invariant of the loop. Once a backtrack point exists, it sits on a \<open>Many\<close>, and the
  cursors are either back at it or past it by a star-free segment that has been matched.
\<close>

definition glob_inv :: "pat list \<Rightarrow> nat list \<Rightarrow> nat \<Rightarrow> nat \<Rightarrow> nat \<Rightarrow> nat \<Rightarrow> bool" where
  "glob_inv P V px nx npx nnx \<longleftrightarrow>
     px \<le> length P \<and> nx \<le> length V \<and>
     (0 < nnx \<longrightarrow>
        npx < length P \<and> P ! npx = Many \<and>
        (px = npx \<and> nx = nnx \<or>
         npx < px \<and> (\<forall>i. npx < i \<longrightarrow> i < px \<longrightarrow> P ! i \<noteq> Many) \<and> nx + npx + 2 = nnx + px))"

definition glob_answer :: "pat list \<Rightarrow> nat list \<Rightarrow> nat \<Rightarrow> nat \<Rightarrow> nat \<Rightarrow> nat \<Rightarrow> bool" where
  "glob_answer P V px nx npx nnx \<longleftrightarrow>
     glob_spec (drop px P) (drop nx V) \<or>
     (0 < nnx \<and> nnx \<le> length V \<and> glob_spec (drop npx P) (drop nnx V))"

definition glob_measure :: "nat list \<Rightarrow> nat \<Rightarrow> nat \<Rightarrow> nat \<Rightarrow> nat \<Rightarrow> nat" where
  "glob_measure V px nx npx nnx =
     2 * (length V + 1 - nnx) - (if 0 < nnx \<and> px = npx \<and> nx = nnx then 1 else 0)"

lemma glob_inv_match:
  assumes "glob_inv P V px nx npx nnx" "px < length P" "nx < length V" "P ! px \<noteq> Many"
  shows "glob_inv P V (px + 1) (nx + 1) npx nnx"
proof (cases "0 < nnx")
  case True
  with assms have np: "npx < length P" "P ! npx = Many" "npx < px"
    "\<forall>i. npx < i \<longrightarrow> i < px \<longrightarrow> P ! i \<noteq> Many" "nx + npx + 2 = nnx + px"
    by (auto simp: glob_inv_def)
  have "\<forall>i. npx < i \<longrightarrow> i < px + 1 \<longrightarrow> P ! i \<noteq> Many"
    using np(4) assms(4) by (auto simp: less_Suc_eq)
  with np assms(2,3) show ?thesis by (simp add: glob_inv_def)
next
  case False
  with assms show ?thesis by (simp add: glob_inv_def)
qed

lemma glob_inv_many:
  "glob_inv P V px nx npx nnx \<Longrightarrow> px < length P \<Longrightarrow> P ! px = Many \<Longrightarrow>
     glob_inv P V (px + 1) nx px (nx + 1)"
  by (simp add: glob_inv_def)

lemma glob_inv_back:
  "glob_inv P V px nx npx nnx \<Longrightarrow> 0 < nnx \<Longrightarrow> nnx \<le> length V \<Longrightarrow>
     glob_inv P V npx nnx npx nnx"
  by (auto simp: glob_inv_def)

text \<open>Opening a new backtrack point loses no match that the old one could still reach.\<close>

lemma glob_answer_many:
  assumes inv: "glob_inv P V px nx npx nnx" and px: "px < length P" "P ! px = Many"
  shows "glob_answer P V px nx npx nnx \<longleftrightarrow> glob_answer P V (px + 1) nx px (nx + 1)"
proof -
  let ?rest = "drop (px + 1) P"
  have dp: "drop px P = Many # ?rest"
    using px by (metis Cons_nth_drop_Suc Suc_eq_plus1)
  have nx: "nx \<le> length V" using inv by (simp add: glob_inv_def)
  have new: "glob_answer P V (px + 1) nx px (nx + 1) \<longleftrightarrow> glob_spec (Many # ?rest) (drop nx V)"
  proof (cases "nx < length V")
    case True
    then have "drop nx V = V ! nx # drop (nx + 1) V"
      by (metis Cons_nth_drop_Suc Suc_eq_plus1)
    with True dp show ?thesis by (simp add: glob_answer_def glob_spec.simps(2))
  next
    case False
    with nx dp show ?thesis by (simp add: glob_answer_def glob_spec.simps(2))
  qed
  have "glob_spec (Many # ?rest) (drop nx V)"
    if b: "0 < nnx" "nnx \<le> length V" "glob_spec (drop npx P) (drop nnx V)"
  proof (cases "px = npx \<and> nx = nnx")
    case True
    with b dp show ?thesis by simp
  next
    case False
    with inv b(1) have np: "npx < px" "npx < length P" "P ! npx = Many"
      "\<forall>i. npx < i \<longrightarrow> i < px \<longrightarrow> P ! i \<noteq> Many" "nx + npx + 2 = nnx + px"
      by (auto simp: glob_inv_def)
    define seg where "seg = take (px - npx - 1) (drop (npx + 1) P)"
    have "drop (npx + 1) P = seg @ drop px P"
    proof -
      have "drop (px - npx - 1) (drop (npx + 1) P) = drop px P" using np(1) by simp
      then show ?thesis unfolding seg_def by (metis append_take_drop_id)
    qed
    then have dn: "drop npx P = Many # seg @ Many # ?rest"
      using np(2,3) dp by (metis Cons_nth_drop_Suc Suc_eq_plus1)
    have len: "length seg = px - npx - 1"
      using np px by (simp add: seg_def)
    have star: "Many \<notin> set seg"
    proof
      assume "Many \<in> set seg"
      then obtain i where i: "i < length seg" "seg ! i = Many" by (auto simp: in_set_conv_nth)
      with len have "P ! (npx + 1 + i) = Many" by (simp add: seg_def)
      with np(4) i(1) len show False by auto
    qed
    from b(3) dn obtain k where k: "k \<le> length V - nnx"
      "glob_spec (seg @ Many # ?rest) (drop k (drop nnx V))"
      by (auto simp: glob_spec_Many)
    from glob_spec_segment [OF star k(2)] have
      s: "length seg \<le> length (drop k (drop nnx V))"
      "glob_spec (Many # ?rest) (drop (length seg + (k + nnx)) V)"
      by (simp_all add: add.commute)
    have "nx \<le> length seg + (k + nnx)" using np len by linarith
    moreover have "length seg + (k + nnx) \<le> length V" using s(1) k(1) b(2) by simp
    ultimately show ?thesis using s(2) by (rule glob_spec_Many_mono [rotated])
  qed
  with new dp show ?thesis by (auto simp: glob_answer_def)
qed

lemma glob_answer_match:
  assumes "px < length P" "nx < length V" "P ! px = Char (V ! nx) \<or> P ! px = Single"
  shows "glob_answer P V px nx npx nnx \<longleftrightarrow> glob_answer P V (px + 1) (nx + 1) npx nnx"
proof -
  have "drop px P = P ! px # drop (px + 1) P" "drop nx V = V ! nx # drop (nx + 1) V"
    using assms(1,2) by (metis Cons_nth_drop_Suc Suc_eq_plus1)+
  with assms(3) show ?thesis by (auto simp: glob_answer_def)
qed

lemma glob_spec_mismatch:
  assumes "px < length P \<or> nx < length V" "px \<le> length P" "nx \<le> length V"
    and "\<not> (px < length P \<and> nx < length V \<and> P ! px = Char (V ! nx))"
    and "\<not> (px < length P \<and> nx < length V \<and> P ! px = Single)"
    and "\<not> (px < length P \<and> P ! px = Many)"
  shows "\<not> glob_spec (drop px P) (drop nx V)"
proof (cases "px < length P")
  case True
  then have dp: "drop px P = P ! px # drop (px + 1) P"
    by (metis Cons_nth_drop_Suc Suc_eq_plus1)
  show ?thesis
  proof (cases "nx < length V")
    case v: True
    then have "drop nx V = V ! nx # drop (nx + 1) V"
      by (metis Cons_nth_drop_Suc Suc_eq_plus1)
    with True v dp assms show ?thesis by (cases "P ! px") auto
  next
    case False
    with True dp assms show ?thesis by (cases "P ! px") auto
  qed
next
  case False
  with assms(1-3) show ?thesis by simp
qed

lemma glob_loop_correct:
  "glob_inv P V px nx npx nnx \<Longrightarrow>
     glob_loop P V px nx npx nnx = Some (glob_answer P V px nx npx nnx)"
proof (induction "(glob_measure V px nx npx nnx, length P - px)"
    arbitrary: px nx npx nnx rule: wf_induct_rule [OF wf_lex_prod [OF wf_less_than wf_less_than]])
  case (1 px nx npx nnx)
  note inv = "1.prems"
  have bounds: "px \<le> length P" "nx \<le> length V" using inv by (simp_all add: glob_inv_def)
  let ?more = "px < length P \<or> nx < length V"
  let ?char = "px < length P \<and> nx < length V \<and> P ! px = Char (V ! nx)"
  let ?single = "px < length P \<and> nx < length V \<and> P ! px = Single"
  let ?many = "px < length P \<and> P ! px = Many"
  let ?again = "0 < nnx \<and> nnx \<le> length V"
  consider (ended) "\<not> ?more" | (match) "?char \<or> ?single" | (many) "?many"
    | (retreat) "?more" "\<not> ?char" "\<not> ?single" "\<not> ?many" "?again"
    | (fail) "?more" "\<not> ?char" "\<not> ?single" "\<not> ?many" "\<not> ?again"
    by blast
  then show ?case
  proof cases
    case ended
    with bounds show ?thesis by (subst glob_loop.simps) (simp add: glob_answer_def)
  next
    case match
    then have b: "px < length P" "nx < length V" and nm: "P ! px \<noteq> Many" by auto
    have "((glob_measure V (px + 1) (nx + 1) npx nnx, length P - (px + 1)),
           (glob_measure V px nx npx nnx, length P - px)) \<in> less_than <*lex*> less_than"
      using inv b nm by (auto simp: glob_measure_def glob_inv_def)
    from "1.hyps" [OF this glob_inv_match [OF inv b nm]] match glob_answer_match [OF b, of npx nnx]
    show ?thesis by (auto simp: glob_loop.simps [of P V px])
  next
    case many
    then have b: "px < length P" "P ! px = Many" by auto
    have "((glob_measure V (px + 1) nx px (nx + 1), length P - (px + 1)),
           (glob_measure V px nx npx nnx, length P - px)) \<in> less_than <*lex*> less_than"
      using inv b by (auto simp: glob_measure_def glob_inv_def)
    from "1.hyps" [OF this glob_inv_many [OF inv b]] b glob_answer_many [OF inv b]
    show ?thesis by (simp add: glob_loop.simps [of P V px])
  next
    case retreat
    then have at: "\<not> (px = npx \<and> nx = nnx)" using inv by (auto simp: glob_inv_def)
    then have "((glob_measure V npx nnx npx nnx, length P - npx),
           (glob_measure V px nx npx nnx, length P - px)) \<in> less_than <*lex*> less_than"
      using retreat by (auto simp: glob_measure_def)
    from "1.hyps" [OF this glob_inv_back [OF inv]] retreat
      glob_spec_mismatch [OF retreat(1) bounds retreat(2-4)]
    show ?thesis by (auto simp: glob_loop.simps [of P V px] glob_answer_def)
  next
    case fail
    with glob_spec_mismatch [OF fail(1) bounds fail(2-4)]
    show ?thesis by (auto simp: glob_loop.simps [of P V px] glob_answer_def)
  qed
qed

lemma glob_loop_spec: "glob_loop P V 0 0 0 0 = Some (glob_spec P V)"
  using glob_loop_correct [of P V 0 0 0 0] by (simp add: glob_inv_def glob_answer_def)

section \<open>Properties\<close>

text \<open>C5. The glob matcher of \<open>:matches\<close> always returns, and it accepts a value exactly when
  the pattern, read character by character (\<open>*\<close> any run, \<open>?\<close> one character, a backslash
  quoting the next character), matches the whole value: the single backtrack point and the
  collapsing of adjacent stars lose no match.\<close>

theorem glob_matches_correct:
  "glob_loop (compile_glob p) (str_chars v) 0 0 0 0 \<noteq> None
   \<and> (glob_matches p v \<longleftrightarrow> glob_spec (glob_tokens (str_chars p)) (str_chars v))"
  using compile_glob_loop_spec [of "[]"]
  by (simp add: glob_matches_def glob_loop_spec compile_glob_def)

end
