(* ===== verification/Sieve_Message.thy ===== *)
theory Sieve_Message
  imports Sieve_Types
begin

text \<open>
  \<open>crates/sieve/src/message.rs\<close>: the view of a message that the tests consult, and the
  normalisation of envelope addresses. The MIME parser (the \<open>mail_parser\<close> crate) is not part
  of the repository: it is the parameter \<open>mail_parse\<close>, a function from the raw bytes to the
  parsed headers.
\<close>

section \<open>Parsed headers\<close>

record addr =
  addr_name :: "bytes option"
  addr_address :: "bytes option"

datatype header_value = HText bytes | HTextList "bytes list" | HAddress "addr list" | HOther

record header =
  h_name :: bytes
  h_value :: header_value
  offset_start :: nat
  offset_end :: nat

type_synonym mail_parser = "bytes \<Rightarrow> header list option"

record message_view =
  raw :: bytes
  parsed :: "header list option"

definition message_view_new :: "mail_parser \<Rightarrow> bytes \<Rightarrow> message_view" where
  "message_view_new mail_parse r = \<lparr>raw = r, parsed = mail_parse r\<rparr>"

definition message_size :: "message_view \<Rightarrow> u64" where
  "message_size m = of_nat (length (raw m))"

definition headers_named :: "message_view \<Rightarrow> bytes \<Rightarrow> header list" where
  "headers_named m name =
     (case parsed m of None \<Rightarrow> []
      | Some hs \<Rightarrow> filter (\<lambda>h. eq_ignore_ascii_case (h_name h) name) hs)"

definition header_exists :: "message_view \<Rightarrow> bytes \<Rightarrow> bool" where
  "header_exists m name \<longleftrightarrow> headers_named m name \<noteq> []"

text \<open>\<open>self.raw.get(start..end)\<close> is \<open>None\<close> for a range that is not inside the slice.\<close>

definition raw_value :: "message_view \<Rightarrow> nat \<Rightarrow> nat \<Rightarrow> bytes" where
  "raw_value m start stop =
     (if start \<le> stop \<and> stop \<le> length (raw m)
      then trim (utf8_lossy (take (stop - start) (drop start (raw m)))) else [])"

fun join :: "bytes \<Rightarrow> bytes list \<Rightarrow> bytes" where
  "join sep [] = []"
| "join sep [x] = x"
| "join sep (x # xs) = x @ sep @ join sep xs"

fun render_addr :: "addr \<Rightarrow> bytes" where
  "render_addr a =
     (case (addr_name a, addr_address a) of
        (Some name, Some email) \<Rightarrow> name @ '' <'' @ email @ ''>''
      | (None, Some email) \<Rightarrow> email
      | (Some name, None) \<Rightarrow> name
      | (None, None) \<Rightarrow> [])"

definition header_values :: "message_view \<Rightarrow> bytes \<Rightarrow> bytes list" where
  "header_values m name =
     map (\<lambda>h. case h_value h of
            HText text \<Rightarrow> text
          | HTextList xs \<Rightarrow> join '', '' xs
          | HAddress address \<Rightarrow> join '', '' (map render_addr address)
          | HOther \<Rightarrow> raw_value m (offset_start h) (offset_end h))
       (headers_named m name)"

section \<open>Addresses\<close>

fun address_part :: "bytes \<Rightarrow> address_part \<Rightarrow> bytes" where
  "address_part address PartAll = address"
| "address_part address Localpart =
     (case rsplit_once ((=) CHR ''@'') address of Some (local, _) \<Rightarrow> local | None \<Rightarrow> address)"
| "address_part address Domain =
     (case rsplit_once ((=) CHR ''@'') address of Some (_, domain) \<Rightarrow> domain | None \<Rightarrow> [])"

definition header_addresses :: "message_view \<Rightarrow> bytes \<Rightarrow> address_part \<Rightarrow> bytes list" where
  "header_addresses m name part =
     concat (map (\<lambda>h. case h_value h of
            HAddress address \<Rightarrow>
              (let addresses =
                 map (\<lambda>a. address_part
                        (case addr_address a of Some e \<Rightarrow> e
                         | None \<Rightarrow> (case addr_name a of Some n \<Rightarrow> n | None \<Rightarrow> [])) part) address
               in if addresses = [] then [[]] else addresses)
          | _ \<Rightarrow> [[]])
       (headers_named m name))"

definition strip_suffix_byte :: "byte \<Rightarrow> bytes \<Rightarrow> bytes option" where
  "strip_suffix_byte c s = (if s \<noteq> [] \<and> last s = c then Some (butlast s) else None)"

text \<open>The last part of \<open>parse_envelope_address\<close>, after brackets and a source route are gone.\<close>

definition check_envelope_address :: "bytes \<Rightarrow> bytes option" where
  "check_envelope_address value =
     (if list_ex (\<lambda>b. is_ascii_whitespace b \<or> is_ascii_control b \<or> \<not> is_ascii b) value then None
      else case rsplit_once ((=) CHR ''@'') value of
        None \<Rightarrow>
          if eq_ignore_ascii_case value ''mailer-daemon'' then Some (to_ascii_lowercase value)
          else None
      | Some (local, domain) \<Rightarrow>
          if local = [] \<or> domain = [] \<or> CHR ''@'' \<in> set local \<or> str_contains domain ''..''
          then None else Some value)"

definition parse_envelope_address :: "bytes \<Rightarrow> bytes option" where
  "parse_envelope_address input =
     (let route = (\<lambda>value.
        if value = [] then Some []
        else if hd value = CHR ''@'' then
          (case split_once ((=) CHR '':'') value of
             None \<Rightarrow> None
           | Some (_, rest) \<Rightarrow> check_envelope_address rest)
        else check_envelope_address value)
      in case trim input of
           [] \<Rightarrow> route []
         | c # value \<Rightarrow>
             if c = CHR ''<'' then
               (case strip_suffix_byte CHR ''>'' value of
                  None \<Rightarrow> None
                | Some v \<Rightarrow> route (trim v))
             else route (c # value))"

section \<open>Properties\<close>

text \<open>What a normalised envelope address looks like.\<close>

definition clean_address :: "bytes \<Rightarrow> bool" where
  "clean_address a \<longleftrightarrow>
     a = [] \<or> a = ''mailer-daemon'' \<or>
     (\<exists>local domain. a = local @ CHR ''@'' # domain \<and> local \<noteq> [] \<and> domain \<noteq> []
        \<and> CHR ''@'' \<notin> set local \<and> CHR ''@'' \<notin> set domain \<and> \<not> sublist ''..'' domain
        \<and> (\<forall>b\<in>set a. is_ascii b \<and> \<not> is_ascii_whitespace b \<and> \<not> is_ascii_control b))"

lemma check_envelope_address_clean:
  assumes "check_envelope_address v = Some a"
  shows "clean_address a"
proof (cases "rsplit_once ((=) CHR ''@'') v")
  case None
  have "to_ascii_lowercase ''mailer-daemon'' = ''mailer-daemon''"
    by (simp add: rust_simps)
  with None assms show ?thesis
    by (auto simp: check_envelope_address_def clean_address_def eq_ignore_ascii_case_def
        split: if_splits)
next
  case (Some p)
  then obtain local domain where p: "rsplit_once ((=) CHR ''@'') v = Some (local, domain)"
    by (cases p) auto
  from rsplit_once_Some [OF p] have v: "v = local @ CHR ''@'' # domain"
    and d: "CHR ''@'' \<notin> set domain" by auto
  from assms p have "a = v" "local \<noteq> []" "domain \<noteq> []" "CHR ''@'' \<notin> set local"
    "\<not> sublist ''..'' domain"
    "\<forall>b\<in>set v. is_ascii b \<and> \<not> is_ascii_whitespace b \<and> \<not> is_ascii_control b"
    by (auto simp: check_envelope_address_def str_contains_sublist list_ex_iff split: if_splits)
  with v d show ?thesis unfolding clean_address_def by blast
qed



end
