(* ===== verification/Sieve_Runtime.thy ===== *)
theory Sieve_Runtime
  imports Sieve_Grammar_Props Sieve_Match Sieve_Message
begin

text \<open>
  \<open>crates/sieve/src/runtime.rs\<close>: the interpreter of compiled scripts. The local variables of
  \<open>run\<close> are the record \<open>run_state\<close>; the loop ends at the end of the script, at \<open>stop\<close>, or
  when the step budget \<open>limits.cpu\<close> is used up. The step counter is a \<open>u32\<close> that is compared
  with the budget right after each increment, so it never exceeds \<open>cpu + 1\<close>; it is a natural
  number here.
\<close>

section \<open>Tests\<close>

definition matches_any :: "match_type \<Rightarrow> comparator \<Rightarrow> bytes list \<Rightarrow> bytes \<Rightarrow> bool" where
  "matches_any mt cmp keys value \<longleftrightarrow> list_ex (\<lambda>key. value_matches mt cmp key value) keys"

fun eval_test :: "message_view \<Rightarrow> bytes option \<Rightarrow> bytes option \<Rightarrow> test \<Rightarrow> bool" where
  "eval_test m env_f env_t (Bool value) = value"
| "eval_test m env_f env_t (Header headers keys mt cmp is_not) =
     (list_ex (\<lambda>h. list_ex (matches_any mt cmp keys) (header_values m h)) headers \<noteq> is_not)"
| "eval_test m env_f env_t (Address headers keys part mt cmp is_not) =
     (list_ex (\<lambda>h. list_ex (matches_any mt cmp keys) (header_addresses m h part)) headers \<noteq> is_not)"
| "eval_test m env_f env_t (EnvelopeTest parts keys part mt cmp is_not) =
     (list_ex (\<lambda>ep. case (case ep of EnvFrom \<Rightarrow> env_f | EnvTo \<Rightarrow> env_t) of
          None \<Rightarrow> False
        | Some value \<Rightarrow> matches_any mt cmp keys (address_part value part)) parts \<noteq> is_not)"
| "eval_test m env_f env_t (Exists headers is_not) = (list_all (header_exists m) headers \<noteq> is_not)"
| "eval_test m env_f env_t (Size over limit is_not) =
     ((if over then limit < message_size m else message_size m < limit) \<noteq> is_not)"

section \<open>Actions\<close>

definition contains_ignoring_case :: "bytes list \<Rightarrow> bytes \<Rightarrow> bool" where
  "contains_ignoring_case xs x \<longleftrightarrow> list_ex (\<lambda>y. eq_ignore_ascii_case y x) xs"

fun add_flags :: "bytes list \<Rightarrow> bytes list \<Rightarrow> bytes list" where
  "add_flags fs [] = fs"
| "add_flags fs (flag # new_flags) =
     add_flags (if contains_ignoring_case fs flag then fs else fs @ [flag]) new_flags"

record run_state =
  rs_pos :: nat
  rs_steps :: nat
  test_result :: bool
  implicit_keep :: bool
  explicit_keep :: bool
  discard_requested :: bool
  rs_file_into :: "bytes list"
  rs_redirects :: "bytes list"
  rs_flags :: "bytes list"

definition run_init :: run_state where
  "run_init =
     \<lparr>rs_pos = 0, rs_steps = 0, test_result = False, implicit_keep = True, explicit_keep = False,
      discard_requested = False, rs_file_into = [], rs_redirects = [], rs_flags = []\<rparr>"

abbreviation next_pos :: "run_state \<Rightarrow> run_state" where
  "next_pos st \<equiv> st\<lparr>rs_pos := rs_pos st + 1\<rparr>"

text \<open>The arms of the loop's \<open>match\<close>; \<open>None\<close> is its \<open>break\<close>.\<close>

fun exec_instr :: "(test \<Rightarrow> bool) \<Rightarrow> limits \<Rightarrow> instruction \<Rightarrow> run_state \<Rightarrow> run_state option" where
  "exec_instr ev lim (Test t) st = Some (next_pos (st\<lparr>test_result := ev t\<rparr>))"
| "exec_instr ev lim (Jmp target) st = Some (st\<lparr>rs_pos := target\<rparr>)"
| "exec_instr ev lim (Jz target) st =
     Some (if \<not> test_result st then st\<lparr>rs_pos := target\<rparr> else next_pos st)"
| "exec_instr ev lim (Jnz target) st =
     Some (if test_result st then st\<lparr>rs_pos := target\<rparr> else next_pos st)"
| "exec_instr ev lim Keep st = Some (next_pos (st\<lparr>explicit_keep := True\<rparr>))"
| "exec_instr ev lim Discard st =
     Some (next_pos (st\<lparr>discard_requested := True, implicit_keep := False\<rparr>))"
| "exec_instr ev lim Stop st = None"
| "exec_instr ev lim (FileInto mailbox) st =
     Some (next_pos (st\<lparr>implicit_keep := False,
       rs_file_into := if mailbox \<in> set (rs_file_into st) then rs_file_into st
                       else rs_file_into st @ [mailbox]\<rparr>))"
| "exec_instr ev lim (Redirect address) st =
     Some (next_pos (if length (rs_redirects st) < max_redirects lim
                        \<and> \<not> contains_ignoring_case (rs_redirects st) address
                     then st\<lparr>rs_redirects := rs_redirects st @ [address]\<rparr> else st))"
| "exec_instr ev lim (AddFlag new_flags) st =
     Some (next_pos (st\<lparr>rs_flags := add_flags (rs_flags st) new_flags\<rparr>))"
| "exec_instr ev lim (SetFlag new_flags) st =
     Some (next_pos (st\<lparr>rs_flags := add_flags [] new_flags\<rparr>))"
| "exec_instr ev lim (RemoveFlag removed) st =
     Some (next_pos (st\<lparr>rs_flags := filter (\<lambda>f. \<not> contains_ignoring_case removed f) (rs_flags st)\<rparr>))"

section \<open>The loop\<close>

lemma exec_instr_steps: "exec_instr ev lim i st = Some st' \<Longrightarrow> rs_steps st' = rs_steps st"
  by (cases i) auto

function run_loop :: "(test \<Rightarrow> bool) \<Rightarrow> limits \<Rightarrow> instruction list \<Rightarrow> run_state \<Rightarrow> run_state" where
  "run_loop ev lim is st =
     (if rs_pos st < length is then
        let st1 = st\<lparr>rs_steps := rs_steps st + 1\<rparr> in
        if cpu lim < rs_steps st1 then st1
        else case exec_instr ev lim (is ! rs_pos st1) st1 of
          None \<Rightarrow> st1
        | Some st2 \<Rightarrow> run_loop ev lim is st2
      else st)"
  by pat_completeness auto
termination
  by (relation "measure (\<lambda>(ev, lim, is, st). cpu lim + 1 - rs_steps st)")
    (auto dest!: exec_instr_steps)

declare run_loop.simps [simp del]

definition outcome_of :: "run_state \<Rightarrow> outcome" where
  "outcome_of st =
     (let kp = explicit_keep st \<or> implicit_keep st in
      \<lparr>keep = kp,
       discarded = discard_requested st \<and> \<not> kp \<and> rs_file_into st = [],
       file_into = rs_file_into st,
       redirects = rs_redirects st,
       flags = rs_flags st\<rparr>)"

definition run_eval :: "mail_parser \<Rightarrow> bytes \<Rightarrow> envelope \<Rightarrow> test \<Rightarrow> bool" where
  "run_eval mail_parse rawm env =
     eval_test (message_view_new mail_parse rawm)
       (parse_envelope_address (env_from env)) (parse_envelope_address (env_to env))"

text \<open>\<open>runtime::run\<close>, which \<open>execute\<close> of \<open>lib.rs\<close> calls.\<close>

definition run :: "mail_parser \<Rightarrow> script \<Rightarrow> bytes \<Rightarrow> envelope \<Rightarrow> limits \<Rightarrow> outcome" where
  "run mail_parse s rawm env lim =
     outcome_of (run_loop (run_eval mail_parse rawm env) lim (instructions s) run_init)"

definition execute :: "mail_parser \<Rightarrow> script \<Rightarrow> bytes \<Rightarrow> envelope \<Rightarrow> limits \<Rightarrow> outcome" where
  "execute mail_parse s rawm env lim = run mail_parse s rawm env lim"

section \<open>The outcome is well formed\<close>

text \<open>No two entries are equal up to ASCII case.\<close>

fun distinct_ignoring_case :: "bytes list \<Rightarrow> bool" where
  "distinct_ignoring_case [] = True"
| "distinct_ignoring_case (x # xs) = (\<not> contains_ignoring_case xs x \<and> distinct_ignoring_case xs)"

lemma contains_ignoring_case_simps [simp]:
  "contains_ignoring_case [] x = False"
  "contains_ignoring_case (y # ys) x = (eq_ignore_ascii_case y x \<or> contains_ignoring_case ys x)"
  "contains_ignoring_case (ys @ zs) x = (contains_ignoring_case ys x \<or> contains_ignoring_case zs x)"
  by (simp_all add: contains_ignoring_case_def)

lemma distinct_ignoring_case_snoc:
  "distinct_ignoring_case (xs @ [x]) = (distinct_ignoring_case xs \<and> \<not> contains_ignoring_case xs x)"
  by (induction xs) (auto simp: eq_ignore_ascii_case_sym [of x])

lemma distinct_ignoring_case_filter:
  "distinct_ignoring_case xs \<Longrightarrow> distinct_ignoring_case (filter P xs)"
  by (induction xs) (auto simp: contains_ignoring_case_def list_ex_iff)

lemma add_flags_distinct:
  "distinct_ignoring_case fs \<Longrightarrow> distinct_ignoring_case (add_flags fs gs)"
  by (induction fs gs rule: add_flags.induct) (auto simp: distinct_ignoring_case_snoc)

definition run_inv :: "limits \<Rightarrow> run_state \<Rightarrow> bool" where
  "run_inv lim st \<longleftrightarrow>
     distinct (rs_file_into st) \<and> length (rs_redirects st) \<le> max_redirects lim
     \<and> distinct_ignoring_case (rs_redirects st) \<and> distinct_ignoring_case (rs_flags st)
     \<and> (rs_file_into st \<noteq> [] \<or> discard_requested st \<longleftrightarrow> \<not> implicit_keep st)"

lemma exec_instr_inv: "exec_instr ev lim i st = Some st' \<Longrightarrow> run_inv lim st \<Longrightarrow> run_inv lim st'"
  by (cases i)
    (auto simp: run_inv_def distinct_ignoring_case_snoc distinct_ignoring_case_filter add_flags_distinct
      split: if_splits)

lemma run_loop_inv: "run_inv lim st \<Longrightarrow> run_inv lim (run_loop ev lim is st)"
proof (induction ev lim "is" st rule: run_loop.induct)
  case (1 ev lim "is" st)
  let ?st1 = "st\<lparr>rs_steps := rs_steps st + 1\<rparr>"
  have i1: "run_inv lim ?st1" using "1.prems" by (simp add: run_inv_def)
  show ?case
  proof (cases "rs_pos st < length is \<and> \<not> cpu lim < rs_steps ?st1")
    case False
    with i1 "1.prems" show ?thesis by (auto simp: run_loop.simps [of _ _ "is" st] Let_def)
  next
    case True
    then show ?thesis
    proof (cases "exec_instr ev lim (is ! rs_pos ?st1) ?st1")
      case None
      with True i1 show ?thesis by (simp add: run_loop.simps [of _ _ "is" st] Let_def)
    next
      case (Some st2)
      from "1.IH" [OF _ refl _ Some exec_instr_inv [OF Some i1]] True Some show ?thesis
        by (simp add: run_loop.simps [of _ _ "is" st] Let_def)
    qed
  qed
qed

definition outcome_ok :: "limits \<Rightarrow> outcome \<Rightarrow> bool" where
  "outcome_ok lim out \<longleftrightarrow>
     distinct (file_into out) \<and> length (redirects out) \<le> max_redirects lim
     \<and> distinct_ignoring_case (redirects out) \<and> distinct_ignoring_case (flags out)
     \<and> (keep out \<or> file_into out \<noteq> [] \<or> discarded out)
     \<and> (discarded out \<longrightarrow> \<not> keep out \<and> file_into out = [])"

section \<open>Compiled scripts run to their end\<close>

lemma exec_instr_pos:
  "exec_instr ev lim i st = Some st' \<Longrightarrow>
     rs_pos st' = rs_pos st + 1 \<or> jump_target i = Some (rs_pos st')"
  by (cases i) auto

lemma run_loop_steps:
  "open_jumps is = {} \<Longrightarrow> rs_steps st \<le> rs_pos st \<Longrightarrow> rs_pos st \<le> length is \<Longrightarrow>
     rs_steps (run_loop ev lim is st) \<le> length is"
proof (induction ev lim "is" st rule: run_loop.induct)
  case (1 ev lim "is" st)
  let ?st1 = "st\<lparr>rs_steps := rs_steps st + 1\<rparr>"
  show ?case
  proof (cases "rs_pos st < length is \<and> \<not> cpu lim < rs_steps ?st1")
    case False
    with "1.prems" show ?thesis by (auto simp: run_loop.simps [of _ _ "is" st] Let_def)
  next
    case True
    show ?thesis
    proof (cases "exec_instr ev lim (is ! rs_pos ?st1) ?st1")
      case None
      with True "1.prems" show ?thesis by (simp add: run_loop.simps [of _ _ "is" st] Let_def)
    next
      case (Some st2)
      have "rs_pos st < rs_pos st2 \<and> rs_pos st2 \<le> length is"
        using exec_instr_pos [OF Some] "1.prems"(1) True by (auto simp: open_jumps_def)
      with "1.IH" [OF _ refl _ Some "1.prems"(1)] True Some "1.prems" exec_instr_steps [OF Some]
      show ?thesis by (simp add: run_loop.simps [of _ _ "is" st] Let_def)
    qed
  qed
qed

lemma run_loop_budget:
  "rs_steps (run_loop ev (lim\<lparr>cpu := c\<rparr>) is st) \<le> c \<Longrightarrow>
   rs_steps (run_loop ev (lim\<lparr>cpu := d\<rparr>) is st) \<le> d \<Longrightarrow>
     run_loop ev (lim\<lparr>cpu := c\<rparr>) is st = run_loop ev (lim\<lparr>cpu := d\<rparr>) is st"
proof (induction ev "lim\<lparr>cpu := c\<rparr>" "is" st rule: run_loop.induct)
  case (1 ev "is" st)
  let ?st1 = "st\<lparr>rs_steps := rs_steps st + 1\<rparr>"
  have same: "exec_instr ev (lim\<lparr>cpu := c\<rparr>) i s = exec_instr ev (lim\<lparr>cpu := d\<rparr>) i s" for i s
    by (cases i) auto
  show ?case
  proof (cases "rs_pos st < length is")
    case False
    then show ?thesis by (simp add: run_loop.simps [of _ _ "is" st])
  next
    case True
    with "1.prems" have b: "\<not> c < rs_steps st + 1" "\<not> d < rs_steps st + 1"
      by (auto simp: run_loop.simps [of _ _ "is" st] Let_def split: if_splits)
    show ?thesis
    proof (cases "exec_instr ev (lim\<lparr>cpu := c\<rparr>) (is ! rs_pos ?st1) ?st1")
      case None
      with True b same show ?thesis by (simp add: run_loop.simps [of _ _ "is" st] Let_def)
    next
      case (Some st2)
      note s2 = Some [unfolded same]
      from "1.hyps" [OF True refl _ Some] True b Some s2 "1.prems" show ?thesis
        by (simp add: run_loop.simps [of _ _ "is" st] Let_def)
    qed
  qed
qed

section \<open>Properties\<close>

text \<open>C8. Whatever the script and the message, the outcome is well formed: at most
  \<open>max_redirects\<close> redirects, no duplicate mailbox, redirect or flag (redirects and flags up to
  ASCII case), every message is kept, filed or reported as discarded, and a discarded message is
  neither kept nor filed.\<close>

theorem execute_outcome_ok: "outcome_ok lim (execute mail_parse s rawm env lim)"
proof -
  have "run_inv lim run_init" by (simp add: run_inv_def run_init_def)
  from run_loop_inv [OF this, of "run_eval mail_parse rawm env" "instructions s"] show ?thesis
    by (auto simp: execute_def run_def outcome_ok_def outcome_of_def run_inv_def Let_def)
qed

text \<open>C18. A compiled script needs at most one step per instruction, so a step budget that covers
  the script's length never cuts it short: any two such budgets give the same outcome.\<close>

theorem compiled_run_within_budget:
  assumes "compile cl source = Inr s" "length (instructions s) \<le> c" "length (instructions s) \<le> d"
  shows "execute mail_parse s rawm env (lim\<lparr>cpu := c\<rparr>) = execute mail_parse s rawm env (lim\<lparr>cpu := d\<rparr>)
    \<and> rs_steps (run_loop (run_eval mail_parse rawm env) lim (instructions s) run_init)
        \<le> length (instructions s)"
proof
  from assms(1) obtain ts where "grammar_compile ts cl = Inr (instructions s, capabilities s)"
    by (rule compile_Inr)
  then have oj: "open_jumps (instructions s) = {}" by (rule grammar_compile_result(1))
  have st: "rs_steps (run_loop ev l (instructions s) run_init) \<le> length (instructions s)" for ev l
    by (rule run_loop_steps [OF oj]) (simp_all add: run_init_def)
  show "execute mail_parse s rawm env (lim\<lparr>cpu := c\<rparr>) = execute mail_parse s rawm env (lim\<lparr>cpu := d\<rparr>)"
    using run_loop_budget [where ev = "run_eval mail_parse rawm env" and lim = lim and c = c and d = d
        and st = run_init, of "instructions s"]
      order_trans [OF st assms(2)] order_trans [OF st assms(3)]
    by (simp add: execute_def run_def)
  show "rs_steps (run_loop (run_eval mail_parse rawm env) lim (instructions s) run_init)
      \<le> length (instructions s)" by (rule st)
qed

theorem compiled_run_within_budget_witness:
  "compile default_compiler_limits ''if false{stop;}'' =
     Inr \<lparr>instructions = [Test (Bool False), Jz 3, Stop], capabilities = []\<rparr>
   \<and> execute (\<lambda>_. None) \<lparr>instructions = [Test (Bool False), Jz 3, Stop], capabilities = []\<rparr> []
        \<lparr>env_from = [], env_to = []\<rparr> (default_limits\<lparr>cpu := 3\<rparr>)
     = execute (\<lambda>_. None) \<lparr>instructions = [Test (Bool False), Jz 3, Stop], capabilities = []\<rparr> []
        \<lparr>env_from = [], env_to = []\<rparr> (default_limits\<lparr>cpu := 5000\<rparr>)"
  using compiled_run_within_budget [OF compile_if_false, of 3 5000] compile_if_false by simp

end
