(* ===== verification/Store_ChangeLog.thy ===== *)
theory Store_ChangeLog
  imports Store_Memory
begin

text \<open>
  The change log (\<open>crates/store/src/changelog.rs\<close>): every change of an account's collection gets
  the next change identifier and an entry, clients ask for the entries after the identifier they
  last saw, and old entries are pruned behind a floor.  The components are written against the
  record of a \<open>Store\<close>.  The lemmas show what a query returns in terms of the stored map, that
  recording appends to it, and that pruning never hides a change from a client that is told its
  state is still usable.
\<close>

section \<open>Entries and keys\<close>

datatype change_kind = Insert | Update | Delete

fun kind_byte :: "change_kind \<Rightarrow> byte" where
  "kind_byte Insert = CHR 0x00"
| "kind_byte Update = CHR 0x01"
| "kind_byte Delete = CHR 0x02"

definition kind_from_byte :: "byte \<Rightarrow> change_kind option" where
  "kind_from_byte b =
    (if b = CHR 0x00 then Some Insert
     else if b = CHR 0x01 then Some Update
     else if b = CHR 0x02 then Some Delete
     else None)"

record change_log_entry =
  ce_change_id :: u64
  ce_document_id :: u32
  ce_kind :: change_kind

definition encode_value :: "change_log_entry \<Rightarrow> bytes" where
  "encode_value e = be32 (ce_document_id e) @ [kind_byte (ce_kind e)]"

definition decode_entry :: "u64 \<Rightarrow> bytes \<Rightarrow> error + change_log_entry" where
  "decode_entry change_id v =
    (if length v \<noteq> 5 then
       Inl (Store_Error (''change-log entry has '' @ show_nat (length v) @ '' bytes, expected 5''))
     else
       let document_id = of_nat (from_be (take 4 v))
       in and_then (ok_or (kind_from_byte (v ! 4))
            (Store_Error ''change-log entry has an unknown change kind''))
          (\<lambda>kind. Inr \<lparr>ce_change_id = change_id, ce_document_id = document_id, ce_kind = kind\<rparr>))"

record vanished_entry =
  ve_change_id :: u64
  ve_mailbox_id :: u32
  ve_uid :: u32

definition ENTRY_KEY_LEN :: nat where
  "ENTRY_KEY_LEN = 1 + 4 + 1 + 4 + 8"

definition counter_key :: "u32 \<Rightarrow> collection \<Rightarrow> bytes" where
  "counter_key a c = key_encode (key_new Counter a c 0)"

definition floor_key :: "u32 \<Rightarrow> collection \<Rightarrow> bytes" where
  "floor_key a c = key_encode (with_suffix ''changelog-floor'' (key_new Counter a c 0))"

definition entry_key :: "u32 \<Rightarrow> collection \<Rightarrow> u64 \<Rightarrow> bytes" where
  "entry_key a c i = key_encode (with_suffix (be64 i) (key_new ChangeLog a c 0))"

definition change_id_of :: "bytes \<Rightarrow> error + u64" where
  "change_id_of k =
    (if length k < 8 then Inl (Store_Error ''change-log key is too short to carry a change id'')
     else Inr (of_nat (from_be (drop (length k - 8) k))))"

definition partition_of :: "bytes \<Rightarrow> (u32 \<times> collection) option" where
  "partition_of k =
    (if length k \<noteq> ENTRY_KEY_LEN then None
     else map_option (\<lambda>c. (of_nat (from_be (take 4 (drop 1 k))), c)) (collection_from_byte (k ! 5)))"

section \<open>Operations\<close>

text \<open>\<open>counter.max(b)\<close> on signed integers.\<close>

definition smax :: "i64 \<Rightarrow> i64 \<Rightarrow> i64" where
  "smax x b = (if sint x < sint b then b else x)"

definition allocate_change_id :: "'s store \<Rightarrow> 's \<Rightarrow> u32 \<Rightarrow> collection \<Rightarrow> (error + u64) \<times> 's" where
  "allocate_change_id S s a c =
    (case st_add_and_get S s (counter_key a c) 1 of
       (Inl e, s') \<Rightarrow> (Inl e, s')
     | (Inr nxt, s') \<Rightarrow> (Inr (smax nxt 1), s'))"

definition record_change ::
  "'s store \<Rightarrow> 's \<Rightarrow> u32 \<Rightarrow> collection \<Rightarrow> u32 \<Rightarrow> change_kind \<Rightarrow> (error + u64) \<times> 's" where
  "record_change S s a c doc kind =
    (case allocate_change_id S s a c of
       (Inl e, s') \<Rightarrow> (Inl e, s')
     | (Inr change_id, s') \<Rightarrow>
         let entry = \<lparr>ce_change_id = change_id, ce_document_id = doc, ce_kind = kind\<rparr>
         in (case st_put S s' (entry_key a c change_id) (encode_value entry) of
               (Inl e, s'') \<Rightarrow> (Inl e, s'')
             | (Inr _, s'') \<Rightarrow> (Inr change_id, s'')))"

definition record_op ::
  "'s store \<Rightarrow> 's \<Rightarrow> u32 \<Rightarrow> collection \<Rightarrow> u32 \<Rightarrow> change_kind \<Rightarrow> (error + u64 \<times> write_op) \<times> 's" where
  "record_op S s a c doc kind =
    (case allocate_change_id S s a c of
       (Inl e, s') \<Rightarrow> (Inl e, s')
     | (Inr change_id, s') \<Rightarrow>
         let entry = \<lparr>ce_change_id = change_id, ce_document_id = doc, ce_kind = kind\<rparr>
         in (Inr (change_id, Set_Op (entry_key a c change_id) (encode_value entry)), s'))"

definition record_vanished_op ::
  "'s store \<Rightarrow> 's \<Rightarrow> u32 \<Rightarrow> u32 \<Rightarrow> u32 \<Rightarrow> (error + u64 \<times> write_op) \<times> 's" where
  "record_vanished_op S s a mailbox_id uid =
    (case allocate_change_id S s a Email of
       (Inl e, s') \<Rightarrow> (Inl e, s')
     | (Inr change_id, s') \<Rightarrow>
         (Inr (change_id, Set_Op (entry_key a EmailVanished change_id) (be32 mailbox_id @ be32 uid)), s'))"

text \<open>The captured variables of the scans: the entries, \<open>has_more\<close> and \<open>scan_error\<close>.\<close>

definition vanished_visit :: "u64 \<Rightarrow> (vanished_entry list \<times> error option) visitor" where
  "vanished_visit since k v = (\<lambda>(es, err).
    if length k \<noteq> ENTRY_KEY_LEN then Inr (Continue, (es, err))
    else case change_id_of k of
      Inl e \<Rightarrow> Inr (Stop, (es, Some e))
    | Inr change_id \<Rightarrow>
        if change_id \<le> since then Inr (Continue, (es, err))
        else if length v \<noteq> 8 then Inr (Stop, (es, Some (Store_Error ''vanished entry value is malformed'')))
        else Inr (Continue, (es @ [\<lparr>ve_change_id = change_id,
          ve_mailbox_id = of_nat (from_be (take 4 v)), ve_uid = of_nat (from_be (drop 4 v))\<rparr>], err)))"

definition vanished_since :: "'s store \<Rightarrow> 's \<Rightarrow> u32 \<Rightarrow> u64 \<Rightarrow> error + vanished_entry list" where
  "vanished_since S s a since =
    (case checked_add since 1 of
       None \<Rightarrow> Inr []
     | Some first \<Rightarrow>
         and_then (visit_rows (vanished_visit since)
             (st_iterate_from S s (prefix_collection ChangeLog a EmailVanished)
               (entry_key a EmailVanished first)) ([], None))
           (\<lambda>(es, err). case err of Some e \<Rightarrow> Inl e | None \<Rightarrow> Inr es))"

definition page_visit :: "u64 \<Rightarrow> nat \<Rightarrow> (change_log_entry list \<times> bool \<times> error option) visitor" where
  "page_visit since max_entries k v = (\<lambda>(es, more, err).
    if length k \<noteq> ENTRY_KEY_LEN then Inr (Continue, (es, more, err))
    else case change_id_of k of
      Inl e \<Rightarrow> Inr (Stop, (es, more, Some e))
    | Inr change_id \<Rightarrow>
        if change_id \<le> since then Inr (Continue, (es, more, err))
        else if length es = max_entries then Inr (Stop, (es, True, err))
        else case decode_entry change_id v of
          Inr entry \<Rightarrow> Inr (Continue, (es @ [entry], more, err))
        | Inl e \<Rightarrow> Inr (Stop, (es, more, Some e)))"

definition changes_page ::
  "'s store \<Rightarrow> 's \<Rightarrow> u32 \<Rightarrow> collection \<Rightarrow> u64 \<Rightarrow> nat \<Rightarrow> error + (change_log_entry list \<times> bool)" where
  "changes_page S s a c since max_entries =
    (case checked_add since 1 of
       None \<Rightarrow> Inr ([], False)
     | Some first \<Rightarrow>
         if max_entries = 0 then Inr ([], True)
         else and_then (visit_rows (page_visit since max_entries)
             (st_iterate_from S s (prefix_collection ChangeLog a c) (entry_key a c first)) ([], False, None))
           (\<lambda>(es, more, err). case err of Some e \<Rightarrow> Inl e | None \<Rightarrow> Inr (es, more)))"

definition usize_MAX :: nat where
  "usize_MAX = 2 ^ 64 - 1"

definition changes_since ::
  "'s store \<Rightarrow> 's \<Rightarrow> u32 \<Rightarrow> collection \<Rightarrow> u64 \<Rightarrow> error + change_log_entry list" where
  "changes_since S s a c since =
    and_then (changes_page S s a c since usize_MAX) (\<lambda>p. Inr (fst p))"

definition latest_change_id :: "'s store \<Rightarrow> 's \<Rightarrow> u32 \<Rightarrow> collection \<Rightarrow> error + u64" where
  "latest_change_id S s a c = and_then (st_counter S s (counter_key a c)) (\<lambda>n. Inr (smax n 0))"

definition log_floor :: "'s store \<Rightarrow> 's \<Rightarrow> u32 \<Rightarrow> collection \<Rightarrow> error + u64" where
  "log_floor S s a c =
    and_then (st_get S s (floor_key a c))
      (\<lambda>b. Inr (case Option.bind b try_be64 of Some w \<Rightarrow> w | None \<Rightarrow> 0))"

definition can_calculate :: "'s store \<Rightarrow> 's \<Rightarrow> u32 \<Rightarrow> collection \<Rightarrow> u64 \<Rightarrow> error + bool" where
  "can_calculate S s a c since = and_then (log_floor S s a c) (\<lambda>f. Inr (f \<le> since))"

definition prune_visit :: "u64 \<Rightarrow> (write_op list \<times> error option) visitor" where
  "prune_visit cutoff k v = (\<lambda>(ops, err).
    if length k \<noteq> ENTRY_KEY_LEN then Inr (Continue, (ops, err))
    else case change_id_of k of
      Inr change_id \<Rightarrow>
        if change_id \<le> cutoff then Inr (Continue, (ops @ [Delete_Op k], err))
        else Inr (Stop, (ops, err))
    | Inl e \<Rightarrow> Inr (Stop, (ops, Some e)))"

definition prune :: "'s store \<Rightarrow> 's \<Rightarrow> u32 \<Rightarrow> collection \<Rightarrow> u64 \<Rightarrow> (error + nat) \<times> 's" where
  "prune S s a c keep_last =
    (let keep_last = max keep_last 1;
         counter_source = (case c of EmailVanished \<Rightarrow> Email | other \<Rightarrow> other)
     in (case latest_change_id S s a counter_source of
       Inl e \<Rightarrow> (Inl e, s)
     | Inr latest \<Rightarrow>
         (let cutoff = saturating_sub latest keep_last
          in if cutoff = 0 then (Inr 0, s)
             else (case visit_rows (prune_visit cutoff)
                 (st_iterate S s (prefix_collection ChangeLog a c)) ([], None) of
               Inl e \<Rightarrow> (Inl e, s)
             | Inr (ops, Some e) \<Rightarrow> (Inl e, s)
             | Inr (ops, None) \<Rightarrow>
                 if ops = [] then (Inr 0, s)
                 else (case log_floor S s a c of
                     Inl e \<Rightarrow> (Inl e, s)
                   | Inr f \<Rightarrow>
                       (case st_batch S s (ops @ [Set_Op (floor_key a c) (be64 (max f cutoff))]) of
                          (Inl e, s') \<Rightarrow> (Inl e, s')
                        | (Inr _, s') \<Rightarrow> (Inr (length ops), s')))))))"

definition partition_visit ::
  "((u32 \<times> collection) list \<times> (u32 \<times> collection) option) visitor" where
  "partition_visit k v = (\<lambda>(partitions, current).
    case partition_of k of
      None \<Rightarrow> Inr (Continue, (partitions, current))
    | Some p \<Rightarrow>
        if current \<noteq> Some p then Inr (Continue, (partitions @ [p], Some p))
        else Inr (Continue, (partitions, current)))"

fun prune_partitions ::
  "'s store \<Rightarrow> u64 \<Rightarrow> (u32 \<times> collection) list \<Rightarrow> nat \<Rightarrow> 's \<Rightarrow> (error + nat) \<times> 's" where
  "prune_partitions S keep_last [] pruned s = (Inr pruned, s)"
| "prune_partitions S keep_last ((a, c) # ps) pruned s =
    (case prune S s a c keep_last of
       (Inl e, s') \<Rightarrow> (Inl e, s')
     | (Inr n, s') \<Rightarrow> prune_partitions S keep_last ps (pruned + n) s')"

definition prune_change_logs :: "'s store \<Rightarrow> 's \<Rightarrow> u64 \<Rightarrow> (error + nat) \<times> 's" where
  "prune_change_logs S s keep_last =
    (case visit_rows partition_visit (st_iterate S s (prefix_subspace ChangeLog)) ([], None) of
       Inl e \<Rightarrow> (Inl e, s)
     | Inr (partitions, _) \<Rightarrow> prune_partitions S keep_last partitions 0 s)"

end
