(* ===== verification/Store_ChangeLog_Props.thy ===== *)
theory Store_ChangeLog_Props
  imports Store_ChangeLog
begin

text \<open>
  What the change log guarantees: queries return exactly the entries after the given identifier,
  in order and cut at the page size; recording appends one entry with the next identifier; and
  pruning removes only entries at or below the floor it announces.
\<close>

section \<open>Layout\<close>

lemma length_entry_key [simp]: "length (entry_key a c i) = ENTRY_KEY_LEN"
  by (simp add: entry_key_def key_encode_def ENTRY_KEY_LEN_def)

lemma entry_key_inj [simp]: "entry_key a c i = entry_key a' c' i' \<longleftrightarrow> a = a' \<and> c = c' \<and> i = i'"
  by (auto simp: entry_key_def with_suffix_def key_new_def)

lemma entry_key_less [simp]: "entry_key a c i < entry_key a c j \<longleftrightarrow> i < j"
  by (simp add: entry_key_def key_encode_less)

lemma entry_key_le [simp]: "entry_key a c i \<le> entry_key a c j \<longleftrightarrow> i \<le> j"
  by (meson entry_key_less linorder_not_le)

lemma entry_key_prefix [simp]:
  "prefix (prefix_encode (prefix_collection ChangeLog a c)) (entry_key a c i)"
  by (simp add: prefix_encode_def prefix_collection_def entry_key_def key_encode_def)

lemma entry_key_floor [simp]: "entry_key a c i \<noteq> floor_key a' c'" "floor_key a' c' \<noteq> entry_key a c i"
  by (auto simp: entry_key_def floor_key_def with_suffix_def key_new_def)

lemma entry_key_counter [simp]: "entry_key a c i \<noteq> counter_key a' c'" "counter_key a' c' \<noteq> entry_key a c i"
  by (auto simp: entry_key_def counter_key_def with_suffix_def key_new_def)

lemma floor_key_counter [simp]: "floor_key a c \<noteq> counter_key a' c'" "counter_key a' c' \<noteq> floor_key a c"
  by (auto simp: floor_key_def counter_key_def with_suffix_def key_new_def)

lemma counter_floor_prefix [simp]:
  "\<not> prefix (prefix_encode (prefix_collection ChangeLog a c)) (counter_key a' c')"
  "\<not> prefix (prefix_encode (prefix_collection ChangeLog a c)) (floor_key a' c')"
  by (simp_all add: prefix_encode_def prefix_collection_def counter_key_def floor_key_def key_encode_def)

lemma change_id_entry_key [simp]: "change_id_of (entry_key a c i) = Inr i"
proof -
  have "drop (length (entry_key a c i) - 8) (entry_key a c i) = be64 i"
    by (simp add: entry_key_def key_encode_def)
  moreover have "of_nat (from_be (be64 i)) = i"
    using try_word_bytes(2) [of i] by (simp add: try_be64_def)
  ultimately show ?thesis
    by (simp add: change_id_of_def ENTRY_KEY_LEN_def)
qed

lemma kind_from_byte_inverse [simp]: "kind_from_byte (kind_byte k) = Some k"
  by (cases k) (simp_all add: kind_from_byte_def)

lemma decode_encode_value [simp]: "decode_entry (ce_change_id e) (encode_value e) = Inr e"
  using try_word_bytes(1) [of "ce_document_id e"]
  by (simp add: decode_entry_def encode_value_def try_be32_def nth_append)

lemma encode_value_inj:
  "encode_value e = encode_value f \<Longrightarrow> ce_change_id e = ce_change_id f \<Longrightarrow> e = (f :: change_log_entry)"
  by (metis decode_encode_value sum.inject(2))

section \<open>The log of a partition\<close>

text \<open>
  A partition is well-formed when every key of entry length below its prefix is the key of an
  entry and holds that entry's value.
\<close>

definition log_ok :: "content \<Rightarrow> u32 \<Rightarrow> collection \<Rightarrow> bool" where
  "log_ok m a c \<longleftrightarrow>
    (\<forall>k v. m k = Some v \<longrightarrow> prefix (prefix_encode (prefix_collection ChangeLog a c)) k \<longrightarrow>
      length k = ENTRY_KEY_LEN \<longrightarrow> (\<exists>e. k = entry_key a c (ce_change_id e) \<and> v = encode_value e))"

definition in_log :: "content \<Rightarrow> u32 \<Rightarrow> collection \<Rightarrow> change_log_entry \<Rightarrow> bool" where
  "in_log m a c e \<longleftrightarrow> m (entry_key a c (ce_change_id e)) = Some (encode_value e)"

text \<open>\<open>es\<close> are the entries after \<open>since\<close>, by increasing identifier.\<close>

definition log_after :: "content \<Rightarrow> u32 \<Rightarrow> collection \<Rightarrow> u64 \<Rightarrow> change_log_entry list \<Rightarrow> bool" where
  "log_after m a c since es \<longleftrightarrow>
    sorted_wrt (<) (map ce_change_id es) \<and> set es = {e. in_log m a c e \<and> since < ce_change_id e}"

definition wanted :: "u64 \<Rightarrow> row list \<Rightarrow> row list" where
  "wanted since rows =
    filter (\<lambda>(k, v). length k = ENTRY_KEY_LEN \<and> (\<forall>i. change_id_of k = Inr i \<longrightarrow> since < i)) rows"

definition row_of :: "u32 \<Rightarrow> collection \<Rightarrow> change_log_entry \<Rightarrow> row" where
  "row_of a c e = (entry_key a c (ce_change_id e), encode_value e)"

lemma row_of_inj [simp]: "row_of a c e = row_of a c f \<longleftrightarrow> e = f"
  by (auto simp: row_of_def dest: encode_value_inj)

text \<open>The rows a scan of a well-formed partition wants are the rows of its entries.\<close>

lemma wanted_rows:
  assumes ok: "log_ok m a c" and fin: "finite (dom m)" and start: "start \<le> entry_key a c (since + 1)"
    and since: "since \<noteq> - 1"
  shows "\<exists>es. wanted since (scan m (prefix_encode (prefix_collection ChangeLog a c)) start) = map (row_of a c) es \<and>
    log_after m a c since es"
proof -
  let ?p = "prefix_encode (prefix_collection ChangeLog a c)"
  let ?w = "wanted since (scan m ?p start)"
  have rows: "\<exists>e. r = row_of a c e \<and> in_log m a c e \<and> since < ce_change_id e" if "r \<in> set ?w" for r
  proof -
    obtain k v where r: "r = (k, v)"
      by (cases r)
    with that have "m k = Some v" "prefix ?p k" "length k = ENTRY_KEY_LEN"
      and i: "\<forall>i. change_id_of k = Inr i \<longrightarrow> since < i"
      by (auto simp: wanted_def set_scan [OF fin])
    then obtain e where "k = entry_key a c (ce_change_id e)" "v = encode_value e"
      using ok unfolding log_ok_def by blast
    then show ?thesis
      using r i \<open>m k = Some v\<close> by (auto simp: row_of_def in_log_def)
  qed
  then have "\<forall>r\<in>set ?w. \<exists>e. r = row_of a c e"
    by blast
  then obtain es where es: "?w = map (row_of a c) es"
    by (metis ex_map_conv)
  have le: "start \<le> entry_key a c i" if "since < i" for i
  proof -
    have "since + 1 \<le> i"
      using that since by (metis inc_le)
    then show ?thesis
      using start entry_key_le order_trans by blast
  qed
  have "set es = {e. in_log m a c e \<and> since < ce_change_id e}"
  proof (intro set_eqI iffI)
    fix e
    assume "e \<in> set es"
    then have "row_of a c e \<in> set ?w"
      using es by simp
    then show "e \<in> {e. in_log m a c e \<and> since < ce_change_id e}"
      using rows by fastforce
  next
    fix e
    assume e: "e \<in> {e. in_log m a c e \<and> since < ce_change_id e}"
    then have "row_of a c e \<in> set ?w"
      using le by (auto simp: wanted_def row_of_def set_scan [OF fin] in_log_def)
    then show "e \<in> set es"
      using es by auto
  qed
  moreover have "sorted_wrt (<) (map ce_change_id es)"
  proof -
    have "sorted_wrt (<) (map fst ?w)"
      unfolding wanted_def strict_sorted_iff using scan_sorted [of m ?p start]
      by (metis (no_types, lifting) distinct_map_filter sorted_filter)
    then have "sorted_wrt (<) (map (\<lambda>e. entry_key a c (ce_change_id e)) es)"
      using es by (simp add: row_of_def comp_def)
    then show ?thesis
      by (simp add: sorted_wrt_map)
  qed
  ultimately show ?thesis
    using es by (auto simp: log_after_def)
qed

lemma log_after_unique:
  assumes "log_after m a c since es" "log_after m a c since fs"
  shows "es = fs"
proof -
  have s: "set es = set fs" "sorted_wrt (<) (map ce_change_id es)" "sorted_wrt (<) (map ce_change_id fs)"
    using assms by (auto simp: log_after_def)
  then have m: "map ce_change_id es = map ce_change_id fs"
    by (metis list.set_map strict_sorted_equal)
  have "inj_on ce_change_id (set es \<union> set fs)"
    using s strict_sorted_iff distinct_map by auto
  then show ?thesis
    using m by (meson inj_on_map_eq_map)
qed

lemma log_after_length:
  assumes "log_after m a c since es"
  shows "length es \<le> usize_MAX"
proof -
  have d: "distinct (map ce_change_id es)"
    using assms by (simp add: log_after_def strict_sorted_iff)
  have "set (map ce_change_id es) \<subseteq> UNIV - {0}"
    using assms by (auto simp: log_after_def)
  then have "card (set (map ce_change_id es)) \<le> card (UNIV - {0 :: u64})"
    by (intro card_mono) auto
  then have "length es \<le> card (UNIV - {0 :: u64})"
    using distinct_card [OF d] by simp
  then show ?thesis
    by (simp add: usize_MAX_def card_Diff_subset card_word)
qed

section \<open>Queries\<close>

lemma checked_add_one: "checked_add since 1 = (if since = - 1 then None else Some (since + 1 :: u64))"
proof -
  have "since = - 1 \<longleftrightarrow> 2 ^ 64 \<le> unat since + 1"
    using unat_lt2p_bound [of since] unat_max_word [where 'a = 64]
    by (auto simp: word_unat_eq_iff)
  then show ?thesis
    by (auto simp: checked_add_def)
qed

lemma usize_pos: "0 < usize_MAX"
  by (simp add: usize_MAX_def)

lemma page_rows:
  assumes "visit_rows (page_visit since n) (map Inr rows) (es, hm, None) = Inr (es', hm', err)"
    and "wanted since rows = map (row_of a c) fs" and "length es \<le> n"
  shows "err = None \<and> es' = es @ take (n - length es) fs \<and> (hm' \<longleftrightarrow> hm \<or> n < length es + length fs)"
  using assms
proof (induction rows arbitrary: es fs)
  case Nil
  then show ?case
    by (auto simp: wanted_def)
next
  case (Cons r rows)
  obtain k v where r: "r = (k, v)"
    by (cases r)
  show ?case
  proof (cases "r \<in> set (wanted since [r])")
    case False
    then have w: "wanted since rows = map (row_of a c) fs"
      using Cons.prems(2) by (auto simp: wanted_def r split: if_splits)
    have "visit_rows (page_visit since n) (map Inr (r # rows)) (es, hm, None) =
      visit_rows (page_visit since n) (map Inr rows) (es, hm, None)"
    proof -
      have "length k \<noteq> ENTRY_KEY_LEN \<or> (\<exists>i. change_id_of k = Inr i \<and> i \<le> since)"
        using False by (auto simp: wanted_def r not_less split: if_splits)
      then show ?thesis
        by (auto simp: page_visit_def r)
    qed
    then show ?thesis
      using Cons.IH [OF _ w] Cons.prems by simp
  next
    case True
    then obtain f gs where fs: "fs = f # gs" "r = row_of a c f" "wanted since rows = map (row_of a c) gs"
      using Cons.prems(2) by (cases fs) (auto simp: wanted_def r split: if_splits)
    have f: "\<not> ce_change_id f \<le> since"
      using True fs(2) by (auto simp: wanted_def row_of_def not_le split: if_splits)
    show ?thesis
    proof (cases "length es = n")
      case True
      then show ?thesis
        using Cons.prems(1) f fs by (simp add: page_visit_def row_of_def)
    next
      case False
      then have "visit_rows (page_visit since n) (map Inr (r # rows)) (es, hm, None) =
        visit_rows (page_visit since n) (map Inr rows) (es @ [f], hm, None)"
        using f fs by (simp add: page_visit_def row_of_def)
      moreover obtain j where "n - length es = Suc j" "n - Suc (length es) = j"
        using False Cons.prems(3) by (metis Suc_diff_Suc le_neq_implies_less)
      ultimately show ?thesis
        using Cons.IH [OF _ fs(3), of "es @ [f]"] Cons.prems False fs(1) by auto
    qed
  qed
qed

context kv_store
begin

lemma changes_page_after:
  assumes ok: "log_ok (content s) a c" and page: "changes_page S s a c since n = Inr (es, hm)" and n: "0 < n"
  shows "\<exists>all. log_after (content s) a c since all \<and> es = take n all \<and> (hm \<longleftrightarrow> n < length all)"
proof (cases "since = - 1")
  case True
  then have "log_after (content s) a c since []"
    by (auto simp: log_after_def)
  then show ?thesis
    using page True n by (auto simp: changes_page_def checked_add_one)
next
  case False
  let ?rows = "scan (content s) (prefix_encode (prefix_collection ChangeLog a c)) (entry_key a c (since + 1))"
  from page False n have v: "visit_rows (page_visit since n)
      (st_iterate_from S s (prefix_collection ChangeLog a c) (entry_key a c (since + 1))) ([], False, None)
      = Inr (es, hm, None)"
    by (auto simp: changes_page_def checked_add_one and_then_eq_Inr split: option.splits)
  obtain all where w: "wanted since ?rows = map (row_of a c) all" and all: "log_after (content s) a c since all"
    using wanted_rows [OF ok finite_content order_refl False] by blast
  from page_rows [OF iterate_from_visit [OF v] w] all show ?thesis
    by auto
qed

lemma changes_since_after:
  assumes "log_ok (content s) a c" and "changes_since S s a c since = Inr es"
  shows "log_after (content s) a c since es"
proof -
  from assms(2) obtain hm where "changes_page S s a c since usize_MAX = Inr (es, hm)"
    by (auto simp: changes_since_def and_then_eq_Inr)
  then obtain all where "log_after (content s) a c since all" "es = take usize_MAX all"
    using changes_page_after [OF assms(1), of since usize_MAX] by (auto simp: usize_pos)
  then show ?thesis
    using log_after_length by simp
qed

end

section \<open>Recording\<close>

text \<open>The counter of the partition is not negative and has reached every entry.\<close>

definition log_bounded :: "content \<Rightarrow> u32 \<Rightarrow> collection \<Rightarrow> bool" where
  "log_bounded m a c \<longleftrightarrow>
    (\<exists>n. counter_at m (counter_key a c) = Some n \<and> unat n < 2 ^ 63 \<and>
      (\<forall>i. entry_key a c i \<in> dom m \<longrightarrow> i \<le> n))"

lemma smax_pos:
  assumes "unat x < 2 ^ 63" "0 < unat x"
  shows "smax x 1 = x"
proof -
  have "int (unat x) < int (2 ^ 63)" "int 0 < int (unat x)"
    using assms by (simp_all only: of_nat_less_iff)
  then have u: "uint x < 2 ^ 63" "0 < uint x"
    by simp_all
  then have "sint x = uint x"
    unfolding sint_uint by (intro signed_take_bit_int_eq_self) simp_all
  then have "sint (1 :: i64) \<le> sint x"
    using u(2) by simp
  then show ?thesis
    by (simp add: smax_def not_less)
qed

lemma record_log:
  assumes ok: "log_ok m a c" and n: "counter_at m (counter_key a c) = Some n" "unat n < 2 ^ 63 - 1"
    and bound: "\<forall>i. entry_key a c i \<in> dom m \<longrightarrow> i \<le> n"
    and m': "m' = m(counter_key a c \<mapsto> le64 (n + 1), entry_key a c (n + 1) \<mapsto> encode_value e)"
    and e: "ce_change_id e = n + 1"
  shows "log_ok m' a c" and "log_bounded m' a c"
    and "log_after m a c since all \<Longrightarrow> since \<le> n \<Longrightarrow> log_after m' a c since (all @ [e])"
proof -
  have u: "unat (n + 1) = unat n + 1"
    using n(2) by (simp add: unat_word_ariths)
  then have lt: "i \<le> n \<Longrightarrow> i < n + 1" for i
    by (simp add: word_less_nat_alt word_le_nat_alt)
  show "log_ok m' a c"
    unfolding log_ok_def
  proof (intro allI impI)
    fix k v
    assume k: "m' k = Some v" "prefix (prefix_encode (prefix_collection ChangeLog a c)) k" "length k = ENTRY_KEY_LEN"
    show "\<exists>e. k = entry_key a c (ce_change_id e) \<and> v = encode_value e"
    proof (cases "k = entry_key a c (n + 1)")
      case True
      then show ?thesis
        using k(1) e m' by (auto intro!: exI [of _ e])
    next
      case False
      then have "m k = Some v"
        using k(1,2) m' by (auto split: if_splits)
      then show ?thesis
        using ok k unfolding log_ok_def by blast
    qed
  qed
  show "log_bounded m' a c"
    unfolding log_bounded_def
  proof (intro exI conjI allI impI)
    show "counter_at m' (counter_key a c) = Some (n + 1)"
      by (simp add: m' counter_at_def)
    show "unat (n + 1) < 2 ^ 63"
      using u n(2) by simp
    fix i
    assume "entry_key a c i \<in> dom m'"
    then show "i \<le> n + 1"
      using bound lt m' by (cases "i = n + 1") (auto intro: less_imp_le)
  qed
  assume all: "log_after m a c since all" and since: "since \<le> n"
  have old: "in_log m a c f \<Longrightarrow> ce_change_id f < n + 1" for f
    using bound lt unfolding in_log_def by blast
  have "in_log m' a c f \<longleftrightarrow> in_log m a c f \<or> f = e" for f
  proof (cases "ce_change_id f = n + 1")
    case True
    then show ?thesis
      using old [of f] e m' by (auto simp: in_log_def dest: encode_value_inj [symmetric])
  next
    case False
    then show ?thesis
      using e m' by (auto simp: in_log_def)
  qed
  then have "set (all @ [e]) = {f. in_log m' a c f \<and> since < ce_change_id f}"
    using all e since lt by (auto simp: log_after_def)
  moreover have "sorted_wrt (<) (map ce_change_id (all @ [e]))"
    using all e old by (auto simp: log_after_def sorted_wrt_append)
  ultimately show "log_after m' a c since (all @ [e])"
    by (simp add: log_after_def)
qed

context kv_store
begin

lemma allocate_ok:
  assumes "allocate_change_id S s a c = (Inr i, s')"
  obtains n where "counter_at (content s) (counter_key a c) = Some n" "i = smax (n + 1) 1"
    "content s' = (content s)(counter_key a c \<mapsto> le64 (n + 1))"
proof -
  from assms obtain x where x: "st_add_and_get S s (counter_key a c) 1 = (Inr x, s')" and i: "i = smax x 1"
    by (auto simp: allocate_change_id_def split: prod.splits sum.splits)
  show thesis
    using add_ok [OF x] i that by auto
qed

lemma record_change_effect:
  assumes "record_change S s a c doc kind = (Inr i, s')"
  obtains n where "counter_at (content s) (counter_key a c) = Some n" "i = smax (n + 1) 1"
    "content s' = (content s)(counter_key a c \<mapsto> le64 (n + 1), entry_key a c i \<mapsto>
      encode_value \<lparr>ce_change_id = i, ce_document_id = doc, ce_kind = kind\<rparr>)"
proof -
  from assms obtain s1 u where al: "allocate_change_id S s a c = (Inr i, s1)"
    and put: "st_put S s1 (entry_key a c i)
      (encode_value \<lparr>ce_change_id = i, ce_document_id = doc, ce_kind = kind\<rparr>) = (Inr u, s')"
    by (auto simp: record_change_def Let_def split: prod.splits sum.splits)
  from allocate_ok [OF al] obtain n where "counter_at (content s) (counter_key a c) = Some n"
    "i = smax (n + 1) 1" "content s1 = (content s)(counter_key a c \<mapsto> le64 (n + 1))"
    by blast
  then show thesis
    using that put_ok [OF put] by auto
qed

end

section \<open>Pruning\<close>

definition floor_of :: "content \<Rightarrow> u32 \<Rightarrow> collection \<Rightarrow> u64" where
  "floor_of m a c = (case Option.bind (m (floor_key a c)) try_be64 of Some w \<Rightarrow> w | None \<Rightarrow> 0)"

lemma prune_rows:
  assumes "visit_rows (prune_visit cutoff) (map Inr rows) (ops, None) = Inr (ops', err)"
  shows "\<exists>ks. ops' = ops @ map Delete_Op ks \<and>
    (\<forall>k\<in>set ks. length k = ENTRY_KEY_LEN \<and> (\<exists>i. change_id_of k = Inr i \<and> i \<le> cutoff) \<and> k \<in> fst ` set rows)"
  using assms
proof (induction rows arbitrary: ops)
  case (Cons r rows)
  obtain k v where r: "r = (k, v)"
    by (cases r)
  consider (skip) "length k \<noteq> ENTRY_KEY_LEN" | (bad) e where "length k = ENTRY_KEY_LEN" "change_id_of k = Inl e"
    | (drop) i where "length k = ENTRY_KEY_LEN" "change_id_of k = Inr i" "i \<le> cutoff"
    | (stop) i where "length k = ENTRY_KEY_LEN" "change_id_of k = Inr i" "\<not> i \<le> cutoff"
    by (cases "change_id_of k") auto
  then show ?case
  proof cases
    case skip
    then have "prune_visit cutoff k v (ops, None) = Inr (Continue, ops, None)"
      by (simp add: prune_visit_def)
    then have "visit_rows (prune_visit cutoff) (map Inr rows) (ops, None) = Inr (ops', err)"
      using Cons.prems by (simp add: r)
    from Cons.IH [OF this] show ?thesis
      by (metis (no_types, lifting) image_insert insertI2 list.simps(15))
  next
    case (drop i)
    then obtain ks where "ops' = (ops @ [Delete_Op k]) @ map Delete_Op ks"
      and "\<forall>k\<in>set ks. length k = ENTRY_KEY_LEN \<and> (\<exists>i. change_id_of k = Inr i \<and> i \<le> cutoff) \<and> k \<in> fst ` set rows"
      using Cons.IH [of "ops @ [Delete_Op k]"] Cons.prems by (auto simp: prune_visit_def r)
    then show ?thesis
      using drop r by (intro exI [of _ "k # ks"]) auto
  qed (use Cons.prems in \<open>auto simp: prune_visit_def r intro!: exI [of _ "[]"]\<close>)
qed (auto intro!: exI [of _ "[]"])

lemma prune_log:
  assumes ok: "log_ok m a c"
    and m': "m' = (\<lambda>k. if k \<in> set ks then None else m k)(floor_key a c \<mapsto> be64 (max (floor_of m a c) cutoff))"
    and ks: "\<forall>k\<in>set ks. length k = ENTRY_KEY_LEN \<and> (\<exists>i. change_id_of k = Inr i \<and> i \<le> cutoff)"
  shows "log_ok m' a c" and "floor_of m' a c = max (floor_of m a c) cutoff"
    and "floor_of m' a c \<le> since \<Longrightarrow> log_after m' a c since es \<longleftrightarrow> log_after m a c since es"
proof -
  show "log_ok m' a c"
    unfolding log_ok_def
  proof (intro allI impI)
    fix k v
    assume k: "m' k = Some v" "prefix (prefix_encode (prefix_collection ChangeLog a c)) k" "length k = ENTRY_KEY_LEN"
    then have "m k = Some v"
      using m' by (auto split: if_splits)
    then show "\<exists>e. k = entry_key a c (ce_change_id e) \<and> v = encode_value e"
      using ok k unfolding log_ok_def by blast
  qed
  show f: "floor_of m' a c = max (floor_of m a c) cutoff"
    by (subst floor_of_def) (simp add: m')
  assume "floor_of m' a c \<le> since"
  then have since: "cutoff \<le> since"
    using f by simp
  have "in_log m' a c e \<longleftrightarrow> in_log m a c e" if "since < ce_change_id e" for e
  proof -
    have "entry_key a c (ce_change_id e) \<notin> set ks"
      using ks that since by auto
    then show ?thesis
      by (simp add: in_log_def m')
  qed
  then show "log_after m' a c since es \<longleftrightarrow> log_after m a c since es"
    by (auto simp: log_after_def)
qed

context kv_store
begin

lemma log_floor_ok: "log_floor S s a c = Inr f \<Longrightarrow> f = floor_of (content s) a c"
  by (auto simp: log_floor_def and_then_eq_Inr floor_of_def dest: get_ok)

lemma can_calculate_ok: "can_calculate S s a c since = Inr b \<Longrightarrow> b \<longleftrightarrow> floor_of (content s) a c \<le> since"
  by (auto simp: can_calculate_def and_then_eq_Inr dest: log_floor_ok)

lemma prune_effect:
  assumes "prune S s a c keep_last = (Inr n, s')"
  shows "content s' = content s \<or>
    (\<exists>cutoff ks. content s' =
        (\<lambda>k. if k \<in> set ks then None else content s k)(floor_key a c \<mapsto> be64 (max (floor_of (content s) a c) cutoff)) \<and>
      (\<forall>k\<in>set ks. length k = ENTRY_KEY_LEN \<and> (\<exists>i. change_id_of k = Inr i \<and> i \<le> cutoff) \<and>
        prefix (prefix_encode (prefix_collection ChangeLog a c)) k))"
proof (cases "content s' = content s")
  case False
  obtain cutoff ops f where
    v: "visit_rows (prune_visit cutoff) (st_iterate S s (prefix_collection ChangeLog a c)) ([], None) = Inr (ops, None)"
    and f: "log_floor S s a c = Inr f"
    and b: "st_batch S s (ops @ [Set_Op (floor_key a c) (be64 (max f cutoff))]) = (Inr (), s')"
    using assms False unfolding prune_def Let_def
    by (auto split: sum.splits option.splits prod.splits if_splits)
  from prune_rows [OF iterate_visit [OF v]] obtain ks where ops: "ops = map Delete_Op ks"
    and ks: "\<forall>k\<in>set ks. length k = ENTRY_KEY_LEN \<and> (\<exists>i. change_id_of k = Inr i \<and> i \<le> cutoff) \<and>
      k \<in> fst ` set (scan (content s) (prefix_encode (prefix_collection ChangeLog a c)) [])"
    by auto
  have "content s' = (\<lambda>k. if k \<in> set ks then None else content s k)(floor_key a c \<mapsto> be64 (max f cutoff))"
    using batch_ok [OF b] by (simp add: ops ops_effect_append ops_effect_deletes)
  moreover have "prefix (prefix_encode (prefix_collection ChangeLog a c)) k" if "k \<in> set ks" for k
    using ks that by (auto simp: set_scan_content)
  ultimately show ?thesis
    using ks log_floor_ok [OF f] by blast
qed simp

end

section \<open>Properties\<close>

lemma subspace_of_log_keys [simp]:
  "subspace_of (entry_key a c i) = Inr ChangeLog" "subspace_of (counter_key a c) = Inr Counter"
  "subspace_of (floor_key a c) = Inr Counter"
  "subspace_of (prefix_encode (prefix_collection s a c)) = Inr s"
  by (simp_all add: entry_key_def counter_key_def floor_key_def)
    (simp add: subspace_of_def prefix_encode_def prefix_collection_def)

text \<open>A small store for the evaluations: two entries of one account and the counter.\<close>

definition sample_entry :: "u64 \<Rightarrow> u32 \<Rightarrow> change_log_entry" where
  "sample_entry i doc = \<lparr>ce_change_id = i, ce_document_id = doc, ce_kind = Insert\<rparr>"

definition sample_log :: mem_db where
  "sample_log =
    [((ChangeLog, entry_key 1 Email 1), encode_value (sample_entry 1 7)),
     ((ChangeLog, entry_key 1 Email 2), encode_value (sample_entry 2 8)),
     ((Counter, counter_key 1 Email), le64 2)]"

lemma sample_entry_sels [simp]: "ce_change_id (sample_entry i doc) = i"
  by (simp add: sample_entry_def)

lemma decode_sample [simp]: "decode_entry i (encode_value (sample_entry i doc)) = Inr (sample_entry i doc)"
  using decode_encode_value [of "sample_entry i doc"] by simp

lemma sample_log_ok: "log_ok (content_map (mem_data sample_log)) 1 Email"
  unfolding log_ok_def
proof (intro allI impI)
  fix k v
  assume k: "content_map (mem_data sample_log) k = Some v"
    "prefix (prefix_encode (prefix_collection ChangeLog 1 Email)) k"
  then have "(k = entry_key 1 Email 1 \<and> v = encode_value (sample_entry 1 7)) \<or>
    (k = entry_key 1 Email 2 \<and> v = encode_value (sample_entry 2 8))"
    by (auto simp: content_map_def mem_data_def sample_log_def split: sum.splits if_splits)
  then show "\<exists>e. k = entry_key 1 Email (ce_change_id e) \<and> v = encode_value e"
    by (metis sample_entry_sels)
qed

lemma prefix_entry_less [simp]: "prefix_encode (prefix_collection ChangeLog a c) < entry_key a c i"
proof -
  have "length (prefix_encode (prefix_collection ChangeLog a c)) \<noteq> length (entry_key a c i)"
    by (simp add: prefix_encode_def prefix_collection_def ENTRY_KEY_LEN_def del: length_entry_key)
      (simp add: ENTRY_KEY_LEN_def)
  then show ?thesis
    using prefix_le [OF entry_key_prefix, of a c i] by (auto simp: le_less)
qed

text \<open>
  C10. A page of changes is exact: over a well-formed partition, when a query for up to \<open>n\<close>
  changes after \<open>since\<close> returns, it returns the first \<open>n\<close> of the entries with a larger
  identifier, each once and by increasing identifier, and reports more exactly when entries are
  left over.
\<close>

theorem changes_page_exact:
  assumes "rocksdb_laws R data" and "log_ok (content_map (data d)) a c" and "0 < n"
    and "changes_page (rocksdb_store R elapsed) d a c since n = Inr (es, hm)"
  shows "\<exists>all. log_after (content_map (data d)) a c since all \<and> es = take n all \<and> (hm \<longleftrightarrow> n < length all)"
  using kv_store.changes_page_after [OF rocksdb_laws.store_contract [OF assms(1)] assms(2,4,3)] .

theorem changes_page_exact_witness:
  "changes_page mem_store sample_log 1 Email 0 1 = Inr ([sample_entry 1 7], True) \<and>
   log_ok (content_map (mem_data sample_log)) 1 Email \<and>
   (\<exists>all. log_after (content_map (mem_data sample_log)) 1 Email 0 all \<and>
     [sample_entry 1 7] = take 1 all \<and> 1 < length all)"
proof -
  have e: "changes_page mem_store sample_log 1 Email 0 1 = Inr ([sample_entry 1 7], True)"
    by (simp add: changes_page_def checked_add_one mem_store_reads mem_rows_def sample_log_def page_visit_def)
  show ?thesis
    using changes_page_exact [OF mem_laws sample_log_ok _ e [unfolded mem_store_def]] e sample_log_ok by auto
qed

text \<open>
  C25. Recording appends: over a well-formed partition whose counter has not reached the largest
  signed value, a successful \<open>record\<close> returns the counter plus one, keeps the partition
  well-formed and its counter above every entry, and every query from an older state returns what
  it returned before followed by the new entry.
\<close>

theorem record_appends:
  assumes "rocksdb_laws R data" and "log_ok (content_map (data d)) a c"
    and "counter_at (content_map (data d)) (counter_key a c) = Some n" and "unat n < 2 ^ 63 - 1"
    and "\<forall>i. entry_key a c i \<in> dom (content_map (data d)) \<longrightarrow> i \<le> n"
    and "record_change (rocksdb_store R elapsed) d a c doc kind = (Inr i, d')"
  shows "i = n + 1 \<and> log_ok (content_map (data d')) a c \<and> log_bounded (content_map (data d')) a c \<and>
    (\<forall>since all. log_after (content_map (data d)) a c since all \<longrightarrow> since \<le> n \<longrightarrow>
      log_after (content_map (data d')) a c since
        (all @ [\<lparr>ce_change_id = n + 1, ce_document_id = doc, ce_kind = kind\<rparr>]))"
proof -
  note kv = rocksdb_laws.store_contract [OF assms(1)]
  have "unat (n + 1) = unat n + 1"
    using assms(4) by (simp add: unat_word_ariths)
  then have "smax (n + 1) 1 = n + 1"
    using assms(4) by (intro smax_pos) simp_all
  then have i: "i = n + 1" and m': "content_map (data d') = (content_map (data d))
      (counter_key a c \<mapsto> le64 (n + 1), entry_key a c (n + 1) \<mapsto>
        encode_value \<lparr>ce_change_id = n + 1, ce_document_id = doc, ce_kind = kind\<rparr>)"
    using kv_store.record_change_effect [OF kv assms(6)] assms(3) by auto
  show ?thesis
    using i record_log [OF assms(2,3,4,5) m'] by simp
qed

theorem record_appends_witness:
  "\<exists>d'. record_change mem_store sample_log 1 Email 9 Update = (Inr 3, d') \<and>
   log_ok (content_map (mem_data d')) 1 Email \<and> log_bounded (content_map (mem_data d')) 1 Email"
proof -
  obtain r d' where e: "record_change mem_store sample_log 1 Email 9 Update = (r, d')"
    by (cases "record_change mem_store sample_log 1 Email 9 Update")
  then have r: "r = Inr 3"
    by (auto simp: record_change_def allocate_change_id_def mem_store_writes mem_store_reads decode_counter_def
        sample_log_def Let_def smax_def)
  have n: "counter_at (content_map (mem_data sample_log)) (counter_key 1 Email) = Some 2"
    by (simp add: counter_at_def content_map_def mem_data_def sample_log_def)
  have i: "\<forall>i. entry_key 1 Email i \<in> dom (content_map (mem_data sample_log)) \<longrightarrow> i \<le> 2"
    by (auto simp: content_map_def mem_data_def sample_log_def split: if_splits)
  show ?thesis
    using record_appends [OF mem_laws sample_log_ok n _ i e [unfolded r mem_store_def]] e r by auto
qed

text \<open>
  C11. Pruning never hides a change: after a successful \<open>prune\<close> of a well-formed partition the
  partition is well-formed and the floor has not gone down, and from every state a client is then
  told it may still calculate changes from, the log holds exactly the entries it held before.
\<close>

theorem prune_keeps_changes:
  assumes "rocksdb_laws R data" and "log_ok (content_map (data d)) a c"
    and "prune (rocksdb_store R elapsed) d a c keep_last = (Inr n, d')"
  shows "log_ok (content_map (data d')) a c \<and>
    floor_of (content_map (data d)) a c \<le> floor_of (content_map (data d')) a c \<and>
    (\<forall>since. can_calculate (rocksdb_store R elapsed) d' a c since = Inr True \<longrightarrow>
      (\<forall>es. log_after (content_map (data d')) a c since es = log_after (content_map (data d)) a c since es))"
proof -
  note kv = rocksdb_laws.store_contract [OF assms(1)]
  let ?m = "content_map (data d)" and ?m' = "content_map (data d')"
  consider "?m' = ?m" | cutoff ks where
    "?m' = (\<lambda>k. if k \<in> set ks then None else ?m k)(floor_key a c \<mapsto> be64 (max (floor_of ?m a c) cutoff))"
    "\<forall>k\<in>set ks. length k = ENTRY_KEY_LEN \<and> (\<exists>i. change_id_of k = Inr i \<and> i \<le> cutoff)"
    using kv_store.prune_effect [OF kv assms(3)] by blast
  then show ?thesis
  proof cases
    case 1
    then show ?thesis
      using assms(2) by simp
  next
    case (2 cutoff ks)
    note p = prune_log [OF assms(2) 2]
    show ?thesis
      using p(1,2) p(3) kv_store.can_calculate_ok [OF kv, of elapsed d' a c] by auto
  qed
qed

theorem prune_keeps_changes_witness:
  "\<exists>d'. prune mem_store sample_log 1 Email 1 = (Inr 1, d') \<and>
   log_ok (content_map (mem_data d')) 1 Email"
proof -
  have l: "latest_change_id mem_store sample_log 1 Email = Inr 2"
    by (simp add: latest_change_id_def mem_store_reads sample_log_def decode_counter_def smax_def)
  have two: "\<not> (2 :: u64) \<le> 1"
    by (simp add: word_le_nat_alt)
  have v: "visit_rows (prune_visit 1) (st_iterate mem_store sample_log (prefix_collection ChangeLog 1 Email)) ([], None)
      = Inr ([Delete_Op (entry_key 1 Email 1)], None)"
    by (simp add: mem_store_reads sample_log_def mem_rows_def prune_visit_def less_imp_le two)
  have f: "log_floor mem_store sample_log 1 Email = Inr 0"
    by (simp add: log_floor_def mem_store_reads sample_log_def)
  obtain d' where b: "st_batch mem_store sample_log
      [Delete_Op (entry_key 1 Email 1), Set_Op (floor_key 1 Email) (be64 1)] = (Inr (), d')"
    by (simp add: mem_store_batch internal_def)
  have "prune mem_store sample_log 1 Email 1 = (Inr 1, d')"
    using l v f b by (simp add: prune_def saturating_sub_def)
  then show ?thesis
    using prune_keeps_changes [OF mem_laws sample_log_ok, of "\<lambda>_. 0" 1 1 d'] by (auto simp: mem_store_def)
qed

end
