(* ===== verification/Pop3_Wire.thy ===== *)
theory Pop3_Wire
  imports Prelude
begin

text \<open>
  \<open>crates/pop3/src/cmd_retr.rs\<close> and \<open>cmd_top.rs\<close>: how message text is put on the wire. The
  reference is a client that reads CRLF-terminated lines up to a lone dot and undoes the
  dot-stuffing (RFC 1939, section 3).
\<close>

section \<open>The server's side\<close>

definition no_such_message :: bytes where
  "no_such_message = ''-ERR no such message'' @ CRLF"

text \<open>The loop of \<open>wire_body\<close>, with its variables \<open>at_line_start\<close> and \<open>last\<close> (\<open>prev\<close> here).\<close>

fun wire_loop :: "bool \<Rightarrow> byte \<Rightarrow> bytes \<Rightarrow> bytes" where
  "wire_loop at_line_start prev [] = []"
| "wire_loop at_line_start prev (b # body) =
     (if b = LF \<and> prev \<noteq> CR then [CR] else []) @
     (if at_line_start \<and> b = CHR ''.'' then ''.'' else []) @
     b # wire_loop (b = LF) b body"

definition wire_body :: "bytes \<Rightarrow> bytes" where
  "wire_body body = wire_loop True (CHR 0x00) body"

definition ends_with :: "bytes \<Rightarrow> bytes \<Rightarrow> bool" where
  "ends_with s t \<longleftrightarrow> suffix t s"

definition retr_response :: "u64 \<Rightarrow> bytes \<Rightarrow> bytes" where
  "retr_response sz body =
     (let stuffed = wire_body body in
      ''+OK '' @ show_nat (unat sz) @ '' octets'' @ CRLF @ stuffed @
      (if ends_with stuffed CRLF then [] else CRLF) @ ''.'' @ CRLF)"

text \<open>The loop of \<open>take_lines\<close>; \<open>n\<close> is \<open>count - seen\<close>, which stays positive inside it.\<close>

fun take_lines_loop :: "nat \<Rightarrow> bytes \<Rightarrow> bytes" where
  "take_lines_loop n [] = []"
| "take_lines_loop n (b # body) =
     b # (if b = LF then (if n \<le> 1 then [] else take_lines_loop (n - 1) body)
          else take_lines_loop n body)"

definition take_lines :: "bytes \<Rightarrow> nat \<Rightarrow> bytes" where
  "take_lines body count = (if count = 0 then [] else take_lines_loop count body)"

definition top_response :: "bytes \<Rightarrow> bytes \<Rightarrow> nat \<Rightarrow> bytes" where
  "top_response headers body lines =
     (let out = ''+OK'' @ CRLF @ wire_body headers @ wire_body (take_lines body lines) in
      out @ (if ends_with out CRLF then [] else CRLF) @ ''.'' @ CRLF)"

section \<open>The client's side\<close>

text \<open>One line up to its CRLF, and what follows.\<close>

fun read_crlf :: "bytes \<Rightarrow> (bytes \<times> bytes) option" where
  "read_crlf [] = None"
| "read_crlf (b # s) =
     (if b = CR \<and> s \<noteq> [] \<and> hd s = LF then Some ([], tl s)
      else map_option (\<lambda>(l, r). (b # l, r)) (read_crlf s))"

lemma read_crlf_length: "read_crlf s = Some (l, r) \<Longrightarrow> length r < length s"
  by (induction s arbitrary: l) (auto split: if_splits)

definition unstuff :: "bytes \<Rightarrow> bytes" where
  "unstuff l = (if l \<noteq> [] \<and> hd l = CHR ''.'' then tl l else l)"

function read_multiline :: "bytes \<Rightarrow> (bytes list \<times> bytes) option" where
  "read_multiline s =
     (case read_crlf s of
        None \<Rightarrow> None
      | Some (l, r) \<Rightarrow>
          if l = ''.'' then Some ([], r)
          else map_option (\<lambda>(ls, r'). (unstuff l # ls, r')) (read_multiline r))"
  by pat_completeness auto
termination
  by (relation "measure length") (auto dest: read_crlf_length)

declare read_multiline.simps [simp del]

text \<open>A whole multi-line response: the status line and the lines behind it.\<close>

definition read_response :: "bytes \<Rightarrow> (bytes \<times> bytes list \<times> bytes) option" where
  "read_response s =
     (case read_crlf s of
        None \<Rightarrow> None
      | Some (status, r) \<Rightarrow> map_option (\<lambda>(ls, r'). (status, ls, r')) (read_multiline r))"

text \<open>The lines of a text: LF ends a line, a CR right before it is part of the line end.\<close>

definition strip_cr :: "bytes \<Rightarrow> bytes" where
  "strip_cr l = (if l \<noteq> [] \<and> last l = CR then butlast l else l)"

fun lines_from :: "bytes \<Rightarrow> bytes \<Rightarrow> bytes list" where
  "lines_from acc [] = (if acc = [] then [] else [acc])"
| "lines_from acc (b # s) =
     (if b = LF then strip_cr acc # lines_from [] s else lines_from (acc @ [b]) s)"

definition text_lines :: "bytes \<Rightarrow> bytes list" where
  "text_lines s = lines_from [] s"

section \<open>Stuffing and unstuffing\<close>

lemma read_crlf_line:
  assumes "\<not> sublist CRLF (l @ [CR])"
  shows "read_crlf (l @ CRLF @ r) = Some (l, r)"
  using assms
proof (induction l)
  case (Cons b l)
  have "\<not> (b = CR \<and> hd (l @ CRLF @ r) = LF)"
    using Cons.prems by (cases l) (auto simp: sublist_Cons_right)
  with Cons show ?case by (auto simp: sublist_Cons_right)
qed simp

text \<open>What the loop emits for a line without a line feed.\<close>

definition stuffed :: "bytes \<Rightarrow> bytes" where
  "stuffed l = (if l \<noteq> [] \<and> hd l = CHR ''.'' then CHR ''.'' # l else l)"

lemma unstuff_stuffed: "unstuff (stuffed l) = l"
  by (simp add: unstuff_def stuffed_def)

lemma stuffed_not_dot: "stuffed l \<noteq> ''.''"
  by (cases l) (auto simp: stuffed_def)

lemma wire_loop_line:
  "LF \<notin> set l \<Longrightarrow>
     wire_loop False p (l @ LF # s) =
       l @ (if last (p # l) = CR then [LF] else CRLF) @ wire_loop True LF s"
  by (induction l arbitrary: p) auto

lemma wire_loop_tail: "LF \<notin> set l \<Longrightarrow> wire_loop False p l = l"
  by (induction l arbitrary: p) auto

lemma wire_body_tail: "LF \<notin> set l \<Longrightarrow> wire_loop True p l = stuffed l"
  by (cases l) (auto simp: stuffed_def wire_loop_tail)

lemma wire_body_line:
  assumes "LF \<notin> set l" "p \<noteq> CR"
  shows "wire_loop True p (l @ LF # s) = stuffed (strip_cr l) @ CRLF @ wire_loop True LF s"
proof (cases l)
  case Nil
  with assms show ?thesis by (simp add: stuffed_def strip_cr_def)
next
  case (Cons b l')
  with assms have w: "wire_loop True p (l @ LF # s) =
      (if b = CHR ''.'' then ''.'' else []) @ b # l' @ (if last l = CR then [LF] else CRLF) @ wire_loop True LF s"
    using wire_loop_line [of l' b s] by auto
  show ?thesis
  proof (cases "last l = CR")
    case True
    then have "b # l' = strip_cr l @ [CR]"
      using Cons append_butlast_last_id [of l] by (simp add: strip_cr_def)
    with w True show ?thesis by (cases "strip_cr l") (auto simp: stuffed_def)
  next
    case False
    with w Cons show ?thesis by (auto simp: stuffed_def strip_cr_def)
  qed
qed

lemma LF_split: "LF \<in> set s \<Longrightarrow> \<exists>l r. s = l @ LF # r \<and> LF \<notin> set l"
  by (rule split_list_first)

lemma lines_from_line: "LF \<notin> set l \<Longrightarrow> lines_from acc (l @ LF # s) = strip_cr (acc @ l) # lines_from [] s"
  by (induction l arbitrary: acc) auto

lemma lines_from_tail: "LF \<notin> set l \<Longrightarrow> lines_from acc l = (if acc @ l = [] then [] else [acc @ l])"
  by (induction l arbitrary: acc) auto

lemma no_crlf_stuffed: "LF \<notin> set l \<Longrightarrow> \<not> sublist CRLF (stuffed l @ [CR])"
  using set_mono_sublist [of CRLF "stuffed l @ [CR]"] by (auto simp: stuffed_def split: if_splits)

lemma set_strip_cr: "LF \<notin> set l \<Longrightarrow> LF \<notin> set (strip_cr l)"
  by (auto simp: strip_cr_def dest: in_set_butlastD)

lemma read_multiline_line:
  assumes "LF \<notin> set l"
  shows "read_multiline (stuffed l @ CRLF @ s) = map_option (\<lambda>(ls, r). (l # ls, r)) (read_multiline s)"
  using read_crlf_line [OF no_crlf_stuffed [OF assms], of s] stuffed_not_dot [of l]
  by (subst read_multiline.simps) (simp add: unstuff_stuffed)

lemma read_multiline_end: "read_multiline (''.'' @ CRLF @ r) = Some ([], r)"
  by (simp add: read_multiline.simps)

text \<open>The text on the wire, closed by a CRLF unless its last line is complete.\<close>

definition closed_wire :: "bytes \<Rightarrow> bytes" where
  "closed_wire s = wire_loop True LF s @ (if s = [] \<or> last s = LF then [] else CRLF)"

lemma read_closed_wire:
  "read_multiline (closed_wire s @ ''.'' @ CRLF @ r) = Some (text_lines s, r)"
proof (induction "length s" arbitrary: s rule: less_induct)
  case less
  show ?case
  proof (cases "LF \<in> set s")
    case False
    then show ?thesis
      using read_multiline_line [OF False, of "''.'' @ CRLF @ r"] read_multiline_end [of r]
      by (cases "s = []")
        (auto simp: closed_wire_def wire_body_tail text_lines_def lines_from_tail dest: last_in_set)
  next
    case True
    then obtain l t where s: "s = l @ LF # t" "LF \<notin> set l" by (auto dest: LF_split)
    have "closed_wire s = stuffed (strip_cr l) @ CRLF @ closed_wire t"
      using wire_body_line [OF s(2), of LF t] by (auto simp: closed_wire_def s)
    moreover have "text_lines s = strip_cr l # text_lines t"
      using s lines_from_line [of l "[]" t] by (simp add: text_lines_def)
    ultimately show ?thesis
      using less [of t] s read_multiline_line [OF set_strip_cr [OF s(2)]] by simp
  qed
qed

lemma wire_loop_start: "wire_loop True p s = wire_loop True q s" if "p \<noteq> CR" "q \<noteq> CR"
  using that by (cases s) auto

lemma wire_loop_append:
  "s \<noteq> [] \<Longrightarrow> last s = LF \<Longrightarrow> wire_loop a p (s @ t) = wire_loop a p s @ wire_loop True LF t"
  by (induction s arbitrary: a p) (auto split: if_splits)

lemma wire_loop_nonempty: "wire_loop a p s = [] \<longleftrightarrow> s = []"
  by (cases s) auto

lemma last_wire_loop: "s \<noteq> [] \<Longrightarrow> last (wire_loop a p s) = last s"
  by (induction s arbitrary: a p) (auto simp: wire_loop_nonempty)

lemma wire_loop_snoc:
  "wire_loop a p (s @ [b]) = wire_loop a p s @ (if b = LF \<and> last (p # s) \<noteq> CR then [CR] else []) @
     (if (if s = [] then a else last s = LF) \<and> b = CHR ''.'' then ''.'' else []) @ [b]"
  by (induction s arbitrary: a p) auto

lemma ends_with_snoc: "ends_with (s @ [b]) CRLF \<longleftrightarrow> b = LF \<and> s \<noteq> [] \<and> last s = CR"
  by (cases s rule: rev_cases) (auto simp: ends_with_def suffix_def)

lemma wire_ends:
  assumes "s \<noteq> []" "p \<noteq> CR"
  shows "ends_with (u @ wire_loop a p s) CRLF \<longleftrightarrow> last s = LF"
proof -
  obtain t b where s: "s = t @ [b]" using assms(1) by (cases s rule: rev_cases) auto
  show ?thesis
  proof (cases "b = LF")
    case False
    have "u @ wire_loop a p s = (u @ butlast (wire_loop a p s)) @ [last (wire_loop a p s)]"
      using assms(1) by (simp add: wire_loop_nonempty)
    with False s show ?thesis by (simp only: ends_with_snoc) (simp add: last_wire_loop)
  next
    case True
    let ?c = "if last (p # t) \<noteq> CR then [CR] else []"
    have w: "u @ wire_loop a p s = (u @ wire_loop a p t @ ?c) @ [LF]"
      using s True by (simp add: wire_loop_snoc)
    have "last (u @ wire_loop a p t @ ?c) = CR \<and> u @ wire_loop a p t @ ?c \<noteq> []"
      using assms(2) by (cases "t = []") (auto simp: last_wire_loop wire_loop_nonempty)
    with s True show ?thesis unfolding w by (simp only: ends_with_snoc) simp
  qed
qed

section \<open>Responses\<close>

lemma take_lines_loop_split:
  "0 < n \<Longrightarrow> LF \<notin> set l \<Longrightarrow>
     take_lines_loop n (l @ LF # s) = l @ LF # (if n \<le> 1 then [] else take_lines_loop (n - 1) s)"
  by (induction l) auto

lemma take_lines_loop_tail: "LF \<notin> set l \<Longrightarrow> take_lines_loop n l = l"
  by (induction l) auto

lemma text_lines_line: "LF \<notin> set l \<Longrightarrow> text_lines (l @ LF # s) = strip_cr l # text_lines s"
  by (simp add: text_lines_def lines_from_line)

lemma text_lines_Nil [simp]: "text_lines [] = []"
  by (simp add: text_lines_def)

lemma text_lines_append:
  "h = [] \<or> last h = LF \<Longrightarrow> text_lines (h @ s) = text_lines h @ text_lines s"
proof (induction "length h" arbitrary: h rule: less_induct)
  case less
  show ?case
  proof (cases "h = []")
    case True
    then show ?thesis by (simp add: text_lines_def)
  next
    case False
    with less.prems have "LF \<in> set h" using last_in_set by force
    then obtain l t where h: "h = l @ LF # t" "LF \<notin> set l" by (auto dest: LF_split)
    from less.prems False h have "t = [] \<or> last t = LF" by (auto split: if_splits)
    with less.hyps [of t] h show ?thesis by (simp add: text_lines_line)
  qed
qed

lemma take_lines_loop_lines: "0 < n \<Longrightarrow> text_lines (take_lines_loop n s) = take n (text_lines s)"
proof (induction "length s" arbitrary: s n rule: less_induct)
  case less
  show ?case
  proof (cases "LF \<in> set s")
    case False
    with less.prems show ?thesis
      by (cases n) (auto simp: take_lines_loop_tail text_lines_def lines_from_tail)
  next
    case True
    then obtain l t where s: "s = l @ LF # t" "LF \<notin> set l" by (auto dest: LF_split)
    have t: "text_lines (take_lines_loop (n - 1) t) = take (n - 1) (text_lines t)" if "1 < n"
      using less.hyps [of t "n - 1"] s that by simp
    show ?thesis
    proof (cases "n \<le> 1")
      case True
      with less.prems have "n = 1" by simp
      with s show ?thesis by (simp add: take_lines_loop_split text_lines_line)
    next
      case False
      with s t less.prems show ?thesis
        by (cases n) (simp_all add: take_lines_loop_split text_lines_line)
    qed
  qed
qed

lemma take_lines_lines: "text_lines (take_lines s n) = take n (text_lines s)"
  by (simp add: take_lines_def take_lines_loop_lines)

lemma wire_body_closed:
  "wire_body s @ (if ends_with (u @ wire_body s) CRLF then [] else CRLF) =
     closed_wire s @ (if s = [] \<and> \<not> ends_with u CRLF then CRLF else [])"
proof (cases "s = []")
  case True
  then show ?thesis by (simp add: wire_body_def closed_wire_def)
next
  case False
  have "wire_body s = wire_loop True LF s"
    unfolding wire_body_def by (rule wire_loop_start) simp_all
  with False wire_ends [of s LF u True] show ?thesis by (simp add: closed_wire_def)
qed

section \<open>Properties\<close>

lemma read_response_status:
  assumes "LF \<notin> set status" "read_multiline (w @ rest) = Some (ls, r)"
  shows "read_response (status @ CRLF @ w @ rest) = Some (status, ls, r)"
proof -
  have "\<not> sublist CRLF (status @ [CR])"
    using set_mono_sublist [of CRLF "status @ [CR]"] assms(1) by auto
  from read_crlf_line [OF this, of "w @ rest"] assms(2) show ?thesis
    unfolding read_response_def by simp
qed

text \<open>C27. What a client reads from a RETR response: the status line, then exactly the lines of
  the message (whatever its line endings and leading dots), then the rest of the stream. An
  empty message is sent as one empty line.\<close>

theorem retr_response_read:
  "read_response (retr_response sz body @ rest) =
     Some (''+OK '' @ show_nat (unat sz) @ '' octets'',
           if body = [] then [[]] else text_lines body, rest)"
proof -
  let ?st = "''+OK '' @ show_nat (unat sz) @ '' octets''"
  let ?w = "closed_wire body @ (if body = [] then CRLF else []) @ ''.'' @ CRLF"
  have r: "retr_response sz body @ rest = ?st @ CRLF @ ?w @ rest"
    using wire_body_closed [of body "[]"] by (simp add: retr_response_def Let_def ends_with_def)
  have st: "LF \<notin> set ?st" by (auto dest!: show_nat_digits simp: rust_simps)
  have "read_multiline (?w @ rest) = Some (if body = [] then [[]] else text_lines body, rest)"
    using read_closed_wire [of body rest] read_multiline_line [of "[]" "''.'' @ CRLF @ rest"]
      read_multiline_end [of rest]
    by (auto simp: closed_wire_def stuffed_def)
  from read_response_status [OF st this] show ?thesis unfolding r .
qed

text \<open>C28. What a client reads from a TOP response, for a header part that ends with a newline:
  the lines of the header followed by the first \<open>n\<close> lines of the body, then the rest of the
  stream.\<close>

theorem top_response_read:
  assumes "h = [] \<or> last h = LF"
  shows "read_response (top_response h body n @ rest) =
    Some (''+OK'', text_lines h @ take n (text_lines body), rest)"
proof -
  let ?b = "take_lines body n"
  have w: "wire_body h @ wire_body ?b = wire_body (h @ ?b)"
    using assms wire_loop_append [of h True "CHR 0x00" ?b] wire_loop_start [of LF "CHR 0x00" ?b]
    by (cases "h = []") (auto simp: wire_body_def)
  have r: "top_response h body n @ rest = ''+OK'' @ CRLF @ (closed_wire (h @ ?b) @ ''.'' @ CRLF) @ rest"
    using wire_body_closed [of "h @ ?b" "''+OK'' @ CRLF"]
    by (simp add: top_response_def Let_def w [symmetric] ends_with_def suffix_def)
  have l: "text_lines (h @ ?b) = text_lines h @ text_lines ?b"
    using assms by (rule text_lines_append)
  from read_response_status [of "''+OK''" "closed_wire (h @ ?b) @ ''.'' @ CRLF" rest]
    read_closed_wire [of "h @ ?b" rest] l take_lines_lines [of body n]
  show ?thesis unfolding r by simp
qed

theorem top_response_read_witness:
  "last (''A: b'' @ CRLF) = LF \<and>
   read_response (top_response (''A: b'' @ CRLF) (''.x'' @ CRLF @ ''y'') 1) = Some (''+OK'', [''A: b'', ''.x''], [])"
  using top_response_read [of "''A: b'' @ CRLF" "''.x'' @ CRLF @ ''y''" 1 "[]"]
  by (simp add: text_lines_def strip_cr_def)

end
