(* ===== verification/Pop3_Commands.thy ===== *)
theory Pop3_Commands
  imports Pop3_Wire Utf8
begin

text \<open>
  The commands of the POP3 server (\<open>crates/pop3/src\<close>): the parser, the verbs, the replies that
  depend on the list of messages (\<open>cmd_stat.rs\<close>, \<open>cmd_list.rs\<close>, \<open>cmd_uidl.rs\<close>, \<open>cmd_dele.rs\<close>,
  \<open>cmd_rset.rs\<close>), the fixed replies, and the SASL exchange (\<open>cmd_auth.rs\<close>), whose base64 codec is
  a parameter.
\<close>

section \<open>Parsing\<close>

record parsed_command =
  pc_verb :: bytes
  pc_rest :: bytes
  pc_args :: "bytes list"

definition strip_crlf :: "bytes \<Rightarrow> bytes" where
  "strip_crlf line =
    (let end1 = (if 0 < length line \<and> line ! (length line - 1) = LF then length line - 1 else length line);
         end2 = (if 0 < end1 \<and> line ! (end1 - 1) = CR then end1 - 1 else end1)
     in take end2 line)"

definition parse_command :: "bytes \<Rightarrow> parsed_command" where
  "parse_command line0 =
    (let text = utf8_lossy (strip_crlf line0);
         trimmed = trim_start text;
         (verb, rest) = (case split_once_whitespace trimmed of
             Some (verb, rest) \<Rightarrow> (verb, trim_start rest)
           | None \<Rightarrow> (trimmed, []))
     in \<lparr>pc_verb = verb, pc_rest = rest, pc_args = split_whitespace rest\<rparr>)"

text \<open>\<open>str::parse\<close> for an unsigned integer of the given width.\<close>

definition parse_uint :: "nat \<Rightarrow> bytes \<Rightarrow> nat option" where
  "parse_uint width s =
    (let ds = (case s of c # r \<Rightarrow> if c = CHR ''+'' then r else s | [] \<Rightarrow> []) in
     if ds = [] \<or> \<not> list_all is_ascii_digit ds \<or> 2 ^ width \<le> dec_val 0 ds then None
     else Some (dec_val 0 ds))"

datatype verb =
    User_Verb | Pass_Verb | Apop_Verb | Capa_Verb | Stls_Verb | Auth_Verb | Stat_Verb | List_Verb | Uidl_Verb
  | Retr_Verb | Top_Verb | Dele_Verb | Rset_Verb | Noop_Verb | Utf8_Verb | Quit_Verb | Unknown_Verb

definition verb_from_word :: "bytes \<Rightarrow> verb" where
  "verb_from_word word =
    (if word = [] \<or> 4 < length word then Unknown_Verb
     else let upper = map to_ascii_uppercase_byte word in
       if upper = ''USER'' then User_Verb
       else if upper = ''PASS'' then Pass_Verb
       else if upper = ''APOP'' then Apop_Verb
       else if upper = ''CAPA'' then Capa_Verb
       else if upper = ''STLS'' then Stls_Verb
       else if upper = ''AUTH'' then Auth_Verb
       else if upper = ''STAT'' then Stat_Verb
       else if upper = ''LIST'' then List_Verb
       else if upper = ''UIDL'' then Uidl_Verb
       else if upper = ''RETR'' then Retr_Verb
       else if upper = ''TOP'' then Top_Verb
       else if upper = ''DELE'' then Dele_Verb
       else if upper = ''RSET'' then Rset_Verb
       else if upper = ''NOOP'' then Noop_Verb
       else if upper = ''UTF8'' then Utf8_Verb
       else if upper = ''QUIT'' then Quit_Verb
       else Unknown_Verb)"

section \<open>Replies about the messages\<close>

record message_entry =
  me_number :: u32
  me_size :: u64
  me_uid :: bytes
  me_document_id :: u32
  me_deleted :: bool

definition show_u32 :: "u32 \<Rightarrow> bytes" where
  "show_u32 n = show_nat (unat n)"

definition stat_response :: "message_entry list \<Rightarrow> bytes" where
  "stat_response messages =
    (let live = filter (\<lambda>m. \<not> me_deleted m) messages;
         total_size = sum_list (map me_size live)
     in ''+OK '' @ show_nat (length live) @ '' '' @ show_nat (unat total_size) @ CRLF)"

definition list_all_response :: "message_entry list \<Rightarrow> bytes" where
  "list_all_response messages =
    (let live = filter (\<lambda>m. \<not> me_deleted m) messages;
         total_size = sum_list (map me_size live)
     in ''+OK '' @ show_nat (length live) @ '' messages ('' @ show_nat (unat total_size) @ '' octets)'' @ CRLF @
        concat (map (\<lambda>m. show_u32 (me_number m) @ '' '' @ show_nat (unat (me_size m)) @ CRLF) live) @
        ''.'' @ CRLF)"

definition list_one :: "message_entry list \<Rightarrow> u32 \<Rightarrow> bytes" where
  "list_one messages number =
    (case find (\<lambda>m. me_number m = number \<and> \<not> me_deleted m) messages of
       Some m \<Rightarrow> ''+OK '' @ show_u32 (me_number m) @ '' '' @ show_nat (unat (me_size m)) @ CRLF
     | None \<Rightarrow> ''-ERR no such message'' @ CRLF)"

definition uidl_all :: "message_entry list \<Rightarrow> bytes" where
  "uidl_all messages =
    ''+OK'' @ CRLF @
    concat (map (\<lambda>m. show_u32 (me_number m) @ '' '' @ me_uid m @ CRLF) (filter (\<lambda>m. \<not> me_deleted m) messages)) @
    ''.'' @ CRLF"

definition uidl_one :: "message_entry list \<Rightarrow> u32 \<Rightarrow> bytes" where
  "uidl_one messages number =
    (case find (\<lambda>m. me_number m = number \<and> \<not> me_deleted m) messages of
       Some m \<Rightarrow> ''+OK '' @ show_u32 (me_number m) @ '' '' @ me_uid m @ CRLF
     | None \<Rightarrow> ''-ERR no such message'' @ CRLF)"

text \<open>\<open>dele\<close> marks the first message with the number.\<close>

fun dele :: "u32 \<Rightarrow> message_entry list \<Rightarrow> bytes \<times> message_entry list" where
  "dele number [] = (''-ERR no such message'' @ CRLF, [])"
| "dele number (m # messages) =
    (if me_number m = number then
       (if \<not> me_deleted m then
          (''+OK message '' @ show_u32 number @ '' deleted'' @ CRLF, m\<lparr>me_deleted := True\<rparr> # messages)
        else (''-ERR message '' @ show_u32 number @ '' already deleted'' @ CRLF, m # messages))
     else (case dele number messages of (reply, rest) \<Rightarrow> (reply, m # rest)))"

definition rset :: "message_entry list \<Rightarrow> bytes \<times> message_entry list" where
  "rset messages =
    (let cleared = map (\<lambda>m. m\<lparr>me_deleted := False\<rparr>) messages;
         total_size = sum_list (map me_size cleared)
     in (''+OK maildrop has '' @ show_nat (length cleared) @ '' messages ('' @ show_nat (unat total_size) @
         '' octets)'' @ CRLF, cleared))"

section \<open>Fixed replies\<close>

definition noop_response :: bytes where
  "noop_response = ''+OK'' @ CRLF"

definition quit_response :: bytes where
  "quit_response = ''+OK IRIXMAIL POP3 signing off'' @ CRLF"

definition capa_response :: "bool \<Rightarrow> bytes" where
  "capa_response is_tls =
    ''+OK capabilities follow'' @ CRLF @
    (if is_tls then ''USER'' @ CRLF @ ''SASL PLAIN LOGIN'' @ CRLF else ''STLS'' @ CRLF) @
    ''TOP'' @ CRLF @ ''UIDL'' @ CRLF @ ''RESP-CODES'' @ CRLF @ ''PIPELINING'' @ CRLF @ ''EXPIRE NEVER'' @ CRLF @
    ''UTF8'' @ CRLF @ ''IMPLEMENTATION IRIXMAIL'' @ CRLF @ ''.'' @ CRLF"

datatype pass_outcome = Pass_Authenticated | Pass_Failed | Pass_Throttled | Pass_NeedUser | Pass_NeedTls | Pass_WrongState

fun pass_response :: "pass_outcome \<Rightarrow> bytes" where
  "pass_response Pass_Authenticated = ''+OK mailbox ready'' @ CRLF"
| "pass_response Pass_Failed = ''-ERR authentication failed'' @ CRLF"
| "pass_response Pass_Throttled = ''-ERR [AUTH] too many failed authentication attempts'' @ CRLF"
| "pass_response Pass_NeedUser = ''-ERR send USER first'' @ CRLF"
| "pass_response Pass_NeedTls = ''-ERR [AUTH] STLS required before PASS'' @ CRLF"
| "pass_response Pass_WrongState = ''-ERR already in the transaction state'' @ CRLF"

datatype user_outcome = User_Accepted | User_Empty | User_WrongState

fun user_response :: "user_outcome \<Rightarrow> bytes" where
  "user_response User_Accepted = ''+OK send PASS'' @ CRLF"
| "user_response User_Empty = ''-ERR username required'' @ CRLF"
| "user_response User_WrongState = ''-ERR already in the transaction state'' @ CRLF"

datatype stls_outcome = Stls_Ready | Stls_AlreadySecure | Stls_NotAvailable

fun stls_line :: "stls_outcome \<Rightarrow> bytes" where
  "stls_line Stls_Ready = ''+OK begin TLS negotiation'' @ CRLF"
| "stls_line Stls_AlreadySecure = ''-ERR TLS already active'' @ CRLF"
| "stls_line Stls_NotAvailable = ''-ERR TLS not available'' @ CRLF"

definition stls_upgrades :: "stls_outcome \<Rightarrow> bool" where
  "stls_upgrades r \<longleftrightarrow> r = Stls_Ready"

definition stls_reply :: "bool \<Rightarrow> bool \<Rightarrow> stls_outcome" where
  "stls_reply is_tls has_acceptor =
    (if is_tls then Stls_AlreadySecure else if \<not> has_acceptor then Stls_NotAvailable else Stls_Ready)"

section \<open>The SASL exchange\<close>

definition auth_list :: bytes where
  "auth_list = ''+OK'' @ CRLF @ ''PLAIN'' @ CRLF @ ''LOGIN'' @ CRLF @ ''.'' @ CRLF"

datatype mechanism = Plain_Mechanism | Login_Mechanism | Unsupported_Mechanism

definition mechanism_parse :: "bytes \<Rightarrow> mechanism" where
  "mechanism_parse name =
    (if eq_ignore_ascii_case name ''PLAIN'' then Plain_Mechanism
     else if eq_ignore_ascii_case name ''LOGIN'' then Login_Mechanism
     else Unsupported_Mechanism)"

record sasl_credentials =
  sa_username :: bytes
  sa_password :: bytes

datatype sasl_step = Challenge bytes | Resolved sasl_credentials | Sasl_Failed bytes

datatype sasl_state = PlainAwaitingResponse | LoginAwaitingUsername | LoginAwaitingPassword bytes

datatype sasl_start = Sasl_Reply bytes | Sasl_Continue sasl_state sasl_step

text \<open>\<open>STANDARD.encode\<close> and \<open>STANDARD.decode\<close>.\<close>

record base64 =
  b64_encode :: "bytes \<Rightarrow> bytes"
  b64_decode :: "bytes \<Rightarrow> bytes option"

definition decode_plain :: "bytes \<Rightarrow> sasl_credentials option" where
  "decode_plain payload =
    (case split_once (\<lambda>b. b = CHR 0x00) payload of
       None \<Rightarrow> None
     | Some (authzid, rest) \<Rightarrow>
         (case split_once (\<lambda>b. b = CHR 0x00) rest of
            None \<Rightarrow> None
          | Some (authcid, password) \<Rightarrow>
              if CHR 0x00 \<in> set password then None
              else if utf8_valid authcid \<and> utf8_valid password
              then Some \<lparr>sa_username = authcid, sa_password = password\<rparr>
              else None))"

definition sasl_advance :: "base64 \<Rightarrow> sasl_state \<Rightarrow> bytes \<Rightarrow> sasl_step \<times> sasl_state" where
  "sasl_advance B st response =
    (case b64_decode B (trim response) of
       None \<Rightarrow> (Sasl_Failed ''invalid base64 in authentication response'', st)
     | Some decoded \<Rightarrow>
         (case st of
            PlainAwaitingResponse \<Rightarrow>
              (case decode_plain decoded of
                 Some c \<Rightarrow> (Resolved c, PlainAwaitingResponse)
               | None \<Rightarrow> (Sasl_Failed ''malformed PLAIN authentication response'', PlainAwaitingResponse))
          | LoginAwaitingUsername \<Rightarrow>
              if utf8_valid decoded
              then (Challenge (b64_encode B ''Password:''), LoginAwaitingPassword decoded)
              else (Sasl_Failed ''invalid username encoding'', PlainAwaitingResponse)
          | LoginAwaitingPassword username \<Rightarrow>
              if utf8_valid decoded
              then (Resolved \<lparr>sa_username = username, sa_password = decoded\<rparr>, PlainAwaitingResponse)
              else (Sasl_Failed ''invalid password encoding'', PlainAwaitingResponse)))"

definition sasl_begin :: "base64 \<Rightarrow> mechanism \<Rightarrow> bool \<Rightarrow> bytes option \<Rightarrow> sasl_start" where
  "sasl_begin B m is_tls initial =
    (if \<not> is_tls then Sasl_Reply (''-ERR [AUTH] STLS required before AUTH'' @ CRLF)
     else case m of
       Plain_Mechanism \<Rightarrow>
         (case initial of
            Some response \<Rightarrow>
              (case sasl_advance B PlainAwaitingResponse response of (step, st) \<Rightarrow> Sasl_Continue st step)
          | None \<Rightarrow> Sasl_Continue PlainAwaitingResponse (Challenge []))
     | Login_Mechanism \<Rightarrow>
         (case initial of
            Some response \<Rightarrow>
              (case sasl_advance B LoginAwaitingUsername response of (step, st) \<Rightarrow> Sasl_Continue st step)
          | None \<Rightarrow> Sasl_Continue LoginAwaitingUsername (Challenge (b64_encode B ''Username:'')))
     | Unsupported_Mechanism \<Rightarrow> Sasl_Reply (''-ERR unsupported authentication mechanism'' @ CRLF))"

end
