(* ===== verification/Store_Archive.thy ===== *)
theory Store_Archive
  imports Store_Trait
begin

text \<open>
  Archived values (\<open>crates/store/src/serialize.rs\<close>) over the library \<open>rkyv\<close>, and the trait of blob
  stores (\<open>traits_blob.rs\<close>).
\<close>

section \<open>Archives\<close>

text \<open>
  The functions of \<open>rkyv\<close> at one type: \<open>to_bytes\<close>, the validation of \<open>access\<close> and \<open>deserialize\<close>;
  errors are their messages.
\<close>

record 'a rkyv =
  rkyv_to_bytes :: "'a \<Rightarrow> bytes + bytes"
  rkyv_access :: "bytes \<Rightarrow> bytes option"
  rkyv_deserialize :: "bytes \<Rightarrow> bytes + 'a"

definition rkyv_archive :: "'a rkyv \<Rightarrow> 'a \<Rightarrow> error + bytes" where
  "rkyv_archive A x =
    (case rkyv_to_bytes A x of
       Inl err \<Rightarrow> Inl (Serialize_Error (''could not archive value: '' @ err))
     | Inr v \<Rightarrow> Inr v)"

definition deserialize :: "'a rkyv \<Rightarrow> bytes \<Rightarrow> error + 'a" where
  "deserialize A v =
    (case rkyv_access A v of
       Some err \<Rightarrow> Inl (Serialize_Error (''could not access archived value: '' @ err))
     | None \<Rightarrow>
         (case rkyv_deserialize A v of
            Inl err \<Rightarrow> Inl (Serialize_Error (''could not deserialize archived value: '' @ err))
          | Inr x \<Rightarrow> Inr x))"

lemma deserialize_Inr: "deserialize A v = Inr x \<longleftrightarrow> rkyv_access A v = None \<and> rkyv_deserialize A v = Inr x"
  by (auto simp: deserialize_def split: option.splits sum.splits)

text \<open>What is relied on: a value that was archived is read back.\<close>

definition rkyv_law :: "'a rkyv \<Rightarrow> bool" where
  "rkyv_law A \<longleftrightarrow> (\<forall>x v. rkyv_to_bytes A x = Inr v \<longrightarrow> rkyv_access A v = None \<and> rkyv_deserialize A v = Inr x)"

lemma deserialize_archive: "rkyv_law A \<Longrightarrow> rkyv_archive A x = Inr v \<Longrightarrow> deserialize A v = Inr x"
  by (auto simp: rkyv_law_def deserialize_Inr rkyv_archive_def split: sum.splits)

section \<open>Blob stores\<close>

record 'b blob_store =
  bs_get_all :: "'b \<Rightarrow> bytes \<Rightarrow> error + bytes option"
  bs_put :: "'b \<Rightarrow> bytes \<Rightarrow> (error + bytes) \<times> 'b"

end
