(* ===== verification/Mail_Store.thy ===== *)
theory Mail_Store
  imports Store_ChangeLog Store_Fts Store_Services Store_Archive "HOL-Library.AList"
begin

text \<open>
  The message store of an account (\<open>crates/mail/src\<close>: \<open>message_data.rs\<close>, \<open>metadata.rs\<close>, \<open>mailbox.rs\<close>,
  \<open>provision.rs\<close>, \<open>blob_store_msg.rs\<close>, the part of \<open>index.rs\<close> and \<open>read.rs\<close> that deletes a message,
  and the building of the cache in \<open>cache.rs\<close>).  The archive format (\<open>rkyv\<close>), the message parser (\<open>mail_parser\<close>)
  and the blob store behind its trait are parameters.
\<close>

section \<open>Records of a message\<close>

record mailbox_uid =
  mu_mailbox_id :: u32
  mu_uid :: u32

datatype keyword =
  Seen | Draft | Flagged | Answered | Deleted_Keyword | Recent | Junk | NotJunk | Forwarded | Custom bytes

record message_data =
  md_mailboxes :: "mailbox_uid list"
  md_keywords :: "keyword list"
  md_thread_id :: u32
  md_size :: u32
  md_received_at :: u64
  md_sent_at :: u64

record byte_range =
  br_start :: u32
  br_end :: u32

datatype part_encoding = No_Encoding | Base64_Encoding | QuotedPrintable_Encoding | Unknown_Encoding

datatype part_body = Text_Part | Html_Part | Binary_Part | InlineBinary_Part | Message_Part u32 | Multipart "u32 list"

datatype header_name =
    H_Subject | H_From | H_To | H_Cc | H_Bcc | H_ReplyTo | H_Sender | H_Date | H_MessageId | H_InReplyTo
  | H_References | H_ReturnPath | H_MimeVersion | H_ContentType | H_ContentTransferEncoding
  | H_ContentDisposition | H_ContentId | H_ContentDescription | H_ContentLanguage | H_ContentLocation
  | H_ListId | H_ListUnsubscribe | H_Other bytes

record part_header =
  ph_name :: header_name
  ph_value :: byte_range

record message_part =
  mp_headers :: "part_header list"
  mp_header :: byte_range
  mp_body :: byte_range
  mp_encoding :: part_encoding
  mp_kind :: part_body

record message_metadata =
  mm_blob_hash :: bytes
  mm_parts :: "message_part list"
  mm_raw_headers :: bytes
  mm_preview :: bytes

definition metadata_root :: "message_metadata \<Rightarrow> message_part option" where
  "metadata_root m = (case mm_parts m of [] \<Rightarrow> None | p # _ \<Rightarrow> Some p)"

section \<open>Mailboxes\<close>

datatype special_use = No_Use | Inbox_Use | Sent_Use | Drafts_Use | Trash_Use | Junk_Use | Archive_Use

record mailbox =
  mb_id :: u32
  mb_name :: bytes
  mb_role :: special_use
  mb_uid_validity :: u32

definition assign_uid_validity :: "u64 \<Rightarrow> u32" where
  "assign_uid_validity created_at_millis = ucast (created_at_millis div 1000)"

abbreviation INBOX_ID :: u32 where
  "INBOX_ID \<equiv> 1"

definition provision_mailboxes :: "u64 \<Rightarrow> mailbox list" where
  "provision_mailboxes created_at_millis =
    (let uid_validity = assign_uid_validity created_at_millis in
     map (\<lambda>(i, name, use). \<lparr>mb_id = i, mb_name = name, mb_role = use, mb_uid_validity = uid_validity\<rparr>)
       [(INBOX_ID, ''Inbox'', Inbox_Use), (2, ''Sent'', Sent_Use), (3, ''Drafts'', Drafts_Use),
        (4, ''Trash'', Trash_Use), (5, ''Spam'', Junk_Use)])"

section \<open>The environment\<close>

record message_text =
  mt_subject :: bytes
  mt_body :: bytes
  mt_from :: bytes
  mt_to :: bytes
  mt_cc :: bytes
  mt_bcc :: bytes

text \<open>
  What the message parser (\<open>mail_parser\<close>) finds: the subject, the text bodies at the positions that
  have one, and the names and addresses of the address headers.
\<close>

type_synonym mail_addresses = "(bytes option \<times> bytes option) list option"

record parsed_mail =
  pm_subject :: "bytes option"
  pm_bodies :: "bytes option list"
  pm_from :: mail_addresses
  pm_to :: mail_addresses
  pm_cc :: mail_addresses
  pm_bcc :: mail_addresses

definition push_with_space :: "bytes \<Rightarrow> bytes \<Rightarrow> bytes" where
  "push_with_space out text = (if out = [] then text else out @ '' '' @ text)"

definition addresses :: "mail_addresses \<Rightarrow> bytes" where
  "addresses address =
    (case address of
       None \<Rightarrow> []
     | Some addrs \<Rightarrow>
         fold (\<lambda>(name, value) out.
           let out1 = (case name of Some n \<Rightarrow> push_with_space out n | None \<Rightarrow> out)
           in case value of Some v \<Rightarrow> push_with_space out1 v | None \<Rightarrow> out1) addrs [])"

definition gather :: "parsed_mail \<Rightarrow> message_text" where
  "gather m =
    \<lparr>mt_subject = (case pm_subject m of Some t \<Rightarrow> t | None \<Rightarrow> []),
     mt_body = fold (\<lambda>part body. case part of
         Some t \<Rightarrow> (if body \<noteq> [] then body @ [LF] else body) @ t
       | None \<Rightarrow> body) (pm_bodies m) [],
     mt_from = addresses (pm_from m), mt_to = addresses (pm_to m), mt_cc = addresses (pm_cc m),
     mt_bcc = addresses (pm_bcc m)\<rparr>"

text \<open>\<open>me_parse\<close> is the parser, \<open>me_blob\<close> is \<open>get_all\<close> of the blob store.\<close>

record mail_env =
  me_data :: "message_data rkyv"
  me_metadata :: "message_metadata rkyv"
  me_fts :: fts_lib
  me_parse :: "bytes \<Rightarrow> parsed_mail option"
  me_blob :: "bytes \<Rightarrow> error + bytes option"

definition text_of_message :: "mail_env \<Rightarrow> bytes \<Rightarrow> error + message_text" where
  "text_of_message M r =
    (case me_parse M r of
       None \<Rightarrow> Inl (InvalidInput_Error ''message has no parseable headers'')
     | Some m \<Rightarrow> Inr (gather m))"

definition message_data_key :: "u32 \<Rightarrow> u32 \<Rightarrow> bytes" where
  "message_data_key a doc = key_encode (key_new Property a Email doc)"

definition metadata_key :: "u32 \<Rightarrow> u32 \<Rightarrow> bytes" where
  "metadata_key a doc = key_encode (with_suffix ''m'' (key_new Property a Email doc))"

definition load_data :: "mail_env \<Rightarrow> 's store \<Rightarrow> 's \<Rightarrow> u32 \<Rightarrow> u32 \<Rightarrow> error + message_data option" where
  "load_data M S s a doc =
    and_then (st_get S s (message_data_key a doc))
      (\<lambda>v. case v of Some b \<Rightarrow> and_then (deserialize (me_data M) b) (\<lambda>x. Inr (Some x)) | None \<Rightarrow> Inr None)"

definition load_metadata :: "mail_env \<Rightarrow> 's store \<Rightarrow> 's \<Rightarrow> u32 \<Rightarrow> u32 \<Rightarrow> error + message_metadata option" where
  "load_metadata M S s a doc =
    and_then (st_get S s (metadata_key a doc))
      (\<lambda>v. case v of Some b \<Rightarrow> and_then (deserialize (me_metadata M) b) (\<lambda>x. Inr (Some x)) | None \<Rightarrow> Inr None)"

section \<open>Blob references\<close>

definition ref_count_key :: "bytes \<Rightarrow> bytes" where
  "ref_count_key hash = key_encode (with_suffix hash (key_new BlobRef 0 Email 0))"

definition account_link_key :: "u32 \<Rightarrow> bytes \<Rightarrow> bytes" where
  "account_link_key a hash = key_encode (with_suffix hash (key_new BlobRef a Email 2))"

definition account_link_op :: "u32 \<Rightarrow> bytes \<Rightarrow> i64 \<Rightarrow> write_op" where
  "account_link_op a hash n = Add_Op (account_link_key a hash) n"

definition release_message :: "'s store \<Rightarrow> bytes \<Rightarrow> 's \<Rightarrow> (error + i64) \<times> 's" where
  "release_message S hash s =
    (case st_add_and_get S s (ref_count_key hash) (- 1) of
       (Inl e, s') \<Rightarrow> (Inl e, s')
     | (Inr remaining, s') \<Rightarrow> (Inr (smax remaining 0), s'))"

section \<open>Removing a message from the index\<close>

definition text_fields :: "message_text \<Rightarrow> (field \<times> bytes) list" where
  "text_fields t =
    [(Subject_Field, mt_subject t), (Body_Field, mt_body t), (From_Field, mt_from t), (To_Field, mt_to t),
     (Cc_Field, mt_cc t), (Bcc_Field, mt_bcc t)]"

definition text_spans :: "message_text \<Rightarrow> bytes list" where
  "text_spans t = map snd (filter (\<lambda>(f, span). span \<noteq> []) (text_fields t))"

definition index_entries :: "message_text \<Rightarrow> (field \<times> bytes) list" where
  "index_entries t =
    map (\<lambda>span. (Combined, span)) (text_spans t) @ filter (\<lambda>(f, span). span \<noteq> []) (text_fields t)"

definition unindex_ops ::
  "mail_env \<Rightarrow> 's store \<Rightarrow> 's \<Rightarrow> u32 \<Rightarrow> u32 \<Rightarrow> message_text \<Rightarrow> error + write_op list" where
  "unindex_ops M S s a doc t = remove_ops (me_fts M) S s a Email doc (index_entries t)"

section \<open>Deleting a message\<close>

record change_notice =
  cn_account_id :: u32
  cn_collection :: collection
  cn_change_id :: u64

text \<open>The operations for mailbox entries that are gone; each allocates a change identifier.\<close>

fun push_vanished_ops ::
  "'s store \<Rightarrow> u32 \<Rightarrow> mailbox_uid list \<Rightarrow> mailbox_uid list \<Rightarrow> 's \<Rightarrow> (error + write_op list) \<times> 's" where
  "push_vanished_ops S a [] kept s = (Inr [], s)"
| "push_vanished_ops S a (entry # before) kept s =
    (if entry \<notin> set kept then
       (case record_vanished_op S s a (mu_mailbox_id entry) (mu_uid entry) of
          (Inl e, s1) \<Rightarrow> (Inl e, s1)
        | (Inr (_, p), s1) \<Rightarrow>
            (case push_vanished_ops S a before kept s1 of
               (Inl e, s2) \<Rightarrow> (Inl e, s2)
             | (Inr ops, s2) \<Rightarrow> (Inr (p # ops), s2)))
     else push_vanished_ops S a before kept s)"

text \<open>
  The operations of \<open>delete_message\<close> that concern the full text and the blob: the unindexing where
  the blob is there and its text can be parsed, and the account's link to the blob.
\<close>

definition unlink_ops ::
  "mail_env \<Rightarrow> 's store \<Rightarrow> 's \<Rightarrow> u32 \<Rightarrow> u32 \<Rightarrow> message_metadata option \<Rightarrow> error + write_op list" where
  "unlink_ops M S s a doc metadata =
    (case metadata of
       None \<Rightarrow> Inr []
     | Some md \<Rightarrow>
         and_then (me_blob M (mm_blob_hash md)) (\<lambda>raw.
         and_then (case raw of
             Some r \<Rightarrow> (case text_of_message M r of Inr t \<Rightarrow> unindex_ops M S s a doc t | Inl _ \<Rightarrow> Inr [])
           | None \<Rightarrow> Inr []) (\<lambda>ops.
           Inr (ops @ [account_link_op a (mm_blob_hash md) (- 1)]))))"

definition delete_message ::
  "mail_env \<Rightarrow> 's store \<Rightarrow> u32 \<Rightarrow> u32 \<Rightarrow> 's \<times> change_notice list \<Rightarrow> (error + bool) \<times> ('s \<times> change_notice list)" where
  "delete_message M S a doc = (\<lambda>(s, notices).
    case load_data M S s a doc of
      Inl e \<Rightarrow> (Inl e, (s, notices))
    | Inr None \<Rightarrow> (Inr False, (s, notices))
    | Inr (Some md) \<Rightarrow>
        (case load_metadata M S s a doc of
           Inl e \<Rightarrow> (Inl e, (s, notices))
         | Inr metadata \<Rightarrow>
             (case unlink_ops M S s a doc metadata of
                Inl e \<Rightarrow> (Inl e, (s, notices))
              | Inr unlink \<Rightarrow>
                  (case push_vanished_ops S a (md_mailboxes md) [] s of
                     (Inl e, s1) \<Rightarrow> (Inl e, (s1, notices))
                   | (Inr vanished, s1) \<Rightarrow>
                       (case record_op S s1 a Email doc Delete of
                          (Inl e, s2) \<Rightarrow> (Inl e, (s2, notices))
                        | (Inr (change_id, change_op), s2) \<Rightarrow>
                            (case st_batch S s2 (unlink
                                @ [Delete_Op (message_data_key a doc), Delete_Op (metadata_key a doc)]
                                @ adjust_ops a (- ucast (md_size md)) (- 1) @ vanished @ [change_op]) of
                               (Inl e, s3) \<Rightarrow> (Inl e, (s3, notices))
                             | (Inr _, s3) \<Rightarrow>
                                 (case (case metadata of
                                          Some m \<Rightarrow> (case release_message S (mm_blob_hash m) s3 of
                                            (Inl e, s4) \<Rightarrow> (Inl e, s4) | (Inr _, s4) \<Rightarrow> (Inr (), s4))
                                        | None \<Rightarrow> (Inr (), s3)) of
                                    (Inl e, s4) \<Rightarrow> (Inl e, (s4, notices))
                                  | (Inr _, s4) \<Rightarrow>
                                      (Inr True, (s4, notices @ [\<lparr>cn_account_id = a, cn_collection = Email,
                                        cn_change_id = change_id\<rparr>]))))))))) "

section \<open>The cache\<close>

record message_cache_entry =
  mc_document_id :: u32
  mc_mailboxes :: "mailbox_uid list"
  mc_keywords :: "keyword list"
  mc_thread_id :: u32
  mc_size :: u32
  mc_received_at :: u64
  mc_sent_at :: u64

definition entry_from_data :: "u32 \<Rightarrow> message_data \<Rightarrow> message_cache_entry" where
  "entry_from_data doc md =
    \<lparr>mc_document_id = doc, mc_mailboxes = md_mailboxes md, mc_keywords = md_keywords md,
     mc_thread_id = md_thread_id md, mc_size = md_size md, mc_received_at = md_received_at md,
     mc_sent_at = md_sent_at md\<rparr>"

definition entry_in_mailbox :: "message_cache_entry \<Rightarrow> u32 \<Rightarrow> bool" where
  "entry_in_mailbox e mailbox_id = list_ex (\<lambda>m. mu_mailbox_id m = mailbox_id) (mc_mailboxes e)"

definition entry_uid_in :: "message_cache_entry \<Rightarrow> u32 \<Rightarrow> u32 option" where
  "entry_uid_in e mailbox_id = map_option mu_uid (find (\<lambda>m. mu_mailbox_id m = mailbox_id) (mc_mailboxes e))"

text \<open>
  The map of entries is an association list with one entry per document; the iteration order of
  the source's hash map is unspecified.
\<close>

record message_store_cache =
  sc_account_id :: u32
  sc_entries :: "(u32 \<times> message_cache_entry) list"
  sc_last_change_id :: u64

abbreviation DOCUMENT_ID_OFFSET :: nat where
  "DOCUMENT_ID_OFFSET \<equiv> 1 + 4 + 1"

definition document_id_of :: "bytes \<Rightarrow> error + u32" where
  "document_id_of k =
    (if length k < DOCUMENT_ID_OFFSET + 4
     then Inl (Store_Error ''message property key is too short to carry a document id'')
     else Inr (of_nat (from_be (take 4 (drop DOCUMENT_ID_OFFSET k)))))"

definition cache_visit :: "mail_env \<Rightarrow> ((u32 \<times> message_cache_entry) list \<times> error option) visitor" where
  "cache_visit M k v = (\<lambda>(entries, err).
    if length k \<noteq> DOCUMENT_ID_OFFSET + 4 then Inr (Continue, (entries, err))
    else case document_id_of k of
      Inl e \<Rightarrow> Inr (Stop, (entries, Some e))
    | Inr doc \<Rightarrow>
        (case deserialize (me_data M) v of
           Inr md \<Rightarrow> Inr (Continue, (AList.update doc (entry_from_data doc md) entries, err))
         | Inl e \<Rightarrow> Inr (Stop, (entries, Some e))))"

definition cache_build :: "mail_env \<Rightarrow> 's store \<Rightarrow> 's \<Rightarrow> u32 \<Rightarrow> error + message_store_cache" where
  "cache_build M S s a =
    and_then (latest_change_id S s a Email) (\<lambda>last_change_id.
    and_then (visit_rows (cache_visit M) (st_iterate S s (prefix_collection Property a Email)) ([], None))
      (\<lambda>(entries, err). case err of
          Some e \<Rightarrow> Inl e
        | None \<Rightarrow> Inr \<lparr>sc_account_id = a, sc_entries = entries, sc_last_change_id = last_change_id\<rparr>))"

section \<open>What deleting does to the store\<close>

text \<open>Message records live in the property subspace; all counters can be read.\<close>

definition prop_key :: "bytes \<Rightarrow> bool" where
  "prop_key k \<longleftrightarrow> prefix [subspace_byte Property] k"

definition counters_ok :: "content \<Rightarrow> bool" where
  "counters_ok m \<longleftrightarrow> (\<forall>k. countable_key k \<longrightarrow> counter_at m k \<noteq> None)"

text \<open>Operations that count on counters and touch no message record.\<close>

definition off_record :: "write_op \<Rightarrow> bool" where
  "off_record p =
    (case p of
       Set_Op k _ \<Rightarrow> \<not> prop_key k \<and> \<not> countable_key k
     | Delete_Op k \<Rightarrow> \<not> prop_key k \<and> \<not> countable_key k
     | Add_Op k _ \<Rightarrow> countable_key k)"

lemma off_record_simps [simp]:
  "off_record (Set_Op k v) \<longleftrightarrow> \<not> prop_key k \<and> \<not> countable_key k"
  "off_record (Delete_Op k) \<longleftrightarrow> \<not> prop_key k \<and> \<not> countable_key k"
  "off_record (Add_Op k n) \<longleftrightarrow> countable_key k"
  by (simp_all add: off_record_def)

lemma key_kinds [simp]:
  "prop_key (key_encode (with_suffix x (key_new sub a c i))) \<longleftrightarrow> sub = Property"
  "prop_key (key_encode (key_new sub a c i)) \<longleftrightarrow> sub = Property"
  "countable_key (key_encode (with_suffix x (key_new sub a c i))) \<longleftrightarrow> sub = Counter \<or> sub = BlobRef"
  "countable_key (key_encode (key_new sub a c i)) \<longleftrightarrow> sub = Counter \<or> sub = BlobRef"
  by (cases sub; simp add: prop_key_def key_encode_def countable_key_def)+

lemma countable_not_prop: "countable_key k \<Longrightarrow> \<not> prop_key k"
  by (cases k) (auto simp: countable_key_def prop_key_def)

lemma counters_ok_upd: "counters_ok m \<Longrightarrow> \<not> countable_key k \<Longrightarrow> counters_ok (m(k := v))"
  "counters_ok m \<Longrightarrow> counters_ok (m(k \<mapsto> le64 n))"
  by (auto simp: counters_ok_def counter_at_def)

lemma off_record_effect:
  "list_all off_record ops \<Longrightarrow> counters_ok m \<Longrightarrow>
    \<exists>m'. ops_effect ops m = Some m' \<and> counters_ok m' \<and> (\<forall>k. prop_key k \<longrightarrow> m' k = m k)"
proof (induction ops arbitrary: m)
  case (Cons p ops)
  have "\<exists>m1. op_effect p m = Some m1 \<and> counters_ok m1 \<and> (\<forall>k. prop_key k \<longrightarrow> m1 k = m k)"
  proof (cases p)
    case (Add_Op k n)
    then have k: "countable_key k"
      using Cons.prems(1) by simp
    then obtain c where "counter_at m k = Some c"
      using Cons.prems(2) by (auto simp: counters_ok_def)
    then show ?thesis
      using k Cons.prems(2) countable_not_prop [OF k] by (auto simp: Add_Op counters_ok_upd)
  qed (use Cons.prems in \<open>auto simp: counters_ok_upd\<close>)
  then obtain m1 where m1: "op_effect p m = Some m1" "counters_ok m1" "\<forall>k. prop_key k \<longrightarrow> m1 k = m k"
    by blast
  from Cons.IH [OF _ m1(2)] Cons.prems(1) obtain m'
    where "ops_effect ops m1 = Some m'" "counters_ok m'" "\<forall>k. prop_key k \<longrightarrow> m' k = m1 k"
    by auto
  then show ?case
    using m1 by simp
qed simp

lemma remove_ops_off_record:
  assumes "remove_ops_loop L S s doc ks = Inr ops" and "\<forall>k\<in>set ks. \<not> prop_key k \<and> \<not> countable_key k"
  shows "list_all off_record ops"
  using assms by (induction ks arbitrary: ops) (auto simp: and_then_eq_Inr split: if_splits)

lemma unlink_ops_off_record:
  assumes "unlink_ops M S s a doc metadata = Inr ops"
  shows "list_all off_record ops"
proof -
  have "list_all off_record xs" if "unindex_ops M S s a doc t = Inr xs" for t xs
  proof -
    have "\<forall>k\<in>set (term_keys (me_fts M) a Email (index_entries t)). \<not> prop_key k \<and> \<not> countable_key k"
      by (auto simp: term_keys_props(1) term_key_def)
    then show ?thesis
      using that remove_ops_off_record by (auto simp: unindex_ops_def remove_ops_def)
  qed
  note unindex = this
  show ?thesis
  proof (cases metadata)
    case (Some md)
    define inner where "inner raw = (case raw of
        Some r \<Rightarrow> (case text_of_message M r of Inr t \<Rightarrow> unindex_ops M S s a doc t | Inl _ \<Rightarrow> Inr [])
      | None \<Rightarrow> Inr [])" for raw
    from assms obtain raw xs where xs: "inner raw = Inr xs" and ops: "ops = xs @ [account_link_op a (mm_blob_hash md) (- 1)]"
      unfolding unlink_ops_def Some option.case inner_def [symmetric] by (auto simp: and_then_eq_Inr)
    have "list_all off_record xs"
      using xs unindex unfolding inner_def by (auto split: option.splits sum.splits)
    then show ?thesis
      by (simp add: ops account_link_op_def account_link_key_def)
  qed (use assms in \<open>simp add: unlink_ops_def\<close>)
qed

lemma adjust_ops_off_record: "list_all off_record (adjust_ops a b n)"
  by (simp add: adjust_ops_def bytes_key_def messages_key_def)

lemma data_keys [simp]:
  "prop_key (message_data_key a doc)" "prop_key (metadata_key a doc)"
  "message_data_key a doc = message_data_key a' doc' \<longleftrightarrow> a = a' \<and> doc = doc'"
  "metadata_key a doc = metadata_key a' doc' \<longleftrightarrow> a = a' \<and> doc = doc'"
  "message_data_key a doc \<noteq> metadata_key a' doc'" "metadata_key a doc \<noteq> message_data_key a' doc'"
  by (simp_all add: message_data_key_def metadata_key_def) (auto simp: with_suffix_def key_new_def)

context kv_store
begin

text \<open>A step that keeps the message records and the counters readable.\<close>

definition off_records :: "'s \<Rightarrow> 's \<Rightarrow> bool" where
  "off_records s s' \<longleftrightarrow>
    (counters_ok (content s) \<longrightarrow> counters_ok (content s')) \<and> (\<forall>k. prop_key k \<longrightarrow> content s' k = content s k)"

lemma off_records_refl: "off_records s s"
  by (simp add: off_records_def)

lemma off_records_trans: "off_records s s1 \<Longrightarrow> off_records s1 s' \<Longrightarrow> off_records s s'"
  by (simp add: off_records_def)

lemma add_off_records:
  assumes "st_add_and_get S s k n = (r, s')" and "\<not> prop_key k"
  shows "off_records s s'"
  using assms add_ok [of s k n _ s'] add_err [of s k n _ s']
  by (cases r) (auto simp: off_records_def counters_ok_upd)

lemma allocate_off_records: "allocate_change_id S s a c = (r, s') \<Longrightarrow> off_records s s'"
  by (auto simp: allocate_change_id_def counter_key_def split: prod.splits sum.splits intro!: add_off_records)

lemma record_op_off_record:
  assumes "record_op S s a c doc kind = (r, s')"
  shows "off_records s s'" and "r = Inr (i, p) \<Longrightarrow> off_record p"
  using assms allocate_off_records
  by (auto simp: record_op_def entry_key_def Let_def split: prod.splits sum.splits)

lemma push_vanished_off_record:
  assumes "push_vanished_ops S a before kept s = (r, s')"
  shows "off_records s s'" and "r = Inr ops \<Longrightarrow> list_all off_record ops"
proof -
  have "off_records s s' \<and> (\<forall>ops. r = Inr ops \<longrightarrow> list_all off_record ops)"
    using assms
  proof (induction before arbitrary: s r s')
    case Nil
    then show ?case
      using off_records_refl by auto
  next
    case (Cons entry before)
    show ?case
    proof (cases "entry \<in> set kept")
      case True
      then show ?thesis
        using Cons by simp
    next
      case False
      obtain r1 s1 where v: "record_vanished_op S s a (mu_mailbox_id entry) (mu_uid entry) = (r1, s1)"
        by (cases "record_vanished_op S s a (mu_mailbox_id entry) (mu_uid entry)")
      have v1: "off_records s s1" "r1 = Inr (i, p) \<Longrightarrow> off_record p" for i p
        using v allocate_off_records
        by (auto simp: record_vanished_op_def entry_key_def split: prod.splits sum.splits)
      obtain r2 s2 where p: "push_vanished_ops S a before kept s1 = (r2, s2)"
        by (cases "push_vanished_ops S a before kept s1")
      show ?thesis
        using Cons.IH [OF p] Cons.prems False v p v1 off_records_trans [OF v1(1)]
        by (auto split: sum.splits prod.splits)
    qed
  qed
  then show "off_records s s'" and "r = Inr ops \<Longrightarrow> list_all off_record ops"
    by blast+
qed

lemma release_off_records: "release_message S hash s = (r, s') \<Longrightarrow> off_records s s'"
  by (auto simp: release_message_def ref_count_key_def split: prod.splits sum.splits intro!: add_off_records)

text \<open>
  Deleting a message removes its two records and no other message record; where there is no
  message, nothing changes.
\<close>

lemma delete_batch_effect:
  assumes "st_batch S s (unlink @ [Delete_Op (message_data_key a doc), Delete_Op (metadata_key a doc)] @ rest) = (Inr u, s')"
    and "list_all off_record unlink" and "list_all off_record rest" and "counters_ok (content s)"
  shows "counters_ok (content s') \<and>
    (\<forall>k. prop_key k \<longrightarrow> content s' k = (if k = message_data_key a doc \<or> k = metadata_key a doc then None else content s k))"
proof -
  from off_record_effect [OF assms(2,4)] obtain m1
    where m1: "ops_effect unlink (content s) = Some m1" "counters_ok m1" "\<forall>k. prop_key k \<longrightarrow> m1 k = content s k"
    by blast
  let ?m = "m1(message_data_key a doc := None, metadata_key a doc := None)"
  have "\<not> countable_key (message_data_key a doc)" "\<not> countable_key (metadata_key a doc)"
    using countable_not_prop data_keys(1,2) by blast+
  then have "counters_ok ?m"
    using m1(2) by (intro counters_ok_upd(1)) simp_all
  from off_record_effect [OF assms(3) this] obtain m2
    where m2: "ops_effect rest ?m = Some m2" "counters_ok m2" "\<forall>k. prop_key k \<longrightarrow> m2 k = ?m k"
    by blast
  have "content s' = m2"
    using batch_ok [OF assms(1)] m1(1) m2(1) by (simp add: ops_effect_append)
  then show ?thesis
    using m1(3) m2(2,3) by simp
qed

lemma delete_message_effect:
  assumes "delete_message M S a doc (s, notices) = (Inr found, (s', notices'))" and "counters_ok (content s)"
  shows "counters_ok (content s') \<and>
    (found \<longleftrightarrow> content s (message_data_key a doc) \<noteq> None) \<and>
    (\<forall>k. prop_key k \<longrightarrow> content s' k =
      (if found \<and> (k = message_data_key a doc \<or> k = metadata_key a doc) then None else content s k))"
proof -
  from assms(1) obtain md where load: "load_data M S s a doc = Inr md"
    by (auto simp: delete_message_def split: sum.splits)
  have data: "content s (message_data_key a doc) \<noteq> None \<longleftrightarrow> md \<noteq> None"
    using load by (auto simp: load_data_def and_then_eq_Inr split: option.splits dest!: get_ok)
  show ?thesis
  proof (cases md)
    case None
    then show ?thesis
      using assms load data by (simp add: delete_message_def)
  next
    case (Some x)
    from assms(1) obtain metadata unlink vanished s1 change_id change_op s2 u s3
      where unlink: "unlink_ops M S s a doc metadata = Inr unlink"
      and van: "push_vanished_ops S a (md_mailboxes x) [] s = (Inr vanished, s1)"
      and rec: "record_op S s1 a Email doc Delete = (Inr (change_id, change_op), s2)"
      and batch: "st_batch S s2 (unlink @ [Delete_Op (message_data_key a doc), Delete_Op (metadata_key a doc)]
        @ adjust_ops a (- ucast (md_size x)) (- 1) @ vanished @ [change_op]) = (Inr u, s3)"
      and release: "(case metadata of Some m \<Rightarrow> (case release_message S (mm_blob_hash m) s3 of
          (Inl e, s4) \<Rightarrow> (Inl e, s4) | (Inr _, s4) \<Rightarrow> (Inr (), s4)) | None \<Rightarrow> (Inr (), s3)) = (Inr (), s')"
      and found: "found"
      using load Some by (auto simp: delete_message_def split: sum.splits prod.splits option.splits)
    have s2: "off_records s s2"
      using push_vanished_off_record(1) [OF van] record_op_off_record(1) [OF rec] off_records_trans by blast
    have ops: "list_all off_record unlink" "list_all off_record (adjust_ops a (- ucast (md_size x)) (- 1) @ vanished @ [change_op])"
      using unlink_ops_off_record [OF unlink] adjust_ops_off_record push_vanished_off_record(2) [OF van]
        record_op_off_record(2) [OF rec] by simp_all
    have "off_records s3 s'"
      using release release_off_records off_records_refl by (auto split: option.splits prod.splits sum.splits)
    moreover have "counters_ok (content s2)"
      using s2 assms(2) by (simp add: off_records_def)
    note delete_batch_effect [OF batch ops this]
    ultimately show ?thesis
      using s2 found data Some by (simp add: off_records_def)
  qed
qed

end

end
