(* ===== verification/Pop3_Session.thy ===== *)
theory Pop3_Session
  imports Pop3_Commands Directory_Login Mail_Store
begin

text \<open>
  A POP3 session (\<open>crates/pop3/src/session.rs\<close>): reading lines, dispatching commands, logging in,
  loading the messages of the inbox and committing deletions.  The client's bytes are the input
  of the session, every write is an entry of its output, and the store, the throttle and the
  notifications are the world it shares.  A computation ends with a value, an error or a panic.
\<close>

section \<open>Computations of a session\<close>

datatype fault = Failed error | Panicked

type_synonym ('s, 'a) action = "'s \<Rightarrow> (fault + 'a) \<times> 's"

definition done_with :: "'a \<Rightarrow> ('s, 'a) action" where
  "done_with x s = (Inr x, s)"

definition fail_with :: "error \<Rightarrow> ('s, 'a) action" where
  "fail_with e s = (Inl (Failed e), s)"

definition then_do :: "('s, 'a) action \<Rightarrow> ('a \<Rightarrow> ('s, 'b) action) \<Rightarrow> ('s, 'b) action" where
  "then_do m f s = (case m s of (Inl e, s') \<Rightarrow> (Inl e, s') | (Inr x, s') \<Rightarrow> f x s')"

text \<open>A result of the environment.\<close>

definition lift_result :: "error + 'a \<Rightarrow> ('s, 'a) action" where
  "lift_result r s = (case r of Inl e \<Rightarrow> (Inl (Failed e), s) | Inr x \<Rightarrow> (Inr x, s))"

section \<open>State\<close>

datatype pop3_state = Authorization | Transaction

record session_data =
  sd_user :: "bytes option"
  sd_is_tls :: bool
  sd_authenticated :: bool

datatype pop3_flow = Close_Flow | Upgrade_Flow

record 's world =
  w_store :: 's
  w_notices :: "change_notice list"
  w_throttle :: throttle

text \<open>
  The input is followed by the end of the stream or by an error; \<open>ps_out\<close> holds the writes.
\<close>

record 's pop3_session =
  ps_input :: bytes
  ps_input_error :: "error option"
  ps_out :: "bytes list"
  ps_state :: pop3_state
  ps_data :: session_data
  ps_greet :: bool
  ps_account :: "account option"
  ps_messages :: "message_entry list"
  ps_world :: "'s world"

text \<open>
  What the session is connected to: the store behind the directory and whether the directory, the
  blob store and the notifier are there, the login and mail environments, the client's address,
  base64, and the result of the n-th write.
\<close>

record ('s, 'h) pop3_env =
  pe_store :: "'s store"
  pe_has_directory :: bool
  pe_has_blobs :: bool
  pe_has_notifier :: bool
  pe_login :: "'h login_env"
  pe_mail :: mail_env
  pe_ip :: bytes
  pe_base64 :: base64
  pe_write :: "nat \<Rightarrow> error option"

definition session_new :: "bytes \<Rightarrow> error option \<Rightarrow> bool \<Rightarrow> bool \<Rightarrow> 's world \<Rightarrow> 's pop3_session" where
  "session_new inp err is_tls greet w =
    \<lparr>ps_input = inp, ps_input_error = err, ps_out = [], ps_state = Authorization,
     ps_data = \<lparr>sd_user = None, sd_is_tls = is_tls, sd_authenticated = False\<rparr>, ps_greet = greet,
     ps_account = None, ps_messages = [], ps_world = w\<rparr>"

section \<open>Input and output\<close>

definition MAX_LINE_LENGTH :: nat where
  "MAX_LINE_LENGTH = 1024"

definition GREETING :: bytes where
  "GREETING = ''+OK IRIXMAIL POP3 ready'' @ CRLF"

fun read_line_loop :: "error option \<Rightarrow> bytes \<Rightarrow> bytes \<Rightarrow> (error + bool \<times> bytes) \<times> bytes" where
  "read_line_loop err [] buf =
    (case err of None \<Rightarrow> (Inr (buf \<noteq> [], buf), []) | Some e \<Rightarrow> (Inl e, []))"
| "read_line_loop err (b # inp) buf =
    (if b = LF then (Inr (True, buf), inp)
     else if MAX_LINE_LENGTH \<le> length buf
     then (Inl (Protocol_Error ''command line exceeds the maximum length''), inp)
     else read_line_loop err inp (buf @ [b]))"

text \<open>The buffer is empty at every call.\<close>

definition read_line :: "('s pop3_session, bool \<times> bytes) action" where
  "read_line s =
    (case read_line_loop (ps_input_error s) (ps_input s) [] of
       (Inl e, inp) \<Rightarrow> (Inl (Failed e), s\<lparr>ps_input := inp\<rparr>)
     | (Inr r, inp) \<Rightarrow> (Inr r, s\<lparr>ps_input := inp\<rparr>))"

definition pop3_write :: "('s, 'h) pop3_env \<Rightarrow> bytes \<Rightarrow> ('s pop3_session, unit) action" where
  "pop3_write E reply s =
    (case pe_write E (length (ps_out s)) of
       Some e \<Rightarrow> (Inl (Failed e), s)
     | None \<Rightarrow> (Inr (), s\<lparr>ps_out := ps_out s @ [reply]\<rparr>))"

definition pop3_ok :: "('s, 'h) pop3_env \<Rightarrow> bytes \<Rightarrow> ('s pop3_session, unit) action" where
  "pop3_ok E text = pop3_write E (''+OK '' @ text @ CRLF)"

definition pop3_err :: "('s, 'h) pop3_env \<Rightarrow> bytes \<Rightarrow> ('s pop3_session, unit) action" where
  "pop3_err E text = pop3_write E (''-ERR '' @ text @ CRLF)"

section \<open>Login and mail\<close>

definition resolve_login ::
  "('s, 'h) pop3_env \<Rightarrow> bytes \<Rightarrow> bytes \<Rightarrow> ('s pop3_session, login_attempt) action" where
  "resolve_login E username password s =
    (if \<not> pe_has_directory E then (Inr Denied, s)
     else
       (let w = ps_world s in
        case attempt_login (pe_login E) (pe_store E) (w_store w) (Some (pe_ip E)) username password Mail_Purpose
            (w_throttle w) of
          (r, T) \<Rightarrow> lift_result r (s\<lparr>ps_world := w\<lparr>w_throttle := T\<rparr>\<rparr>)))"

definition message_context :: "('s, 'h) pop3_env \<Rightarrow> 's pop3_session \<Rightarrow> u32 option" where
  "message_context E s =
    (if \<not> pe_has_directory E then None
     else map_option (\<lambda>a. mail_account_id (ac_id a)) (ps_account s))"

definition maildrop_entries :: "message_store_cache \<Rightarrow> u32 \<Rightarrow> message_entry list" where
  "maildrop_entries c uid_validity =
    map (\<lambda>(index, uid, doc, sz).
        \<lparr>me_number = of_nat index + 1, me_size = ucast sz, me_uid = show_u32 uid_validity @ show_u32 uid,
         me_document_id = doc, me_deleted = False\<rparr>)
      (enumerate 0 (sort_key fst
        (List.map_filter (\<lambda>e. map_option (\<lambda>uid. (uid, mc_document_id e, mc_size e)) (entry_uid_in e INBOX_ID))
          (filter (\<lambda>e. entry_in_mailbox e INBOX_ID) (map snd (sc_entries c))))))"

definition load_maildrop :: "('s, 'h) pop3_env \<Rightarrow> ('s pop3_session, unit) action" where
  "load_maildrop E s =
    (case message_context E s of
       None \<Rightarrow> (Inr (), s)
     | Some account_id \<Rightarrow>
         (let created_at = (case ps_account s of Some a \<Rightarrow> ac_created_at a | None \<Rightarrow> 0);
              uid_validity = (case find (\<lambda>mb. mb_id mb = INBOX_ID) (provision_mailboxes created_at) of
                Some mb \<Rightarrow> mb_uid_validity mb | None \<Rightarrow> 0)
          in case cache_build (pe_mail E) (pe_store E) (w_store (ps_world s)) account_id of
               Inl e \<Rightarrow> (Inl (Failed e), s)
             | Inr c \<Rightarrow> (Inr (), s\<lparr>ps_messages := maildrop_entries c uid_validity\<rparr>)))"

definition load_body ::
  "('s, 'h) pop3_env \<Rightarrow> u32 \<Rightarrow> ('s pop3_session, (bytes \<times> (nat \<times> nat) \<times> (nat \<times> nat)) option) action" where
  "load_body E doc s =
    (case message_context E s of
       None \<Rightarrow> (Inr None, s)
     | Some account_id \<Rightarrow>
         if \<not> pe_has_blobs E then (Inr None, s)
         else lift_result
           (and_then (load_metadata (pe_mail E) (pe_store E) (w_store (ps_world s)) account_id doc) (\<lambda>metadata.
             case metadata of
               None \<Rightarrow> Inr None
             | Some md \<Rightarrow>
                 and_then (me_blob (pe_mail E) (mm_blob_hash md)) (\<lambda>raw.
                   case raw of
                     None \<Rightarrow> Inr None
                   | Some r \<Rightarrow>
                       Inr (Some (case metadata_root md of
                          Some root \<Rightarrow> (r, (unat (br_start (mp_header root)), unat (br_end (mp_header root))),
                            (unat (br_start (mp_body root)), unat (br_end (mp_body root))))
                        | None \<Rightarrow> (r, (0, 0), (0, length r))))))) s)"

text \<open>A slice that is out of range panics.\<close>

definition slice_of :: "bytes \<Rightarrow> nat \<times> nat \<Rightarrow> ('s, bytes) action" where
  "slice_of raw r s =
    (case r of (a, b) \<Rightarrow> if a \<le> b \<and> b \<le> length raw then (Inr (take (b - a) (drop a raw)), s) else (Inl Panicked, s))"

fun delete_each ::
  "('s, 'h) pop3_env \<Rightarrow> u32 \<Rightarrow> u32 list \<Rightarrow> 's \<times> change_notice list \<Rightarrow> (error + unit) \<times> ('s \<times> change_notice list)" where
  "delete_each E account_id [] w = (Inr (), w)"
| "delete_each E account_id (doc # docs) w =
    (case delete_message (pe_mail E) (pe_store E) account_id doc w of
       (Inl e, w') \<Rightarrow> (Inl e, w')
     | (Inr _, w') \<Rightarrow> delete_each E account_id docs w')"

definition commit_deletions :: "('s, 'h) pop3_env \<Rightarrow> ('s pop3_session, unit) action" where
  "commit_deletions E s =
    (case message_context E s of
       None \<Rightarrow> (Inr (), s)
     | Some account_id \<Rightarrow>
         if \<not> pe_has_blobs E \<or> \<not> pe_has_notifier E then (Inr (), s)
         else
           (let doomed = map me_document_id (filter me_deleted (ps_messages s));
                w = ps_world s
            in case delete_each E account_id doomed (w_store w, w_notices w) of
                 (Inl e, (st, ns)) \<Rightarrow> (Inl (Failed e), s\<lparr>ps_world := w\<lparr>w_store := st, w_notices := ns\<rparr>\<rparr>)
               | (Inr _, (st, ns)) \<Rightarrow>
                   (Inr (), s\<lparr>ps_world := w\<lparr>w_store := st, w_notices := ns\<rparr>,
                      ps_messages := filter (\<lambda>m. \<not> me_deleted m) (ps_messages s)\<rparr>)))"

section \<open>PASS and AUTH\<close>

definition run_pass :: "('s, 'h) pop3_env \<Rightarrow> bytes \<Rightarrow> ('s pop3_session, pass_outcome) action" where
  "run_pass E password s =
    (if ps_state s \<noteq> Authorization then (Inr Pass_WrongState, s)
     else case sd_user (ps_data s) of
       None \<Rightarrow> (Inr Pass_NeedUser, s)
     | Some username \<Rightarrow>
         if \<not> sd_is_tls (ps_data s) then (Inr Pass_NeedTls, s)
         else then_do (resolve_login E username password) (\<lambda>attempt s.
           case attempt of
             Granted a _ \<Rightarrow> (Inr Pass_Authenticated, s\<lparr>ps_account := Some a\<rparr>)
           | Denied \<Rightarrow> (Inr Pass_Failed, s)
           | Throttled \<Rightarrow> (Inr Pass_Throttled, s)) s)"

definition read_auth_response :: "('s pop3_session, bytes option) action" where
  "read_auth_response =
    then_do read_line (\<lambda>(got, line).
      if \<not> got then fail_with (Protocol_Error ''connection closed during AUTH'')
      else let response = trim (utf8_lossy line) in
        if response = ''*'' then done_with None else done_with (Some response))"

definition enter_transaction :: "'s pop3_session \<Rightarrow> 's pop3_session" where
  "enter_transaction s = s\<lparr>ps_state := Transaction, ps_data := (ps_data s)\<lparr>sd_authenticated := True\<rparr>\<rparr>"

definition auth_resolved ::
  "('s, 'h) pop3_env \<Rightarrow> sasl_credentials \<Rightarrow> ('s pop3_session, pop3_flow option) action" where
  "auth_resolved E c =
    then_do (resolve_login E (sa_username c) (sa_password c)) (\<lambda>attempt.
      case attempt of
        Granted a _ \<Rightarrow>
          then_do (\<lambda>s. load_maildrop E (enter_transaction (s\<lparr>ps_account := Some a\<rparr>))) (\<lambda>_.
          then_do (pop3_ok E ''mailbox ready'') (\<lambda>_. done_with None))
      | Denied \<Rightarrow> then_do (pop3_err E ''authentication failed'') (\<lambda>_. done_with None)
      | Throttled \<Rightarrow>
          then_do (pop3_err E ''[AUTH] too many failed authentication attempts'') (\<lambda>_. done_with None))"

text \<open>How many challenges an exchange can still pose.\<close>

fun challenges_left :: "sasl_state \<Rightarrow> sasl_step \<Rightarrow> nat" where
  "challenges_left LoginAwaitingUsername (Challenge c) = 2"
| "challenges_left st (Challenge c) = 1"
| "challenges_left st step = 0"

lemma challenges_left_advance:
  "sasl_advance B st response = (step, st') \<Longrightarrow> challenges_left st' step < challenges_left st (Challenge c)"
  by (cases st) (auto simp: sasl_advance_def split: option.splits if_splits)

function auth_loop ::
  "('s, 'h) pop3_env \<Rightarrow> sasl_state \<Rightarrow> sasl_step \<Rightarrow> 's pop3_session \<Rightarrow> (fault + pop3_flow option) \<times> 's pop3_session" where
  "auth_loop E st (Challenge c) s =
    (case pop3_write E (''+ '' @ c @ CRLF) s of
       (Inl e, s1) \<Rightarrow> (Inl e, s1)
     | (Inr _, s1) \<Rightarrow>
         (case read_auth_response s1 of
            (Inl e, s2) \<Rightarrow> (Inl e, s2)
          | (Inr None, s2) \<Rightarrow> then_do (pop3_err E ''authentication cancelled'') (\<lambda>_. done_with None) s2
          | (Inr (Some response), s2) \<Rightarrow>
              (case sasl_advance (pe_base64 E) st response of (step, st') \<Rightarrow> auth_loop E st' step s2)))"
| "auth_loop E st (Sasl_Failed reason) s = then_do (pop3_err E reason) (\<lambda>_. done_with None) s"
| "auth_loop E st (Resolved c) s = auth_resolved E c s"
  by pat_completeness auto
termination
  by (relation "measure (\<lambda>(E, st, step, s). challenges_left st step)") (auto intro: challenges_left_advance [OF sym])

definition run_auth :: "('s, 'h) pop3_env \<Rightarrow> parsed_command \<Rightarrow> ('s pop3_session, pop3_flow option) action" where
  "run_auth E command s =
    (if ps_state s \<noteq> Authorization
     then then_do (pop3_err E ''already in the transaction state'') (\<lambda>_. done_with None) s
     else case pc_args command of
       [] \<Rightarrow> then_do (pop3_write E auth_list) (\<lambda>_. done_with None) s
     | name # more_args \<Rightarrow>
         (case sasl_begin (pe_base64 E) (mechanism_parse name) (sd_is_tls (ps_data s)) (get_at more_args 0) of
            Sasl_Reply line \<Rightarrow> then_do (pop3_write E line) (\<lambda>_. done_with None) s
          | Sasl_Continue st step \<Rightarrow> auth_loop E st step s))"

section \<open>Dispatch\<close>

text \<open>Commands of the transaction state are refused before.\<close>

definition in_transaction ::
  "('s, 'h) pop3_env \<Rightarrow> ('s pop3_session, unit) action \<Rightarrow> ('s pop3_session, unit) action" where
  "in_transaction E m s = (if ps_state s \<noteq> Transaction then pop3_err E ''authenticate first'' s else m s)"

definition numbered_reply ::
  "('s, 'h) pop3_env \<Rightarrow> parsed_command \<Rightarrow> (message_entry list \<Rightarrow> u32 \<Rightarrow> bytes) \<Rightarrow> (message_entry list \<Rightarrow> bytes)
    \<Rightarrow> ('s pop3_session, unit) action" where
  "numbered_reply E command one_reply all_reply s =
    pop3_write E
      (case pc_args command of
         arg # _ \<Rightarrow>
           (case parse_uint 32 arg of
              Some number \<Rightarrow> one_reply (ps_messages s) (of_nat number)
            | None \<Rightarrow> ''-ERR invalid message number'' @ CRLF)
       | [] \<Rightarrow> all_reply (ps_messages s)) s"

text \<open>The message with the number in the given argument, if it is not deleted.\<close>

definition live_message :: "message_entry list \<Rightarrow> u32 \<Rightarrow> message_entry option" where
  "live_message messages number = find (\<lambda>m. me_number m = number \<and> \<not> me_deleted m) messages"

definition arg_u32 :: "parsed_command \<Rightarrow> nat \<Rightarrow> u32 option" where
  "arg_u32 command i = Option.bind (get_at (pc_args command) i) (\<lambda>arg. map_option of_nat (parse_uint 32 arg))"

definition run_retr :: "('s, 'h) pop3_env \<Rightarrow> parsed_command \<Rightarrow> ('s pop3_session, unit) action" where
  "run_retr E command s =
    (case Option.bind (arg_u32 command 0) (live_message (ps_messages s)) of
       None \<Rightarrow> pop3_write E no_such_message s
     | Some m \<Rightarrow>
         then_do (load_body E (me_document_id m)) (\<lambda>body.
           case body of
             Some (raw, _, _) \<Rightarrow> pop3_write E (retr_response (me_size m) raw)
           | None \<Rightarrow> pop3_write E no_such_message) s)"

definition run_top :: "('s, 'h) pop3_env \<Rightarrow> parsed_command \<Rightarrow> ('s pop3_session, unit) action" where
  "run_top E command s =
    (case (arg_u32 command 0, Option.bind (get_at (pc_args command) 1) (parse_uint 64)) of
       (Some number, Some lines) \<Rightarrow>
         (case live_message (ps_messages s) number of
            None \<Rightarrow> pop3_write E no_such_message s
          | Some m \<Rightarrow>
              then_do (load_body E (me_document_id m)) (\<lambda>body.
                case body of
                  Some (raw, header, text) \<Rightarrow>
                    then_do (slice_of raw header) (\<lambda>h.
                    then_do (slice_of raw text) (\<lambda>t.
                      pop3_write E (top_response h t lines)))
                | None \<Rightarrow> pop3_write E no_such_message) s)
     | _ \<Rightarrow> pop3_err E ''TOP expects a message number and line count'' s)"

definition run_dele :: "('s, 'h) pop3_env \<Rightarrow> parsed_command \<Rightarrow> ('s pop3_session, unit) action" where
  "run_dele E command s =
    (case arg_u32 command 0 of
       Some number \<Rightarrow>
         (case dele number (ps_messages s) of
            (reply, messages) \<Rightarrow> pop3_write E reply (s\<lparr>ps_messages := messages\<rparr>))
     | None \<Rightarrow> pop3_err E ''DELE expects a message number'' s)"

definition no_flow :: "('s pop3_session, unit) action \<Rightarrow> ('s pop3_session, pop3_flow option) action" where
  "no_flow m = then_do m (\<lambda>_. done_with None)"

definition dispatch :: "('s, 'h) pop3_env \<Rightarrow> parsed_command \<Rightarrow> ('s pop3_session, pop3_flow option) action" where
  "dispatch E command s =
    (case verb_from_word (pc_verb command) of
       User_Verb \<Rightarrow>
         no_flow (\<lambda>s.
           if ps_state s \<noteq> Authorization then pop3_write E (user_response User_WrongState) s
           else if trim (pc_rest command) = [] then pop3_write E (user_response User_Empty) s
           else pop3_write E (user_response User_Accepted)
             (s\<lparr>ps_data := (ps_data s)\<lparr>sd_user := Some (pc_rest command)\<rparr>\<rparr>)) s
     | Pass_Verb \<Rightarrow>
         then_do (run_pass E (pc_rest command)) (\<lambda>outcome.
         then_do (if outcome = Pass_Authenticated then (\<lambda>s. load_maildrop E (enter_transaction s)) else done_with ()) (\<lambda>_.
           no_flow (pop3_write E (pass_response outcome)))) s
     | Apop_Verb \<Rightarrow> no_flow (pop3_err E ''APOP is not supported'') s
     | Capa_Verb \<Rightarrow> no_flow (pop3_write E (capa_response (sd_is_tls (ps_data s)))) s
     | Stls_Verb \<Rightarrow>
         if \<not> sd_is_tls (ps_data s) \<and> ps_state s \<noteq> Authorization
         then no_flow (pop3_err E ''STLS not allowed now'') s
         else let reply = stls_reply (sd_is_tls (ps_data s)) True in
           then_do (pop3_write E (stls_line reply)) (\<lambda>_.
             done_with (if stls_upgrades reply then Some Upgrade_Flow else None)) s
     | Auth_Verb \<Rightarrow> run_auth E command s
     | Stat_Verb \<Rightarrow> no_flow (in_transaction E (\<lambda>s. pop3_write E (stat_response (ps_messages s)) s)) s
     | List_Verb \<Rightarrow> no_flow (in_transaction E (numbered_reply E command list_one list_all_response)) s
     | Uidl_Verb \<Rightarrow> no_flow (in_transaction E (numbered_reply E command uidl_one uidl_all)) s
     | Retr_Verb \<Rightarrow> no_flow (in_transaction E (run_retr E command)) s
     | Top_Verb \<Rightarrow> no_flow (in_transaction E (run_top E command)) s
     | Dele_Verb \<Rightarrow> no_flow (in_transaction E (run_dele E command)) s
     | Rset_Verb \<Rightarrow>
         no_flow (in_transaction E (\<lambda>s. case rset (ps_messages s) of
           (reply, messages) \<Rightarrow> pop3_write E reply (s\<lparr>ps_messages := messages\<rparr>))) s
     | Noop_Verb \<Rightarrow> no_flow (in_transaction E (pop3_write E noop_response)) s
     | Utf8_Verb \<Rightarrow> no_flow (pop3_ok E ''UTF8 enabled'') s
     | Quit_Verb \<Rightarrow>
         then_do (if ps_state s = Transaction then commit_deletions E else done_with ()) (\<lambda>_.
         then_do (pop3_write E quit_response) (\<lambda>_. done_with (Some Close_Flow))) s
     | Unknown_Verb \<Rightarrow> no_flow (pop3_err E ''unknown command'') s)"

section \<open>Frames\<close>

text \<open>A relation between the states before and after an action, whatever its result.\<close>

definition along :: "('s \<Rightarrow> 's \<Rightarrow> bool) \<Rightarrow> ('s, 'a) action \<Rightarrow> bool" where
  "along R m \<longleftrightarrow> (\<forall>s. R s (snd (m s)))"

lemma alongD: "along R m \<Longrightarrow> m s = (r, s') \<Longrightarrow> R s s'"
  by (auto simp: along_def dest: spec [of _ s])

lemma along_then_do:
  assumes "transp R" and "along R m" and "\<And>x. along R (f x)"
  shows "along R (then_do m f)"
  unfolding along_def
proof
  fix s
  obtain r s1 where m: "m s = (r, s1)"
    by (cases "m s")
  show "R s (snd (then_do m f s))"
    using alongD [OF assms(2) m] assms(3) transpD [OF assms(1)] m
    by (cases r) (auto simp: then_do_def along_def)
qed

lemma along_done: "reflp R \<Longrightarrow> along R (done_with x)" "reflp R \<Longrightarrow> along R (fail_with e)"
  "reflp R \<Longrightarrow> along R (lift_result r)" "reflp R \<Longrightarrow> along R (slice_of raw rg)"
  by (auto simp: along_def done_with_def fail_with_def lift_result_def slice_of_def reflpD split: sum.splits prod.splits)

text \<open>
  The frame of every command: input is only consumed, output only appended with status lines, and
  the transport stays what it is.  A status line is a final reply or a challenge.
\<close>

definition final_line :: "bytes \<Rightarrow> bool" where
  "final_line r \<longleftrightarrow> prefix ''+OK'' r \<or> prefix ''-ERR'' r"

definition status_line :: "bytes \<Rightarrow> bool" where
  "status_line r \<longleftrightarrow> final_line r \<or> prefix ''+ '' r"

lemma status_line_intros [simp]:
  "final_line r \<Longrightarrow> status_line r" "status_line (CHR ''+'' # CHR '' '' # x)"
  by (simp_all add: status_line_def)

definition frame :: "'s pop3_session \<Rightarrow> 's pop3_session \<Rightarrow> bool" where
  "frame s s' \<longleftrightarrow>
    length (ps_input s') \<le> length (ps_input s) \<and> sd_is_tls (ps_data s') = sd_is_tls (ps_data s) \<and>
    (\<exists>xs. ps_out s' = ps_out s @ xs \<and> list_all status_line xs)"

lemma frame_order: "reflp frame" "transp frame"
  by (fastforce intro!: reflpI transpI simp: frame_def)+

lemmas along_frame_intros = along_then_do [OF frame_order(2)] along_done [OF frame_order(1)]

lemma frame_same:
  "ps_input s' = ps_input s \<Longrightarrow> sd_is_tls (ps_data s') = sd_is_tls (ps_data s) \<Longrightarrow> ps_out s' = ps_out s \<Longrightarrow> frame s s'"
  by (simp add: frame_def)

lemma frame_refl [simp]: "frame s s"
  by (simp add: frame_def)

lemma along_write: "status_line r \<Longrightarrow> along frame (pop3_write E r)"
  by (auto simp: along_def pop3_write_def frame_def split: option.splits)

lemma read_line_loop_input: "read_line_loop err inp buf = (r, inp') \<Longrightarrow> length inp' \<le> length inp"
  by (induction err inp buf rule: read_line_loop.induct) (auto split: option.splits if_splits)

lemma along_read_line: "along frame read_line"
  unfolding along_def
proof
  fix s :: "'s pop3_session"
  obtain r inp where e: "read_line_loop (ps_input_error s) (ps_input s) [] = (r, inp)"
    by (cases "read_line_loop (ps_input_error s) (ps_input s) []")
  then show "frame s (snd (read_line s))"
    using read_line_loop_input [OF e] by (cases r) (simp_all add: read_line_def frame_def)
qed

lemma final_replies [simp]:
  "final_line (user_response u)" "final_line (pass_response p)" "final_line (capa_response tls)"
  "final_line (stls_line l)" "final_line auth_list" "final_line noop_response" "final_line quit_response"
  "final_line (stat_response ms)" "final_line (list_all_response ms)" "final_line (list_one ms n)"
  "final_line (uidl_all ms)" "final_line (uidl_one ms n)" "final_line (fst (rset ms))" "final_line (fst (dele n ms))"
  "final_line no_such_message" "final_line (retr_response z raw)" "final_line (top_response h t k)"
  "final_line GREETING" "final_line (CHR ''-'' # CHR ''E'' # CHR ''R'' # CHR ''R'' # x)"
  "final_line (CHR ''+'' # CHR ''O'' # CHR ''K'' # x)"
proof -
  show "final_line (user_response u)"
    by (cases u) (simp_all add: final_line_def)
  show "final_line (pass_response p)"
    by (cases p) (simp_all add: final_line_def)
  show "final_line (stls_line l)"
    by (cases l) (simp_all add: final_line_def)
  show "final_line (fst (dele n ms))"
    by (induction n ms rule: dele.induct) (auto simp: final_line_def split: prod.splits)
qed (auto simp: final_line_def capa_response_def auth_list_def noop_response_def quit_response_def stat_response_def
    list_all_response_def list_one_def uidl_all_def uidl_one_def rset_def no_such_message_def retr_response_def
    top_response_def GREETING_def Let_def split: option.splits)

lemma along_ok_err: "along frame (pop3_ok E t)" "along frame (pop3_err E t)"
  by (auto simp: pop3_ok_def pop3_err_def intro!: along_write)

lemma along_snd: "along R m \<Longrightarrow> R s (snd (m s))"
  by (simp add: along_def)

lemma along_then_done: "along frame m \<Longrightarrow> along frame (then_do m (\<lambda>_. done_with x))"
  by (intro along_frame_intros)

lemma along_pre:
  assumes "along frame m" and "\<And>s. frame s (f s)"
  shows "along frame (\<lambda>s. m (f s))"
  using assms transpD [OF frame_order(2)] unfolding along_def by blast

lemma along_resolve_login: "along frame (resolve_login E u p)"
  by (auto simp: along_def resolve_login_def Let_def lift_result_def intro!: frame_same split: prod.splits sum.splits)

lemma along_load: "along frame (load_maildrop E)" "along frame (load_body E doc)" "along frame (commit_deletions E)"
  by (auto simp: along_def load_maildrop_def load_body_def commit_deletions_def lift_result_def Let_def
      intro!: frame_same split: option.splits sum.splits prod.splits)

lemma frame_enter: "frame s (enter_transaction s)" "frame s (s\<lparr>ps_account := a\<rparr>)" "frame s (s\<lparr>ps_messages := ms\<rparr>)"
  "frame s (enter_transaction (s\<lparr>ps_account := a\<rparr>))" "frame s (s\<lparr>ps_data := (ps_data s)\<lparr>sd_user := u\<rparr>\<rparr>)"
  by (auto simp: enter_transaction_def intro!: frame_same)

lemma along_enter:
  "along frame (\<lambda>s. load_maildrop E (enter_transaction (s\<lparr>ps_account := a\<rparr>)))"
  "along frame (\<lambda>s. load_maildrop E (enter_transaction s))"
  by (rule along_pre [OF along_load(1) frame_enter(4)]) (rule along_pre [OF along_load(1) frame_enter(1)])

lemma along_run_pass: "along frame (run_pass E password)"
proof -
  have "along frame (then_do (resolve_login E username password) (\<lambda>attempt s.
      case attempt of
        Granted a _ \<Rightarrow> (Inr Pass_Authenticated, s\<lparr>ps_account := Some a\<rparr>)
      | Denied \<Rightarrow> (Inr Pass_Failed, s)
      | Throttled \<Rightarrow> (Inr Pass_Throttled, s)))" for username
    by (intro along_frame_intros along_resolve_login)
      (simp add: along_def frame_enter split: login_attempt.split)
  then show ?thesis
    by (simp add: along_def run_pass_def split: option.split)
qed

lemma along_read_auth_response: "along frame read_auth_response"
proof -
  have "along frame (case x of (got, line) \<Rightarrow>
      if \<not> got then fail_with (Protocol_Error ''connection closed during AUTH'')
      else let response = trim (utf8_lossy line) in
        if response = ''*'' then done_with None else done_with (Some response))" for x :: "bool \<times> bytes"
    by (simp only: Let_def split: prod.split if_split) (intro impI conjI allI along_done frame_order(1))
  then show ?thesis
    unfolding read_auth_response_def by (rule along_then_do [OF frame_order(2) along_read_line])
qed

lemma along_auth_resolved: "along frame (auth_resolved E c)"
  unfolding auth_resolved_def
proof (intro along_frame_intros along_resolve_login)
  fix attempt
  show "along frame (case attempt of
        Granted a _ \<Rightarrow>
          then_do (\<lambda>s. load_maildrop E (enter_transaction (s\<lparr>ps_account := Some a\<rparr>))) (\<lambda>_.
          then_do (pop3_ok E ''mailbox ready'') (\<lambda>_. done_with None))
      | Denied \<Rightarrow> then_do (pop3_err E ''authentication failed'') (\<lambda>_. done_with None)
      | Throttled \<Rightarrow>
          then_do (pop3_err E ''[AUTH] too many failed authentication attempts'') (\<lambda>_. done_with None))"
    by (cases attempt) (auto intro!: along_frame_intros along_enter along_ok_err)
qed

lemma along_auth_loop: "frame s (snd (auth_loop E st step s))"
proof (induction E st step s rule: auth_loop.induct)
  case (1 E st c s)
  obtain r1 s1 where w: "pop3_write E (''+ '' @ c @ CRLF) s = (r1, s1)"
    by (cases "pop3_write E (''+ '' @ c @ CRLF) s")
  obtain r2 s2 where r: "read_auth_response s1 = (r2, s2)"
    by (cases "read_auth_response s1")
  have f: "frame s s1" "frame s1 s2"
    using alongD [OF along_write w] alongD [OF along_read_auth_response r] by simp_all
  note trans = transpD [OF frame_order(2)]
  show ?case
  proof (cases r1)
    case (Inr u)
    note r1 = Inr
    show ?thesis
    proof (cases r2)
      case (Inl e)
      then show ?thesis
        using w r r1 trans [OF f] by simp
    next
      case (Inr o2)
      show ?thesis
      proof (cases o2)
        case None
        then show ?thesis
          using w r r1 Inr trans [OF trans [OF f] along_snd [OF along_then_done [OF along_ok_err(2)]]] by simp
      next
        case (Some response)
        obtain step st' where a: "sasl_advance (pe_base64 E) st response = (step, st')"
          by (cases "sasl_advance (pe_base64 E) st response")
        have "frame s2 (snd (auth_loop E st' step s2))"
          using "1" [OF w [symmetric] r1 r [symmetric] Inr Some a [symmetric]] .
        then show ?thesis
          using w r r1 Inr Some a trans [OF trans [OF f]] by simp
      qed
    qed
  qed (use w f in simp)
next
  case (2 E st reason s)
  then show ?case
    by (simp add: along_snd [OF along_then_done [OF along_ok_err(2)]])
next
  case (3 E st c s)
  then show ?case
    by (simp add: along_snd [OF along_auth_resolved])
qed

lemma along_run_auth: "along frame (run_auth E command)"
  unfolding along_def
proof
  fix s
  show "frame s (snd (run_auth E command s))"
    by (simp add: run_auth_def along_snd [OF along_then_done [OF along_ok_err(2)]] along_auth_loop
        along_snd [OF along_then_done [OF along_write]] split: list.split sasl_start.split)
      (auto simp: sasl_begin_def intro!: along_snd [OF along_then_done [OF along_write]]
        split: if_splits mechanism.splits option.splits prod.splits)
qed

lemma along_in_transaction: "along frame m \<Longrightarrow> along frame (in_transaction E m)"
  by (simp add: along_def in_transaction_def along_snd [OF along_ok_err(2)])

lemma along_no_flow: "along frame m \<Longrightarrow> along frame (no_flow m)"
  unfolding no_flow_def by (rule along_then_done)

lemma along_numbered:
  "along frame (numbered_reply E command list_one list_all_response)"
  "along frame (numbered_reply E command uidl_one uidl_all)"
  by (auto simp: along_def numbered_reply_def intro!: along_snd [OF along_write] split: list.split option.split)

lemma along_run_retr: "along frame (run_retr E command)"
  unfolding along_def
proof
  fix s
  have a: "along frame (then_do (load_body E (me_document_id m)) (\<lambda>body.
      case body of Some (raw, _, _) \<Rightarrow> pop3_write E (retr_response (me_size m) raw)
      | None \<Rightarrow> pop3_write E no_such_message))" for m
    by (intro along_frame_intros along_load) (simp add: along_write split: option.split prod.split)
  show "frame s (snd (run_retr E command s))"
    by (simp add: run_retr_def along_snd [OF a] along_snd [OF along_write] split: option.split)
qed

lemma along_run_top: "along frame (run_top E command)"
  unfolding along_def
proof
  fix s
  have a: "along frame (then_do (load_body E (me_document_id m)) (\<lambda>body.
      case body of
        Some (raw, header, text) \<Rightarrow>
          then_do (slice_of raw header) (\<lambda>h. then_do (slice_of raw text) (\<lambda>t. pop3_write E (top_response h t lines)))
      | None \<Rightarrow> pop3_write E no_such_message))" for m lines
    by (intro along_frame_intros along_load)
      (auto intro!: along_frame_intros along_write split: option.split prod.split)
  show "frame s (snd (run_top E command s))"
    by (simp add: run_top_def along_snd [OF a] along_snd [OF along_write] along_snd [OF along_ok_err(2)] split: option.split)
qed

lemma along_run_dele: "along frame (run_dele E command)"
  unfolding along_def
proof
  fix s
  have "frame s (snd (pop3_write E (fst (dele n ms)) (s\<lparr>ps_messages := ms'\<rparr>)))" for n ms ms'
    by (rule transpD [OF frame_order(2) frame_enter(3) along_snd [OF along_write]]) simp
  then show "frame s (snd (run_dele E command s))"
    by (simp add: run_dele_def along_snd [OF along_ok_err(2)] split: option.split prod.split) (metis fst_conv)
qed

lemma along_rset:
  "along frame (\<lambda>s. case rset (ps_messages s) of (reply, messages) \<Rightarrow> pop3_write E reply (s\<lparr>ps_messages := messages\<rparr>))"
  unfolding along_def
proof
  fix s
  have "frame s (snd (pop3_write E (fst (rset ms)) (s\<lparr>ps_messages := ms'\<rparr>)))" for ms ms'
    by (rule transpD [OF frame_order(2) frame_enter(3) along_snd [OF along_write]]) simp
  then show "frame s (snd (case rset (ps_messages s) of (reply, messages) \<Rightarrow>
      pop3_write E reply (s\<lparr>ps_messages := messages\<rparr>)))"
    by (simp split: prod.split) (metis fst_conv)
qed

lemma along_user:
  "along frame (\<lambda>s.
    if ps_state s \<noteq> Authorization then pop3_write E (user_response User_WrongState) s
    else if trim rest = [] then pop3_write E (user_response User_Empty) s
    else pop3_write E (user_response User_Accepted) (s\<lparr>ps_data := (ps_data s)\<lparr>sd_user := Some rest\<rparr>\<rparr>))"
proof -
  have "along frame (\<lambda>s. pop3_write E (user_response User_Accepted) (s\<lparr>ps_data := (ps_data s)\<lparr>sd_user := Some rest\<rparr>\<rparr>))"
    by (rule along_pre [OF along_write frame_enter(5)]) simp
  then show ?thesis
    by (simp add: along_def along_snd [OF along_write])
qed

lemmas along_commands =
  along_no_flow along_in_transaction along_user along_rset along_numbered along_run_retr along_run_top along_run_dele
  along_run_pass along_run_auth along_write along_ok_err along_enter along_load along_frame_intros

lemma along_pass_branch:
  "along frame (then_do (run_pass E rest) (\<lambda>outcome.
     then_do (if outcome = Pass_Authenticated then (\<lambda>s. load_maildrop E (enter_transaction s)) else done_with ()) (\<lambda>_.
       no_flow (pop3_write E (pass_response outcome)))))"
  "along frame (then_do (if b then commit_deletions E else done_with ()) (\<lambda>_.
     then_do (pop3_write E quit_response) (\<lambda>_. done_with (Some Close_Flow))))"
  by (intro along_commands; simp add: along_commands)+

lemma along_dispatch: "along frame (dispatch E command)"
  unfolding along_def
proof
  fix s
  show "frame s (snd (dispatch E command s))"
  proof (cases "verb_from_word (pc_verb command)")
    case Stat_Verb
    have "along frame (\<lambda>s. pop3_write E (stat_response (ps_messages s)) s)"
      by (simp add: along_def along_snd [OF along_write])
    then show ?thesis
      using Stat_Verb by (simp add: dispatch_def along_snd along_no_flow along_in_transaction)
  qed (simp_all add: dispatch_def Let_def along_snd along_no_flow along_in_transaction along_user along_rset
      along_numbered along_run_retr along_run_top along_run_dele along_run_auth along_write along_ok_err
      along_then_done along_pass_branch)
qed

section \<open>The session\<close>

lemma read_line_loop_consumes:
  "read_line_loop err inp buf = (Inr (True, l), inp') \<Longrightarrow> buf = [] \<or> inp \<noteq> [] \<Longrightarrow> length inp' < length inp"
proof (induction err inp buf rule: read_line_loop.induct)
  case (2 err b inp buf)
  then show ?case
    using read_line_loop_input [of err inp "buf @ [b]" "Inr (True, l)" inp']
    by (auto split: if_splits)
qed (auto split: option.splits)

lemma read_line_consumes:
  "read_line s = (Inr (True, l), s') \<Longrightarrow> length (ps_input s') < length (ps_input s)"
  using read_line_loop_consumes [of "ps_input_error s" "ps_input s" "[]" l]
  by (auto simp: read_line_def split: prod.splits sum.splits)

lemma dispatch_consumes:
  assumes "read_line s = (Inr (True, line), s1)" and "dispatch E command s1 = (r, s2)"
  shows "length (ps_input s2) < length (ps_input s)"
  using read_line_consumes [OF assms(1)] alongD [OF along_dispatch assms(2)] by (simp add: frame_def)

function pop3_loop :: "('s, 'h) pop3_env \<Rightarrow> 's pop3_session \<Rightarrow> (fault + pop3_flow) \<times> 's pop3_session" where
  "pop3_loop E s =
    (case read_line s of
       (Inl e, s1) \<Rightarrow> (Inl e, s1)
     | (Inr (False, line), s1) \<Rightarrow> (Inr Close_Flow, s1)
     | (Inr (True, line), s1) \<Rightarrow>
         (case dispatch E (parse_command line) s1 of
            (Inl e, s2) \<Rightarrow> (Inl e, s2)
          | (Inr (Some f), s2) \<Rightarrow> (Inr f, s2)
          | (Inr None, s2) \<Rightarrow> pop3_loop E s2))"
  by pat_completeness auto
termination
  by (relation "measure (\<lambda>(E, s). length (ps_input s))")
    (auto dest!: sym [of "(_, _)" "read_line _"] sym [of "(_, _)" "dispatch _ _ _"] dest: dispatch_consumes)

definition pop3_run :: "('s, 'h) pop3_env \<Rightarrow> ('s pop3_session, pop3_flow) action" where
  "pop3_run E s =
    (if ps_greet s then then_do (pop3_write E GREETING) (\<lambda>_. pop3_loop E) s else pop3_loop E s)"

end
