(* ===== verification/Pop3_Props.thy ===== *)
theory Pop3_Props
  imports Pop3_Session
begin

text \<open>
  What a POP3 session promises: every command gets exactly one final reply, the state of the
  session agrees with the login behind it, and \<open>QUIT\<close> deletes exactly the marked messages.
\<close>

section \<open>Replies\<close>

text \<open>
  A successful action that writes nothing, and one that writes one final reply after any number of
  challenges.
\<close>

definition silent :: "('s pop3_session, 'a) action \<Rightarrow> bool" where
  "silent m \<longleftrightarrow> (\<forall>s r s'. m s = (Inr r, s') \<longrightarrow> ps_out s' = ps_out s)"

definition one_reply :: "bytes list \<Rightarrow> bool" where
  "one_reply xs \<longleftrightarrow> (\<exists>challenges final. xs = challenges @ [final] \<and> list_all (prefix ''+ '') challenges \<and> final_line final)"

definition answers :: "('s pop3_session, 'a) action \<Rightarrow> bool" where
  "answers m \<longleftrightarrow> (\<forall>s r s'. m s = (Inr r, s') \<longrightarrow> (\<exists>xs. ps_out s' = ps_out s @ xs \<and> one_reply xs))"

lemma then_do_Inr:
  "then_do m f s = (Inr r, s') \<longleftrightarrow> (\<exists>x s1. m s = (Inr x, s1) \<and> f x s1 = (Inr r, s'))"
  by (auto simp: then_do_def split: prod.splits sum.splits)

lemma done_with_Inr [simp]: "done_with x s = (Inr r, s') \<longleftrightarrow> r = x \<and> s' = s"
  "\<not> fail_with e s = (Inr r, s')"
  by (auto simp: done_with_def fail_with_def)

lemma answersD: "answers m \<Longrightarrow> m s = (Inr r, s') \<Longrightarrow> \<exists>xs. ps_out s' = ps_out s @ xs \<and> one_reply xs"
  by (simp add: answers_def)

lemma silentD: "silent m \<Longrightarrow> m s = (Inr r, s') \<Longrightarrow> ps_out s' = ps_out s"
  by (simp add: silent_def)

lemma silent_then:
  assumes "silent m" and "\<And>x. silent (f x)"
  shows "silent (then_do m f)"
  unfolding silent_def
  by (auto simp: then_do_Inr dest!: silentD [OF assms(1)] silentD [OF assms(2)])

lemma silent_answers:
  assumes "silent m" and "\<And>x. answers (f x)"
  shows "answers (then_do m f)"
  unfolding answers_def
  by (auto simp: then_do_Inr dest!: silentD [OF assms(1)] answersD [OF assms(2)])

lemma answers_silent:
  assumes "answers m" and "\<And>x. silent (f x)"
  shows "answers (then_do m f)"
  unfolding answers_def
  by (auto simp: then_do_Inr dest!: answersD [OF assms(1)] silentD [OF assms(2)])

lemma silent_basics:
  "silent (done_with x)" "silent (fail_with e)" "silent (lift_result r)" "silent (slice_of raw rg)" "silent read_line"
  by (auto simp: silent_def lift_result_def slice_of_def read_line_def split: sum.splits prod.splits if_splits)

lemma silent_mail:
  "silent (resolve_login E u p)" "silent (load_maildrop E)" "silent (load_body E doc)" "silent (commit_deletions E)"
  by (auto simp: silent_def resolve_login_def load_maildrop_def load_body_def commit_deletions_def lift_result_def Let_def
      split: option.splits sum.splits prod.splits if_splits)

lemma answers_write: "final_line r \<Longrightarrow> answers (pop3_write E r)"
  by (auto simp: answers_def one_reply_def pop3_write_def split: option.splits)

lemma answers_ok_err: "answers (pop3_ok E t)" "answers (pop3_err E t)"
  by (simp_all add: pop3_ok_def pop3_err_def answers_write)

lemma answers_no_flow: "answers m \<Longrightarrow> answers (no_flow m)" "answers m \<Longrightarrow> answers (then_do m (\<lambda>_. done_with x))"
  by (simp_all add: no_flow_def answers_silent silent_basics)

lemma silent_enter: "silent (\<lambda>s. load_maildrop E (enter_transaction s))"
  "silent (\<lambda>s. load_maildrop E (enter_transaction (s\<lparr>ps_account := a\<rparr>)))"
  by (auto simp: silent_def enter_transaction_def dest!: silentD [OF silent_mail(2)])

lemma silent_read_auth_response: "silent read_auth_response"
  unfolding read_auth_response_def
  by (rule silent_then [OF silent_basics(5)]) (simp add: Let_def silent_basics split: prod.split)

lemma answers_auth_resolved: "answers (auth_resolved E c)"
  unfolding auth_resolved_def
  by (rule silent_answers [OF silent_mail(1)])
    (simp add: answers_no_flow answers_ok_err silent_answers [OF silent_enter(2)] split: login_attempt.split)

lemma silent_run_pass: "silent (run_pass E p)"
proof -
  have "silent (then_do (resolve_login E username p) (\<lambda>attempt s.
      case attempt of
        Granted a _ \<Rightarrow> (Inr Pass_Authenticated, s\<lparr>ps_account := Some a\<rparr>)
      | Denied \<Rightarrow> (Inr Pass_Failed, s)
      | Throttled \<Rightarrow> (Inr Pass_Throttled, s)))" for username
    by (rule silent_then [OF silent_mail(1)]) (auto simp: silent_def split: login_attempt.split)
  then show ?thesis
    by (auto simp: silent_def run_pass_def split: option.splits if_splits)
qed

lemma one_reply_challenge:
  assumes "one_reply xs"
  shows "one_reply ((''+ '' @ c) # xs)"
proof -
  from assms obtain cs f where "xs = cs @ [f]" "list_all (prefix ''+ '') cs" "final_line f"
    by (auto simp: one_reply_def)
  then show ?thesis
    unfolding one_reply_def by (intro exI [of _ "(''+ '' @ c) # cs"] exI [of _ f]) simp
qed

lemma auth_loop_answers:
  "auth_loop E st step s = (Inr r, s') \<Longrightarrow> \<exists>xs. ps_out s' = ps_out s @ xs \<and> one_reply xs"
proof (induction E st step s rule: auth_loop.induct)
  case (1 E st c s)
  from "1.prems" obtain u s1 r2 s2
    where w: "pop3_write E (''+ '' @ c @ CRLF) s = (Inr u, s1)" and r: "read_auth_response s1 = (Inr r2, s2)"
    by (auto split: prod.splits sum.splits)
  have out: "ps_out s2 = ps_out s @ [''+ '' @ c @ CRLF]"
    using w silentD [OF silent_read_auth_response r] by (auto simp: pop3_write_def split: option.splits)
  have "\<exists>xs. ps_out s' = ps_out s2 @ xs \<and> one_reply xs"
  proof (cases r2)
    case None
    then show ?thesis
      using "1.prems" w r answersD [OF answers_no_flow(2) [OF answers_ok_err(2)]] by simp
  next
    case (Some response)
    obtain step st' where a: "sasl_advance (pe_base64 E) st response = (step, st')"
      by (cases "sasl_advance (pe_base64 E) st response")
    show ?thesis
      using "1.prems" w r Some a "1.IH" [OF w [symmetric] refl r [symmetric] refl Some a [symmetric]] by simp
  qed
  then show ?case
    using out one_reply_challenge [of _ "c @ CRLF"] by auto
next
  case (2 E st reason s)
  then show ?case
    using answersD [OF answers_no_flow(2) [OF answers_ok_err(2)]] by simp
next
  case (3 E st c s)
  then show ?case
    using answersD [OF answers_auth_resolved] by simp
qed

lemma sasl_begin_reply: "sasl_begin B m tls initial = Sasl_Reply line \<Longrightarrow> final_line line"
  by (auto simp: sasl_begin_def split: if_splits mechanism.splits option.splits prod.splits)

lemma write_answers:
  "pop3_write E reply s = (Inr r, s') \<Longrightarrow> final_line reply \<Longrightarrow> \<exists>xs. ps_out s' = ps_out s @ xs \<and> one_reply xs"
  by (rule answersD [OF answers_write])

lemma write_done_answers:
  "then_do (pop3_write E reply) (\<lambda>_. done_with x) s = (Inr r, s') \<Longrightarrow> final_line reply \<Longrightarrow>
    \<exists>xs. ps_out s' = ps_out s @ xs \<and> one_reply xs"
  by (rule answersD [OF answers_no_flow(2) [OF answers_write]])

lemma answers_run_auth: "answers (run_auth E command)"
  unfolding answers_def run_auth_def pop3_err_def
  by (auto split: if_splits list.splits sasl_start.splits
      dest: write_done_answers auth_loop_answers sasl_begin_reply)

text \<open>An action that answers after changing the fields that are not output.\<close>

lemma answers_after:
  assumes "answers m" and "\<And>s. ps_out (g s) = ps_out s"
  shows "answers (\<lambda>s. m (g s))"
  using answersD [OF assms(1)] assms(2) unfolding answers_def by metis

lemma answers_in_transaction: "answers m \<Longrightarrow> answers (in_transaction E m)"
  by (auto simp: answers_def in_transaction_def dest: answersD [OF answers_ok_err(2)] split: if_splits)

lemma answers_pick:
  assumes "\<And>s. final_line (reply s)" and "\<And>s. ps_out (g s) = ps_out s"
  shows "answers (\<lambda>s. pop3_write E (reply s) (g s))"
  using answersD [OF answers_write [OF assms(1)]] assms(2) unfolding answers_def by metis

lemma answers_numbered:
  "answers (numbered_reply E command list_one list_all_response)"
  "answers (numbered_reply E command uidl_one uidl_all)"
  unfolding numbered_reply_def [abs_def] by (rule answers_pick; simp split: list.split option.split)+

lemma answers_run_retr: "answers (run_retr E command)"
proof -
  have a: "answers (then_do (load_body E (me_document_id m)) (\<lambda>body.
      case body of Some (raw, _, _) \<Rightarrow> pop3_write E (retr_response (me_size m) raw)
      | None \<Rightarrow> pop3_write E no_such_message))" for m
    by (rule silent_answers [OF silent_mail(3)]) (simp add: answers_write split: option.split prod.split)
  show ?thesis
    unfolding answers_def run_retr_def
    by (auto split: option.splits dest: write_answers answersD [OF a])
qed

lemma answers_run_top: "answers (run_top E command)"
proof -
  have a: "answers (then_do (load_body E (me_document_id m)) (\<lambda>body.
      case body of
        Some (raw, header, text) \<Rightarrow>
          then_do (slice_of raw header) (\<lambda>h. then_do (slice_of raw text) (\<lambda>t. pop3_write E (top_response h t lines)))
      | None \<Rightarrow> pop3_write E no_such_message))" for m lines
    by (rule silent_answers [OF silent_mail(3)])
      (simp add: answers_write silent_answers [OF silent_basics(4)] split: option.split prod.split)
  show ?thesis
    unfolding answers_def run_top_def
    by (auto split: option.splits dest: write_answers answersD [OF a] answersD [OF answers_ok_err(2)])
qed

lemma answers_marks: "answers (run_dele E command)"
  "answers (\<lambda>s. case rset (ps_messages s) of (reply, messages) \<Rightarrow> pop3_write E reply (s\<lparr>ps_messages := messages\<rparr>))"
proof -
  have "answers (\<lambda>s. pop3_write E (fst (dele n (ps_messages s))) (s\<lparr>ps_messages := snd (dele n (ps_messages s))\<rparr>))" for n
    by (rule answers_pick) simp_all
  then show "answers (run_dele E command)"
    by (cases "arg_u32 command 0") (simp_all add: run_dele_def [abs_def] split_beta answers_ok_err)
  show "answers (\<lambda>s. case rset (ps_messages s) of (reply, messages) \<Rightarrow> pop3_write E reply (s\<lparr>ps_messages := messages\<rparr>))"
    unfolding split_beta by (rule answers_pick) simp_all
qed

lemma answers_user:
  "answers (\<lambda>s.
    if ps_state s \<noteq> Authorization then pop3_write E (user_response User_WrongState) s
    else if trim rest = [] then pop3_write E (user_response User_Empty) s
    else pop3_write E (user_response User_Accepted) (s\<lparr>ps_data := (ps_data s)\<lparr>sd_user := Some rest\<rparr>\<rparr>))"
  unfolding answers_def by (auto split: if_splits dest!: write_answers)

lemma answers_login_quit:
  "answers (then_do (run_pass E rest) (\<lambda>outcome.
     then_do (if outcome = Pass_Authenticated then (\<lambda>s. load_maildrop E (enter_transaction s)) else done_with ()) (\<lambda>_.
       no_flow (pop3_write E (pass_response outcome)))))"
  "answers (then_do (commit_deletions E) (\<lambda>_.
     then_do (pop3_write E quit_response) (\<lambda>_. done_with (Some Close_Flow))))"
  "answers (then_do (done_with ()) (\<lambda>_.
     then_do (pop3_write E quit_response) (\<lambda>_. done_with (Some Close_Flow))))"
  by (intro silent_answers silent_run_pass answers_no_flow; simp add: silent_enter silent_basics silent_mail answers_write)+

lemma no_flow_answers:
  "no_flow m s = (Inr r, s') \<Longrightarrow> answers m \<Longrightarrow> \<exists>xs. ps_out s' = ps_out s @ xs \<and> one_reply xs"
  by (rule answersD [OF answers_no_flow(1)])

lemmas answers_commands =
  answers_in_transaction answers_user answers_marks answers_numbered answers_run_retr answers_run_top answers_write
  answers_ok_err

lemma dispatch_answers: "answers (dispatch E command)"
  unfolding answers_def
proof (intro allI impI)
  fix s r s'
  assume d: "dispatch E command s = (Inr r, s')"
  have "answers (\<lambda>s. pop3_write E (stat_response (ps_messages s)) s)"
    by (rule answers_pick) simp_all
  with d show "\<exists>xs. ps_out s' = ps_out s @ xs \<and> one_reply xs"
    by (cases "verb_from_word (pc_verb command)")
      (auto simp: dispatch_def Let_def answers_commands split: if_splits
        dest: no_flow_answers answersD [OF answers_run_auth] answersD [OF answers_login_quit(1)]
          answersD [OF answers_login_quit(2)] answersD [OF answers_login_quit(3)] write_done_answers)
qed

text \<open>With a transport that accepts every write, only the commands that use the store can fail.\<close>

lemma write_works: "pe_write E (length (ps_out s)) = None \<Longrightarrow> pop3_write E reply s = (Inr (), s\<lparr>ps_out := ps_out s @ [reply]\<rparr>)"
  by (simp add: pop3_write_def)

lemma dispatch_returns:
  assumes "\<And>n. pe_write E n = None"
    and "verb_from_word (pc_verb command) \<notin> {Pass_Verb, Auth_Verb, Retr_Verb, Top_Verb, Quit_Verb}"
  shows "\<exists>f s'. dispatch E command s = (Inr f, s')"
  using assms(2)
  by (cases "verb_from_word (pc_verb command)")
    (simp_all add: dispatch_def no_flow_def then_do_def in_transaction_def numbered_reply_def run_dele_def
      pop3_ok_def pop3_err_def write_works [OF assms(1)] done_with_def Let_def split_beta split: option.split)

text \<open>
  C14. Every command is answered.  When the transport accepts writes, dispatching a command returns,
  and has then appended to the output exactly one final reply, \<open>+OK\<close> or \<open>-ERR\<close>, after challenges
  only; or it ends the session with a fault, and then the command was one of the five that read
  credentials, messages or the client's answer.
\<close>

theorem pop3_command_answered:
  assumes "\<And>n. pe_write E n = None"
  shows "case dispatch E command s of
      (Inr f, s') \<Rightarrow> \<exists>challenges final. ps_out s' = ps_out s @ challenges @ [final] \<and>
        list_all (prefix ''+ '') challenges \<and> (prefix ''+OK'' final \<or> prefix ''-ERR'' final)
    | (Inl e, s') \<Rightarrow> verb_from_word (pc_verb command) \<in> {Pass_Verb, Auth_Verb, Retr_Verb, Top_Verb, Quit_Verb}"
proof (cases "dispatch E command s")
  case (Pair r s')
  then show ?thesis
    using dispatch_returns [OF assms, of command s] answersD [OF dispatch_answers, of E command s]
    by (cases r) (fastforce simp: one_reply_def final_line_def)+
qed

section \<open>The state of the session\<close>

text \<open>
  An account that the login of the directory granted, on the store the session sees, to some user
  name and password from the client's address.
\<close>

definition granted_account :: "('s, 'h) pop3_env \<Rightarrow> 's \<Rightarrow> account \<Rightarrow> bool" where
  "granted_account E st a \<longleftrightarrow> pe_has_directory E \<and>
    (\<exists>username password T by T'.
      attempt_login (pe_login E) (pe_store E) st (Some (pe_ip E)) username password Mail_Purpose T = (Inr (Granted a by), T'))"

definition session_ok :: "('s, 'h) pop3_env \<Rightarrow> 's pop3_session \<Rightarrow> bool" where
  "session_ok E s \<longleftrightarrow>
    sd_authenticated (ps_data s) = (ps_state s = Transaction) \<and>
    (case ps_account s of
       None \<Rightarrow> ps_state s = Authorization \<and> ps_messages s = []
     | Some a \<Rightarrow> ps_state s = Transaction \<and> sd_is_tls (ps_data s) \<and> granted_account E (w_store (ps_world s)) a) \<and>
    map me_number (ps_messages s) = map (\<lambda>i. of_nat i + 1) [0..<length (ps_messages s)]"

text \<open>The fields this depends on.\<close>

definition same_login :: "'s pop3_session \<Rightarrow> 's pop3_session \<Rightarrow> bool" where
  "same_login s s' \<longleftrightarrow>
    ps_state s' = ps_state s \<and> ps_account s' = ps_account s \<and> ps_messages s' = ps_messages s \<and>
    sd_authenticated (ps_data s') = sd_authenticated (ps_data s) \<and> sd_is_tls (ps_data s') = sd_is_tls (ps_data s) \<and>
    w_store (ps_world s') = w_store (ps_world s)"

lemma same_login_order: "reflp same_login" "transp same_login"
  by (auto intro!: reflpI transpI simp: same_login_def)

lemma session_ok_same: "same_login s s' \<Longrightarrow> session_ok E s' = session_ok E s"
  by (cases "ps_account s") (simp_all add: same_login_def session_ok_def)

lemma session_ok_along:
  assumes "along same_login m" and "m s = (r, s')" and "session_ok E s"
  shows "session_ok E s'"
  using session_ok_same [OF alongD [OF assms(1,2)], of E] assms(3) by simp

lemmas along_same_intros = along_then_do [OF same_login_order(2)] along_done [OF same_login_order(1)]

lemma along_same_basics:
  "along same_login (pop3_write E reply)" "along same_login (pop3_ok E t)" "along same_login (pop3_err E t)"
  "along same_login (resolve_login E u p)" "along same_login (load_body E doc)" "along same_login read_line"
  by (auto simp: along_def same_login_def pop3_ok_def pop3_err_def pop3_write_def resolve_login_def load_body_def
      read_line_def lift_result_def Let_def split: option.splits sum.splits prod.splits)

lemma along_same_read_auth: "along same_login read_auth_response"
  unfolding read_auth_response_def
  by (rule along_then_do [OF same_login_order(2) along_same_basics(6)])
    (simp add: Let_def along_same_intros split: prod.split)

lemma along_same_commands:
  "along same_login (numbered_reply E command one all)" "along same_login (run_retr E command)"
  "along same_login (run_top E command)"
proof -
  show "along same_login (numbered_reply E command one all)"
    by (simp add: along_def numbered_reply_def along_snd [OF along_same_basics(1)])
  have a: "along same_login (then_do (load_body E (me_document_id m)) (\<lambda>body.
      case body of Some (raw, _, _) \<Rightarrow> pop3_write E (retr_response (me_size m) raw)
      | None \<Rightarrow> pop3_write E no_such_message))" for m :: message_entry
    by (intro along_same_intros along_same_basics) (simp add: along_same_basics split: option.split prod.split)
  show "along same_login (run_retr E command)"
    by (simp add: along_def run_retr_def along_snd [OF along_same_basics(1)] along_snd [OF a] split: option.split)
  have b: "along same_login (then_do (load_body E (me_document_id m)) (\<lambda>body.
      case body of
        Some (raw, header, text) \<Rightarrow>
          then_do (slice_of raw header) (\<lambda>h. then_do (slice_of raw text) (\<lambda>t. pop3_write E (top_response h t lines)))
      | None \<Rightarrow> pop3_write E no_such_message))" for m :: message_entry and lines
    by (intro along_same_intros along_same_basics)
      (simp add: along_same_basics along_same_intros split: option.split prod.split)
  show "along same_login (run_top E command)"
    by (simp add: along_def run_top_def along_snd [OF along_same_basics(1)] along_snd [OF along_same_basics(3)]
        along_snd [OF b] split: option.split)
qed

lemma maildrop_numbers:
  "map me_number (maildrop_entries c v) = map (\<lambda>i. of_nat i + 1) [0..<length (maildrop_entries c v)]"
proof -
  have a: "map me_number (map (\<lambda>(index, uid, doc, sz). \<lparr>me_number = of_nat index + 1, me_size = ucast sz,
      me_uid = f uid, me_document_id = doc, me_deleted = False\<rparr>) (enumerate 0 xs)) = map (\<lambda>i. of_nat i + 1) [0..<length xs]"
    for f and xs :: "(u32 \<times> u32 \<times> u32) list"
    by (rule nth_equalityI) (simp_all add: nth_enumerate_eq split_beta)
  show ?thesis
    unfolding maildrop_entries_def a length_map length_enumerate ..
qed

lemma marks_keep_numbers:
  "map me_number (snd (dele n ms)) = map me_number ms" "length (snd (dele n ms)) = length ms"
  "map me_number (snd (rset ms)) = map me_number ms" "length (snd (rset ms)) = length ms"
proof -
  show "map me_number (snd (dele n ms)) = map me_number ms"
    by (induction n ms rule: dele.induct) (auto split: prod.splits)
  show "length (snd (dele n ms)) = length ms"
    by (induction n ms rule: dele.induct) (auto split: prod.splits)
qed (simp_all add: rset_def Let_def comp_def)

lemma session_ok_messages:
  assumes "session_ok E s" and "ps_state s = Transaction"
    and "map me_number ms = map me_number (ps_messages s)" and "length ms = length (ps_messages s)"
  shows "session_ok E (s\<lparr>ps_messages := ms\<rparr>)"
  using assms by (cases "ps_account s") (simp_all add: session_ok_def)

lemma session_ok_enter:
  assumes "session_ok E s" and "ps_state s = Authorization" and "sd_is_tls (ps_data s)"
    and "granted_account E (w_store (ps_world s)) a"
    and "load_maildrop E (enter_transaction (s\<lparr>ps_account := Some a\<rparr>)) = (Inr u, s')"
  shows "session_ok E s'"
proof -
  have dir: "pe_has_directory E"
    using assms(4) by (simp add: granted_account_def)
  then obtain c v where s': "s' = (enter_transaction (s\<lparr>ps_account := Some a\<rparr>))\<lparr>ps_messages := maildrop_entries c v\<rparr>"
    using assms(5)
    by (auto simp: load_maildrop_def message_context_def enter_transaction_def Let_def split: sum.splits)
  show ?thesis
    using assms(3,4) maildrop_numbers [of c v] by (simp add: s' session_ok_def enter_transaction_def)
qed

lemma resolve_login_granted:
  assumes "resolve_login E u p s = (Inr (Granted a by), s')"
  shows "granted_account E (w_store (ps_world s')) a \<and> same_login s s'"
proof -
  have same: "same_login s s'"
    by (rule alongD [OF along_same_basics(4) assms])
  from assms obtain T where "pe_has_directory E"
    and "attempt_login (pe_login E) (pe_store E) (w_store (ps_world s)) (Some (pe_ip E)) u p Mail_Purpose
      (w_throttle (ps_world s)) = (Inr (Granted a by), T)"
    by (auto simp: resolve_login_def lift_result_def Let_def split: if_splits prod.splits sum.splits)
  then have "granted_account E (w_store (ps_world s)) a"
    unfolding granted_account_def by blast
  with same show ?thesis
    by (simp add: same_login_def)
qed

lemma session_ok_auth_resolved:
  assumes "session_ok E s" and "ps_state s = Authorization" and "sd_is_tls (ps_data s)"
    and "auth_resolved E c s = (Inr r, s')"
  shows "session_ok E s'"
proof -
  from assms(4) obtain attempt s1 where l: "resolve_login E (sa_username c) (sa_password c) s = (Inr attempt, s1)"
    by (auto simp: auth_resolved_def then_do_Inr)
  have same: "same_login s s1"
    by (rule alongD [OF along_same_basics(4) l])
  then have ok: "session_ok E s1" "ps_state s1 = Authorization" "sd_is_tls (ps_data s1)"
    using assms(1-3) session_ok_same [OF same, of E] by (simp_all add: same_login_def)
  show ?thesis
  proof (cases attempt)
    case (Granted a "by")
    with assms(4) l obtain u s2 u' where m: "load_maildrop E (enter_transaction (s1\<lparr>ps_account := Some a\<rparr>)) = (Inr u, s2)"
      and w: "pop3_ok E ''mailbox ready'' s2 = (Inr u', s')"
      by (auto simp: auth_resolved_def then_do_Inr)
    have "session_ok E s2"
      using session_ok_enter [OF ok _ m] resolve_login_granted l Granted by blast
    then show ?thesis
      by (rule session_ok_along [OF along_same_basics(2) w])
  next
    case Denied
    with assms(4) l show ?thesis
      using ok(1) by (auto simp: auth_resolved_def then_do_Inr dest: session_ok_along [OF along_same_basics(3)])
  next
    case Throttled
    with assms(4) l show ?thesis
      using ok(1) by (auto simp: auth_resolved_def then_do_Inr dest: session_ok_along [OF along_same_basics(3)])
  qed
qed

lemma session_ok_auth_loop:
  "auth_loop E st step s = (Inr r, s') \<Longrightarrow> session_ok E s \<Longrightarrow> ps_state s = Authorization \<Longrightarrow>
    sd_is_tls (ps_data s) \<Longrightarrow> session_ok E s'"
proof (induction E st step s rule: auth_loop.induct)
  case (1 E st c s)
  from "1.prems"(1) obtain u s1 r2 s2
    where w: "pop3_write E (''+ '' @ c @ CRLF) s = (Inr u, s1)" and r: "read_auth_response s1 = (Inr r2, s2)"
    by (auto split: prod.splits sum.splits)
  have same: "same_login s s2"
    by (rule transpD [OF same_login_order(2) alongD [OF along_same_basics(1) w] alongD [OF along_same_read_auth r]])
  then have ok: "session_ok E s2" "ps_state s2 = Authorization" "sd_is_tls (ps_data s2)"
    using "1.prems"(2-4) session_ok_same [OF same, of E] by (simp_all add: same_login_def)
  show ?case
  proof (cases r2)
    case None
    then show ?thesis
      using "1.prems"(1) w r ok(1) by (auto simp: then_do_Inr dest: session_ok_along [OF along_same_basics(3)])
  next
    case (Some response)
    obtain step st' where a: "sasl_advance (pe_base64 E) st response = (step, st')"
      by (cases "sasl_advance (pe_base64 E) st response")
    show ?thesis
      using "1.prems"(1) w r Some a ok "1.IH" [OF w [symmetric] refl r [symmetric] refl Some a [symmetric]] by simp
  qed
next
  case (2 E st reason s)
  then show ?case
    by (auto simp: then_do_Inr dest: session_ok_along [OF along_same_basics(3)])
next
  case (3 E st c s)
  then show ?case
    using session_ok_auth_resolved [of E s c r s'] by simp
qed

lemma session_ok_run_auth:
  assumes "session_ok E s" and "run_auth E command s = (Inr r, s')"
  shows "session_ok E s'"
proof -
  have tls: "sd_is_tls (ps_data s)" if "sasl_begin (pe_base64 E) m (sd_is_tls (ps_data s)) i = Sasl_Continue st step"
    for m i st step
    using that by (auto simp: sasl_begin_def split: if_splits)
  show ?thesis
    using assms
    by (auto simp: run_auth_def then_do_Inr split: if_splits list.splits sasl_start.splits
        dest: session_ok_along [OF along_same_basics(3)] session_ok_along [OF along_same_basics(1)]
        intro: session_ok_auth_loop [OF _ assms(1) _ tls])
qed

lemma session_ok_pass:
  assumes "session_ok E s" and "run_pass E password s = (Inr outcome, s1)"
    and "(if outcome = Pass_Authenticated then load_maildrop E (enter_transaction s1) else (Inr (), s1)) = (Inr u, s2)"
  shows "session_ok E s2"
proof (cases "outcome = Pass_Authenticated")
  case True
  with assms(2) obtain username attempt s0
    where l0: "resolve_login E username password s = (Inr attempt, s0)"
    and c: "(case attempt of
        Granted a _ \<Rightarrow> (Inr Pass_Authenticated, s0\<lparr>ps_account := Some a\<rparr>)
      | Denied \<Rightarrow> (Inr Pass_Failed, s0)
      | Throttled \<Rightarrow> (Inr Pass_Throttled, s0)) = ((Inr outcome :: fault + pass_outcome), s1)"
    and st: "ps_state s = Authorization" "sd_is_tls (ps_data s)"
    unfolding run_pass_def by (auto simp: then_do_Inr split: if_splits option.splits)
  from c True obtain a "by" where at: "attempt = Granted a by" and s1: "s1 = s0\<lparr>ps_account := Some a\<rparr>"
    by (cases attempt) auto
  note l = l0 [unfolded at]
  have g: "granted_account E (w_store (ps_world s0)) a" and same: "same_login s s0"
    using resolve_login_granted [OF l] by simp_all
  have ok: "session_ok E s0" "ps_state s0 = Authorization" "sd_is_tls (ps_data s0)"
    using assms(1) st same session_ok_same [OF same, of E] by (simp_all add: same_login_def)
  show ?thesis
    using session_ok_enter [OF ok g] assms(3) True s1 by simp
next
  case False
  with assms(2) have "session_ok E s1"
    using assms(1)
    by (auto simp: run_pass_def then_do_Inr split: if_splits option.splits login_attempt.splits
        dest: session_ok_along [OF along_same_basics(4)]) (metis login_attempt.exhaust)
  then show ?thesis
    using assms(3) False by simp
qed

lemma session_ok_dispatch:
  assumes "session_ok E s" and "dispatch E command s = (Inr None, s')"
  shows "session_ok E s'"
proof -
  have stat: "along same_login (\<lambda>s. pop3_write E (stat_response (ps_messages s)) s)"
    by (simp add: along_def along_snd [OF along_same_basics(1)])
  note keep = session_ok_along [OF along_same_basics(1) _ assms(1)] session_ok_along [OF along_same_basics(2) _ assms(1)]
    session_ok_along [OF along_same_basics(3) _ assms(1)] session_ok_along [OF along_same_commands(1) _ assms(1)]
    session_ok_along [OF along_same_commands(2) _ assms(1)] session_ok_along [OF along_same_commands(3) _ assms(1)]
    session_ok_along [OF stat _ assms(1)]
  have marked: "session_ok E s'" if "pop3_write E reply (s\<lparr>ps_messages := ms\<rparr>) = (Inr u, s')"
    and "ps_state s = Transaction" and "ms = snd (dele n (ps_messages s)) \<or> ms = snd (rset (ps_messages s))" for reply ms n u
    using session_ok_along [OF along_same_basics(1) that(1)] session_ok_messages [OF assms(1) that(2)] that(3)
      marks_keep_numbers by metis
  have user: "session_ok E (s\<lparr>ps_data := (ps_data s)\<lparr>sd_user := u\<rparr>\<rparr>)" for u
    using session_ok_same [of s "s\<lparr>ps_data := (ps_data s)\<lparr>sd_user := u\<rparr>\<rparr>" E] assms(1) by (simp add: same_login_def)
  show ?thesis
  proof (cases "verb_from_word (pc_verb command)")
    case Pass_Verb
    with assms(2) obtain outcome s1 u s2 u'
      where p: "run_pass E (pc_rest command) s = (Inr outcome, s1)"
      and l: "(if outcome = Pass_Authenticated then load_maildrop E (enter_transaction s1) else (Inr (), s1)) = (Inr u, s2)"
      and w: "pop3_write E (pass_response outcome) s2 = (Inr u', s')"
      by (auto simp: dispatch_def then_do_Inr no_flow_def split: if_splits)
    show ?thesis
      using session_ok_along [OF along_same_basics(1) w] session_ok_pass [OF assms(1) p l] .
  next
    case Dele_Verb
    with assms(2) show ?thesis
      by (auto simp: dispatch_def no_flow_def then_do_Inr in_transaction_def run_dele_def split_beta
          split: if_splits option.splits intro: keep marked)
  next
    case Rset_Verb
    with assms(2) show ?thesis
      by (auto simp: dispatch_def no_flow_def then_do_Inr in_transaction_def split_beta split: if_splits intro: keep marked)
  qed (use assms(2) in \<open>auto simp: dispatch_def no_flow_def then_do_Inr in_transaction_def Let_def split: if_splits
      intro: keep session_ok_run_auth [OF assms(1)] session_ok_along [OF along_same_basics(1) _ user]\<close>)
qed

text \<open>
  The states a session passes through between commands: lines are read and dispatched as long as
  the session goes on.
\<close>

inductive pop3_reach :: "('s, 'h) pop3_env \<Rightarrow> 's pop3_session \<Rightarrow> 's pop3_session \<Rightarrow> bool" for E s where
  start: "pop3_reach E s s"
| greeted: "pop3_reach E s s1 \<Longrightarrow> pop3_write E GREETING s1 = (Inr u, s2) \<Longrightarrow> pop3_reach E s s2"
| command: "pop3_reach E s s1 \<Longrightarrow> read_line s1 = (Inr (True, line), s2) \<Longrightarrow>
    dispatch E (parse_command line) s2 = (Inr None, s3) \<Longrightarrow> pop3_reach E s s3"

lemma session_ok_reach: "pop3_reach E s s' \<Longrightarrow> session_ok E s \<Longrightarrow> session_ok E s'"
proof (induction rule: pop3_reach.induct)
  case (greeted s1 u s2)
  then show ?case
    using session_ok_along [OF along_same_basics(1)] by metis
next
  case (command s1 line s2 s3)
  then show ?case
    using session_ok_along [OF along_same_basics(6)] session_ok_dispatch by metis
qed

lemma session_ok_new: "session_ok E (session_new inp err tls greet w)"
  by (simp add: session_ok_def session_new_def)

text \<open>
  C4. The state of a session is sound after any sequence of commands.  Either it is in the
  authorization state, with no account and no messages; or it is in the transaction state, over
  TLS, for an account that the directory's login granted from the client's address.  The messages
  are numbered from one.
\<close>

theorem pop3_session_invariant:
  assumes "pop3_reach E (session_new inp err tls greet w) s"
  shows "(case ps_state s of
      Authorization \<Rightarrow> ps_account s = None \<and> ps_messages s = [] \<and> \<not> sd_authenticated (ps_data s)
    | Transaction \<Rightarrow> sd_is_tls (ps_data s) \<and> sd_authenticated (ps_data s) \<and>
        (\<exists>a. ps_account s = Some a \<and> granted_account E (w_store (ps_world s)) a)) \<and>
    map me_number (ps_messages s) = map (\<lambda>i. of_nat i + 1) [0..<length (ps_messages s)]"
  using session_ok_reach [OF assms session_ok_new]
  by (cases "ps_state s"; cases "ps_account s") (simp_all add: session_ok_def)

section \<open>Committing deletions\<close>

context kv_store
begin

lemma delete_each_effect:
  assumes "pe_store E = S" and "delete_each E a docs (s, ns) = (Inr u, (s', ns'))" and "counters_ok (content s)"
  shows "\<forall>k. prop_key k \<longrightarrow> content s' k =
    (if \<exists>doc\<in>set docs. content s (message_data_key a doc) \<noteq> None \<and> (k = message_data_key a doc \<or> k = metadata_key a doc)
     then None else content s k)"
  using assms(2,3)
proof (induction docs arbitrary: s ns)
  case (Cons doc docs)
  from Cons.prems(1) obtain found s1 ns1
    where d: "delete_message (pe_mail E) S a doc (s, ns) = (Inr found, (s1, ns1))"
      and rest: "delete_each E a docs (s1, ns1) = (Inr u, (s', ns'))"
    using assms(1) by (auto split: prod.splits sum.splits)
  note eff = delete_message_effect [OF d Cons.prems(2)]
  note ih = Cons.IH [OF rest]
  have f: "found \<longleftrightarrow> content s (message_data_key a doc) \<noteq> None"
    using eff by blast
  have c: "content s1 k = (if found \<and> (k = message_data_key a doc \<or> k = metadata_key a doc) then None else content s k)"
    if "prop_key k" for k
    using eff that by blast
  have ih': "content s' k =
      (if \<exists>doc\<in>set docs. content s1 (message_data_key a doc) \<noteq> None \<and> (k = message_data_key a doc \<or> k = metadata_key a doc)
       then None else content s1 k)" if "prop_key k" for k
    using ih eff that by blast
  show ?case
    using f by (auto simp: ih' c)
qed simp

end

lemma commit_deletions_effect:
  assumes "rocksdb_laws R data" and "pe_store E = rocksdb_store R elapsed"
    and "counters_ok (content_map (data (w_store (ps_world s))))"
    and "message_context E s = Some a" and "pe_has_blobs E" and "pe_has_notifier E"
    and "commit_deletions E s = (Inr u, s')"
  shows "ps_messages s' = filter (\<lambda>m. \<not> me_deleted m) (ps_messages s) \<and>
    (\<forall>k. prop_key k \<longrightarrow> content_map (data (w_store (ps_world s'))) k =
      (if \<exists>m\<in>set (ps_messages s). me_deleted m \<and>
          content_map (data (w_store (ps_world s))) (message_data_key a (me_document_id m)) \<noteq> None \<and>
          (k = message_data_key a (me_document_id m) \<or> k = metadata_key a (me_document_id m))
       then None else content_map (data (w_store (ps_world s))) k))"
proof -
  note kv = rocksdb_laws.store_contract [OF assms(1)]
  from assms(4-7) obtain st ns
    where d: "delete_each E a (map me_document_id (filter me_deleted (ps_messages s)))
        (w_store (ps_world s), w_notices (ps_world s)) = (Inr (), (st, ns))"
    and s': "s' = s\<lparr>ps_world := (ps_world s)\<lparr>w_store := st, w_notices := ns\<rparr>,
        ps_messages := filter (\<lambda>m. \<not> me_deleted m) (ps_messages s)\<rparr>"
    by (auto simp: commit_deletions_def Let_def split: prod.splits sum.splits)
  have marked: "(\<exists>doc\<in>set (map me_document_id (filter me_deleted ms)). P doc) \<longleftrightarrow>
      (\<exists>m\<in>set ms. me_deleted m \<and> P (me_document_id m))" for ms P
    by auto
  show ?thesis
    using kv_store.delete_each_effect [OF kv assms(2) d assms(3), unfolded marked] unfolding s' by simp
qed

text \<open>
  C12. \<open>QUIT\<close> commits exactly the marks.  When a session in the transaction state ends with a
  successful \<open>QUIT\<close>, the records of every marked message are gone, and the data and metadata
  records of all other messages, of this account and of any other, are as before.
\<close>

theorem pop3_quit_deletes_marked:
  assumes "rocksdb_laws R data" and "pe_store E = rocksdb_store R elapsed"
    and "pe_has_directory E" and "pe_has_blobs E" and "pe_has_notifier E"
    and "counters_ok (content_map (data (w_store (ps_world s))))"
    and "ps_state s = Transaction" and "ps_account s = Some account"
    and "verb_from_word (pc_verb command) = Quit_Verb"
    and "dispatch E command s = (Inr f, s')"
  shows "f = Some Close_Flow \<and>
    (\<forall>a doc. let before = content_map (data (w_store (ps_world s)));
                 now = content_map (data (w_store (ps_world s')));
                 marked = (a = mail_account_id (ac_id account) \<and>
                   (\<exists>m\<in>set (ps_messages s). me_deleted m \<and> me_document_id m = doc))
             in now (message_data_key a doc) = (if marked then None else before (message_data_key a doc)) \<and>
                now (metadata_key a doc) =
                  (if marked \<and> before (message_data_key a doc) \<noteq> None then None else before (metadata_key a doc)))"
proof -
  from assms(7,9,10) obtain u s1 u' where c: "commit_deletions E s = (Inr u, s1)"
    and w: "pop3_write E quit_response s1 = (Inr u', s')" and f: "f = Some Close_Flow"
    by (auto simp: dispatch_def then_do_Inr)
  have ctx: "message_context E s = Some (mail_account_id (ac_id account))"
    using assms(3,8) by (simp add: message_context_def)
  have st: "w_store (ps_world s') = w_store (ps_world s1)"
    using alongD [OF along_same_basics(1) w] by (simp add: same_login_def)
  note eff = commit_deletions_effect [OF assms(1,2,6) ctx assms(4,5) c, THEN conjunct2, rule_format]
  show ?thesis
    using f by (auto simp: Let_def st eff)
qed

section \<open>A mailbox\<close>

text \<open>The account of the login example with two messages; the archives hold one value each.\<close>

definition one_rkyv :: "'a \<Rightarrow> 'a rkyv" where
  "one_rkyv x = \<lparr>rkyv_to_bytes = (\<lambda>_. Inr ''x''), rkyv_access = (\<lambda>_. None), rkyv_deserialize = (\<lambda>_. Inr x)\<rparr>"

definition bob_mail :: mail_env where
  "bob_mail =
    \<lparr>me_data = one_rkyv \<lparr>md_mailboxes = [\<lparr>mu_mailbox_id = INBOX_ID, mu_uid = 1\<rparr>], md_keywords = [], md_thread_id = 1,
       md_size = 10, md_received_at = 0, md_sent_at = 0\<rparr>,
     me_metadata = one_rkyv \<lparr>mm_blob_hash = ''h'', mm_parts = [], mm_raw_headers = [], mm_preview = []\<rparr>,
     me_fts = ascii_lib, me_parse = (\<lambda>_. None), me_blob = (\<lambda>_. Inr None)\<rparr>"

definition bob_pop3 :: "(mem_db, bytes) pop3_env" where
  "bob_pop3 =
    \<lparr>pe_store = mem_store, pe_has_directory = True, pe_has_blobs = True, pe_has_notifier = True, pe_login = bob_login,
     pe_mail = bob_mail, pe_ip = ''::1'', pe_base64 = \<lparr>b64_encode = id, b64_decode = Some\<rparr>, pe_write = (\<lambda>_. None)\<rparr>"

definition mail_db :: mem_db where
  "mail_db = [((Property, message_data_key 5 1), ''d''), ((Property, message_data_key 5 2), ''d'')]"

definition bob_entry :: "u32 \<Rightarrow> bool \<Rightarrow> message_entry" where
  "bob_entry n del = \<lparr>me_number = n, me_size = 10, me_uid = ''0'' @ show_u32 n, me_document_id = n, me_deleted = del\<rparr>"

definition bob_session :: "mem_db pop3_session" where
  "bob_session =
    \<lparr>ps_input = [], ps_input_error = None, ps_out = [], ps_state = Transaction,
     ps_data = \<lparr>sd_user = Some ''bob@x'', sd_is_tls = True, sd_authenticated = True\<rparr>, ps_greet = True, ps_account = Some bob,
     ps_messages = [bob_entry 1 True, bob_entry 2 False],
     ps_world = \<lparr>w_store = mail_db, w_notices = [], w_throttle = \<lparr>th_store = ttl_new, th_ticks = 0\<rparr>\<rparr>\<rparr>"

lemma bob_pop3_sels [simp]:
  "pe_store bob_pop3 = mem_store" "pe_has_directory bob_pop3" "pe_has_blobs bob_pop3" "pe_has_notifier bob_pop3"
  "pe_login bob_pop3 = bob_login" "pe_mail bob_pop3 = bob_mail" "pe_ip bob_pop3 = ''::1''" "pe_write bob_pop3 n = None"
  by (simp_all add: bob_pop3_def)

theorem pop3_command_answered_witness:
  "(\<forall>n. pe_write bob_pop3 n = None) \<and>
    (case dispatch bob_pop3 (parse_command ''STAT'') bob_session of
      (Inr f, s') \<Rightarrow> \<exists>challenges final. ps_out s' = ps_out bob_session @ challenges @ [final] \<and>
        list_all (prefix ''+ '') challenges \<and> (prefix ''+OK'' final \<or> prefix ''-ERR'' final)
    | (Inl e, s') \<Rightarrow> verb_from_word (pc_verb (parse_command ''STAT'')) \<in> {Pass_Verb, Auth_Verb, Retr_Verb, Top_Verb, Quit_Verb})"
  using pop3_command_answered [of bob_pop3 "parse_command ''STAT''" bob_session] by simp

lemma bob_keys [simp]:
  "subspace_of (message_data_key a doc) = Inr Property" "subspace_of (metadata_key a doc) = Inr Property"
  "subspace_of (counter_key a c) = Inr Counter" "subspace_of (entry_key a c n) = Inr ChangeLog"
  "messages_key a' \<noteq> bytes_key a" "counter_key a Email \<noteq> bytes_key a'" "counter_key a Email \<noteq> messages_key a'"
  "bytes_key a' \<noteq> counter_key a Email" "messages_key a' \<noteq> counter_key a Email"
  by (simp_all add: message_data_key_def metadata_key_def counter_key_def bytes_key_def messages_key_def entry_key_def
      with_suffix_def key_new_def)

lemma bob_allocates:
  "mem_data d Counter (counter_key a Email) = c \<Longrightarrow> c = None \<and> n = 0 \<or> c = Some (le64 n) \<Longrightarrow>
    allocate_change_id mem_store d a Email =
      (Inr (smax (n + 1) 1), mem_set Counter (counter_key a Email) (Some (le64 (n + 1))) d)"
  by (auto simp: allocate_change_id_def mem_store_writes mem_data_def decode_counter_def)

lemma bob_delete:
  "\<exists>d ns. delete_message bob_mail mem_store 5 1 (mail_db, []) = (Inr True, (d, ns))"
proof -
  let ?inbox = "\<lparr>mu_mailbox_id = INBOX_ID, mu_uid = 1\<rparr>"
  define d1 where "d1 = mem_set Counter (counter_key 5 Email) (Some (le64 1)) mail_db"
  define d2 where "d2 = mem_set Counter (counter_key 5 Email) (Some (le64 2)) d1"
  obtain md where load: "load_data bob_mail mem_store mail_db 5 1 = Inr (Some md)"
      "load_metadata bob_mail mem_store mail_db 5 1 = Inr None" "md_mailboxes md = [?inbox]" "md_size md = 10"
    by (simp add: load_data_def load_metadata_def mem_store_reads mail_db_def bob_mail_def one_rkyv_def deserialize_def)
  have "mem_data mail_db Counter (counter_key 5 Email) = None" "mem_data d1 Counter (counter_key 5 Email) = Some (le64 1)"
    by (simp_all add: mem_data_def mail_db_def d1_def mem_set_def)
  then have "allocate_change_id mem_store mail_db 5 Email = (Inr (smax 1 1), d1)"
    "allocate_change_id mem_store d1 5 Email = (Inr (smax 2 1), d2)"
    using bob_allocates [of mail_db 5 None 0] bob_allocates [of d1 5 "Some (le64 1)" 1] by (simp_all add: d1_def d2_def)
  then obtain p q where van: "push_vanished_ops mem_store 5 [?inbox] [] mail_db = (Inr [Set_Op (entry_key 5 EmailVanished (smax 1 1)) p], d1)"
    and rec: "record_op mem_store d1 5 Email 1 Delete = (Inr (smax 2 1, Set_Op (entry_key 5 Email (smax 2 1)) q), d2)"
    by (simp add: record_op_def record_vanished_op_def Let_def)
  have "mem_data d2 Counter (bytes_key 5) = None" "mem_data d2 Counter (messages_key 5) = None"
    by (simp_all add: d1_def d2_def mem_data_set) (simp_all add: mem_data_def mail_db_def)
  then obtain d3 where "mem_ops ([Delete_Op (message_data_key 5 1), Delete_Op (metadata_key 5 1)] @ adjust_ops 5 (- 10) (- 1) @
      [Set_Op (entry_key 5 EmailVanished (smax 1 1)) p] @ [Set_Op (entry_key 5 Email (smax 2 1)) q]) d2 = Some d3"
    by (simp add: adjust_ops_def mem_data_set internal_def counter_merge_def has_merge_operator_def)
  from mem_store_batch [OF this] show ?thesis
    by (simp add: delete_message_def load van rec unlink_ops_def del: push_vanished_ops.simps)
qed

lemma bob_counters: "counters_ok (content_map (mem_data mail_db))"
proof -
  have "\<not> countable_key (message_data_key 5 doc)" for doc
    by (simp add: message_data_key_def)
  then show ?thesis
    by (auto simp: counters_ok_def counter_at_def content_map_def mem_data_def mail_db_def split: sum.splits)
qed

lemma bob_lines:
  "parse_command ''QUIT'' = \<lparr>pc_verb = ''QUIT'', pc_rest = [], pc_args = []\<rparr>"
  "parse_command ''USER bob@x'' = \<lparr>pc_verb = ''USER'', pc_rest = ''bob@x'', pc_args = [''bob@x'']\<rparr>"
  "parse_command ''PASS secret'' = \<lparr>pc_verb = ''PASS'', pc_rest = ''secret'', pc_args = [''secret'']\<rparr>"
  by (simp_all add: parse_command_def strip_crlf_def utf8_lossy_valid utf8_valid_ascii is_ascii_def trim_start_ascii
      split_once_whitespace_def split_whitespace_def split_runs_def str_chars_ascii str_of_ascii is_whitespace_def
      utf8_encode_def str_of_def) (simp_all add: char_of_eq_iff take_bit_eq_mod)

lemma bob_verbs: "verb_from_word ''QUIT'' = Quit_Verb" "verb_from_word ''USER'' = User_Verb" "verb_from_word ''PASS'' = Pass_Verb"
  by (simp_all add: verb_from_word_def to_ascii_uppercase_byte_def is_ascii_lowercase_def)

theorem pop3_quit_deletes_marked_witness:
  "\<exists>s'. dispatch bob_pop3 (parse_command ''QUIT'') bob_session = (Inr (Some Close_Flow), s') \<and>
    content_map (mem_data (w_store (ps_world s'))) (message_data_key 5 1) = None \<and>
    content_map (mem_data (w_store (ps_world s'))) (message_data_key 5 2) = Some ''d''"
proof -
  have quit: "verb_from_word (pc_verb (parse_command ''QUIT'')) = Quit_Verb"
    by (simp add: bob_lines bob_verbs)
  obtain d ns where "delete_message bob_mail mem_store 5 1 (mail_db, []) = (Inr True, (d, ns))"
    using bob_delete by blast
  moreover have "mail_account_id (ac_id bob) = 5"
    by (simp add: bob_resolves mail_account_id_def)
  ultimately obtain s' where s': "dispatch bob_pop3 (parse_command ''QUIT'') bob_session = (Inr (Some Close_Flow), s')"
    by (simp add: dispatch_def quit commit_deletions_def bob_session_def message_context_def bob_entry_def then_do_def
        pop3_write_def done_with_def)
  have before: "content_map (mem_data (w_store (ps_world bob_session))) (message_data_key 5 2) = Some ''d''"
    by (simp add: content_map_def mem_data_def bob_session_def mail_db_def)
  have st: "ps_state bob_session = Transaction" "ps_account bob_session = Some bob"
    "counters_ok (content_map (mem_data (w_store (ps_world bob_session))))"
    "ps_messages bob_session = [bob_entry 1 True, bob_entry 2 False]"
    using bob_counters by (simp_all add: bob_session_def)
  show ?thesis
    using pop3_quit_deletes_marked [of mem_rocksdb mem_data bob_pop3 "\<lambda>_. 0", OF mem_laws _ _ _ _ st(3,1,2) quit s'] s' before
    by (simp add: mem_store_def [symmetric] Let_def st(4) bob_entry_def \<open>mail_account_id (ac_id bob) = 5\<close>)
qed

text \<open>A client that logs in.\<close>

definition bob_input :: bytes where
  "bob_input = ''USER bob@x'' @ [LF] @ ''PASS secret'' @ [LF]"

definition bob_world :: "mem_db world" where
  "bob_world = \<lparr>w_store = bob_db, w_notices = [], w_throttle = \<lparr>th_store = ttl_new, th_ticks = 0\<rparr>\<rparr>"

lemma bob_grants:
  "\<exists>T. attempt_login bob_login mem_store bob_db (Some ''::1'') ''bob@x'' ''secret'' Mail_Purpose
    \<lparr>th_store = ttl_new, th_ticks = 0\<rparr> = (Inr (Granted bob (By_Primary False)), T)"
proof -
  have free: "is_locked (le_policy bob_login) (le_clock bob_login) (Some ip) j \<lparr>th_store = ttl_new, th_ticks = n\<rparr> =
      (False, \<lparr>th_store = ttl_new, th_ticks = n + (case j of Some _ \<Rightarrow> 2 | None \<Rightarrow> 1)\<rparr>)" for ip j n
    by (cases j) (simp_all add: is_locked_def subject_locked_def throttle_count_def ttl_get_def ttl_new_def bob_login_def
        policy_new_def)
  show ?thesis
    by (simp add: attempt_login_def free bob_resolves bob_authenticates)
qed

lemma bob_maildrop: "cache_build bob_mail mem_store bob_db 5 = Inr \<lparr>sc_account_id = 5, sc_entries = [], sc_last_change_id = 0\<rparr>"
proof -
  have "subspace_of (prefix_encode (prefix_collection Property 5 Email)) = Inr Property"
    using subspace_of_subspace_byte [of Property] by (simp add: prefix_encode_def prefix_collection_def)
  from mem_store_reads(3) [OF this, of bob_db] have "st_iterate mem_store bob_db (prefix_collection Property 5 Email) = []"
    by (simp add: mem_rows_def bob_db_def)
  then show ?thesis
    by (simp add: cache_build_def latest_change_id_def mem_store_reads bob_db_def smax_def)
qed

lemma bob_logs_in:
  "\<exists>s. pop3_reach bob_pop3 (session_new bob_input None True False bob_world) s \<and> ps_state s = Transaction"
proof -
  let ?s0 = "session_new bob_input None True False bob_world"
  obtain s1 where r1: "read_line ?s0 = (Inr (True, ''USER bob@x''), s1)"
    and s1: "s1 = session_new (''PASS secret'' @ [LF]) None True False bob_world"
    by (simp add: read_line_def session_new_def bob_input_def MAX_LINE_LENGTH_def)
  obtain s2 where d1: "dispatch bob_pop3 (parse_command ''USER bob@x'') s1 = (Inr None, s2)"
    and s2: "ps_input s2 = ''PASS secret'' @ [LF]" "ps_input_error s2 = None" "ps_state s2 = Authorization"
      "ps_data s2 = \<lparr>sd_user = Some ''bob@x'', sd_is_tls = True, sd_authenticated = False\<rparr>" "ps_world s2 = bob_world"
    by (simp add: dispatch_def bob_lines bob_verbs s1 session_new_def no_flow_def then_do_def pop3_write_def done_with_def
        trim_ascii is_ascii_def is_whitespace_def)
  obtain s3 where r2: "read_line s2 = (Inr (True, ''PASS secret''), s3)" and s3: "s3 = s2\<lparr>ps_input := []\<rparr>"
    by (simp add: read_line_def s2 MAX_LINE_LENGTH_def)
  obtain s4 where d2: "dispatch bob_pop3 (parse_command ''PASS secret'') s3 = (Inr None, s4)" and "ps_state s4 = Transaction"
    using bob_grants bob_maildrop
    by (auto simp: dispatch_def bob_lines bob_verbs s3 s2 bob_world_def run_pass_def resolve_login_def lift_result_def no_flow_def
        then_do_def pop3_write_def done_with_def load_maildrop_def message_context_def enter_transaction_def Let_def
        bob_resolves mail_account_id_def)
  then show ?thesis
    using pop3_reach.command [OF pop3_reach.command [OF pop3_reach.start r1 d1] r2 d2] by blast
qed

theorem pop3_session_invariant_witness:
  "\<exists>s. pop3_reach bob_pop3 (session_new bob_input None True False bob_world) s \<and> sd_is_tls (ps_data s) \<and>
    (\<exists>a. ps_account s = Some a \<and> granted_account bob_pop3 (w_store (ps_world s)) a)"
proof -
  obtain s where s: "pop3_reach bob_pop3 (session_new bob_input None True False bob_world) s" "ps_state s = Transaction"
    using bob_logs_in by blast
  show ?thesis
    using pop3_session_invariant [OF s(1)] s by auto
qed

end
