(* ===== verification/Mail_Resolve.thy ===== *)
theory Mail_Resolve
  imports Directory_Domains
begin

text \<open>
  Where the mail for a recipient goes (\<open>crates/mail/src/resolve.rs\<close>): the address index, the
  catch-all of the domain, and the role addresses of the administrators.
\<close>

datatype resolution = Resolve_Local u64 bool | Resolve_Forward bytes | Resolve_Rejected | Resolve_Unknown

definition is_accepted :: "resolution \<Rightarrow> bool" where
  "is_accepted r = (case r of Resolve_Local _ _ \<Rightarrow> True | Resolve_Forward _ \<Rightarrow> True | _ \<Rightarrow> False)"

definition resolved_account :: "resolution \<Rightarrow> u64 option" where
  "resolved_account r = (case r of Resolve_Local i _ \<Rightarrow> Some i | _ \<Rightarrow> None)"

definition recipient_domain :: "bytes \<Rightarrow> bytes option" where
  "recipient_domain address =
    (case rsplit_once ((=) CHR ''@'') address of
       Some (_, dm) \<Rightarrow> if trim dm \<noteq> [] then Some dm else None
     | None \<Rightarrow> None)"

definition canonical_recipient :: "directory_env \<Rightarrow> 's store \<Rightarrow> 's \<Rightarrow> bytes \<Rightarrow> bytes" where
  "canonical_recipient E S s recipient =
    (let trimmed = trim recipient in
     case rsplit_once ((=) CHR ''@'') trimmed of
       None \<Rightarrow> trimmed
     | Some (local, dm) \<Rightarrow>
         if trim dm = [] then trimmed
         else (case canonical_name (de_domain E) S s dm of
           Inr (Some canonical) \<Rightarrow>
             if \<not> eq_ignore_ascii_case canonical dm then local @ ''@'' @ canonical else trimmed
         | _ \<Rightarrow> trimmed))"

definition admin_of :: "account list \<Rightarrow> u64 option" where
  "admin_of accounts =
    (case map ac_id (filter (\<lambda>a. account_is_admin a \<and> ac_enabled a) accounts) of
       [] \<Rightarrow> None
     | i # is \<Rightarrow> Some (fold min is i))"

definition role_fallback :: "directory_env \<Rightarrow> 's store \<Rightarrow> 's \<Rightarrow> bytes \<Rightarrow> error + u64 option" where
  "role_fallback E S s recipient =
    (let (local, dm) = (case rsplit_once ((=) CHR ''@'') recipient of
            Some (local, dm) \<Rightarrow> (local, Some dm) | None \<Rightarrow> (recipient, None));
         is_postmaster = eq_ignore_ascii_case local ''postmaster'';
         is_role = (is_postmaster \<or> eq_ignore_ascii_case local ''tlsrpt'')
     in case dm of
          Some dm \<Rightarrow>
            if \<not> is_role then Inr None
            else and_then (domain_get_by_name (de_domain E) S s dm) (\<lambda>found.
              case found of
                None \<Rightarrow> Inr None
              | Some d \<Rightarrow>
                  and_then (list_for_domain E S s (dm_id d)) (\<lambda>accounts.
                    case admin_of accounts of
                      Some admin \<Rightarrow> Inr (Some admin)
                    | None \<Rightarrow> and_then (account_list E S s) (\<lambda>all. Inr (admin_of all))))
        | None \<Rightarrow>
            if \<not> is_postmaster then Inr None
            else and_then (account_list E S s) (\<lambda>all. Inr (admin_of all)))"

definition resolve :: "directory_env \<Rightarrow> 's store \<Rightarrow> 's \<Rightarrow> bytes \<Rightarrow> error + resolution" where
  "resolve E S s recipient0 =
    (let recipient = canonical_recipient E S s recipient0;
         fallback = and_then (role_fallback E S s recipient) (\<lambda>r.
           Inr (case r of Some i \<Rightarrow> Resolve_Local i False | None \<Rightarrow> Resolve_Unknown))
     in and_then (addr_resolve (de_entry E) S s recipient) (\<lambda>entry.
          case entry of
            Some e \<Rightarrow>
              Inr (case ae_target e of
                Target_Account i \<Rightarrow> Resolve_Local i False
              | Target_Forward destination \<Rightarrow> Resolve_Forward destination
              | Target_Reject \<Rightarrow> Resolve_Rejected)
          | None \<Rightarrow>
              (case recipient_domain recipient of
                 Some dm \<Rightarrow>
                   and_then (catch_all (de_entry E) S s dm) (\<lambda>wild.
                     case wild of
                       Some e \<Rightarrow>
                         (case ae_target e of Target_Account i \<Rightarrow> Inr (Resolve_Local i True) | _ \<Rightarrow> fallback)
                     | None \<Rightarrow> fallback)
               | None \<Rightarrow> fallback)))"

end
