(* ===== verification/Smtp_Queue.thy ===== *)
theory Smtp_Queue
  imports Store_Archive Store_Services Store_Memory
begin

text \<open>
  The outbound queue (\<open>crates/smtp/src\<close>): its records (\<open>queue_model.rs\<close>), the retry schedule
  (\<open>retry.rs\<close>), the leases (\<open>queue_lease.rs\<close>), the operations on stored messages
  (\<open>queue_enqueue.rs\<close>) and the scans of the manager (\<open>queue_manager.rs\<close>).  Times are seconds in
  64 bits; the archive format and the blob store are parameters.
\<close>

section \<open>Records\<close>

datatype recipient_status = Scheduled | Delivered | Deferred bytes | Bounced bytes

fun is_pending :: "recipient_status \<Rightarrow> bool" where
  "is_pending Scheduled = True"
| "is_pending (Deferred reason) = True"
| "is_pending status = False"

definition is_settled :: "recipient_status \<Rightarrow> bool" where
  "is_settled status \<longleftrightarrow> \<not> is_pending status"

record retry_schedule =
  rt_attempts :: u32
  rt_due :: u64

definition retry_first :: "u64 \<Rightarrow> retry_schedule" where
  "retry_first due = \<lparr>rt_attempts = 0, rt_due = due\<rparr>"

definition retry_is_due :: "retry_schedule \<Rightarrow> u64 \<Rightarrow> bool" where
  "retry_is_due r now \<longleftrightarrow> rt_due r \<le> now"

record notify_schedule =
  nt_sent :: u32
  nt_due :: u64

definition notify_first :: "u64 \<Rightarrow> notify_schedule" where
  "notify_first due = \<lparr>nt_sent = 0, nt_due = due\<rparr>"

datatype expiry = Expiry_At u64 | Expiry_Attempts u32

fun expiry_reached :: "expiry \<Rightarrow> u32 \<Rightarrow> u64 \<Rightarrow> bool" where
  "expiry_reached (Expiry_At deadline) attempts now \<longleftrightarrow> deadline \<le> now"
| "expiry_reached (Expiry_Attempts limit) attempts now \<longleftrightarrow> limit \<le> attempts"

record queue_recipient =
  qr_address :: bytes
  qr_status :: recipient_status
  qr_retry :: retry_schedule
  qr_notify :: notify_schedule
  qr_expiry :: expiry

definition recipient_new :: "bytes \<Rightarrow> u64 \<Rightarrow> expiry \<Rightarrow> queue_recipient" where
  "recipient_new address due e =
    \<lparr>qr_address = address, qr_status = Scheduled, qr_retry = retry_first due, qr_notify = notify_first due, qr_expiry = e\<rparr>"

definition recipient_is_due :: "queue_recipient \<Rightarrow> u64 \<Rightarrow> bool" where
  "recipient_is_due r now \<longleftrightarrow> is_pending (qr_status r) \<and> retry_is_due (qr_retry r) now"

record queued_message =
  qm_created :: u64
  qm_blob_hash :: bytes
  qm_size :: u64
  qm_return_path :: bytes
  qm_recipients :: "queue_recipient list"

definition next_due :: "queued_message \<Rightarrow> u64 option" where
  "next_due m =
    (case map (\<lambda>r. rt_due (qr_retry r)) (filter (\<lambda>r. is_pending (qr_status r)) (qm_recipients m)) of
       [] \<Rightarrow> None
     | t # ts \<Rightarrow> Some (fold min ts t))"

definition has_due_recipient :: "queued_message \<Rightarrow> u64 \<Rightarrow> bool" where
  "has_due_recipient m now = list_ex (\<lambda>r. recipient_is_due r now) (qm_recipients m)"

definition is_complete :: "queued_message \<Rightarrow> bool" where
  "is_complete m = list_all (\<lambda>r. is_settled (qr_status r)) (qm_recipients m)"

section \<open>Retries\<close>

definition BASE_BACKOFF :: u64 where
  "BASE_BACKOFF = 300"

definition MAX_BACKOFF :: u64 where
  "MAX_BACKOFF = 7200"

definition MAX_SHIFT :: u32 where
  "MAX_SHIFT = 16"

datatype retry_decision = Retry retry_schedule | Bounce

definition backoff :: "u32 \<Rightarrow> u64" where
  "backoff attempts =
    (let shift = min attempts MAX_SHIFT
     in min (saturating_mul BASE_BACKOFF (push_bit (unat shift) 1)) MAX_BACKOFF)"

definition next_after_deferral :: "retry_schedule \<Rightarrow> expiry \<Rightarrow> u64 \<Rightarrow> retry_decision" where
  "next_after_deferral r e now =
    (let attempts = saturating_add (rt_attempts r) 1 in
     if expiry_reached e attempts now then Bounce
     else Retry \<lparr>rt_attempts = attempts, rt_due = saturating_add now (backoff (rt_attempts r))\<rparr>)"

section \<open>Leases\<close>

datatype lease = Granted_Lease | Held_Lease

record lease_registry =
  lr_held :: "u32 \<rightharpoonup> u64"
  lr_lease :: u64

definition lease_registry_new :: "u64 \<Rightarrow> lease_registry" where
  "lease_registry_new lease = \<lparr>lr_held = Map.empty, lr_lease = lease\<rparr>"

definition lease_acquire :: "u32 \<Rightarrow> u64 \<Rightarrow> lease_registry \<Rightarrow> lease \<times> lease_registry" where
  "lease_acquire i now L =
    (let grant = (Granted_Lease, L\<lparr>lr_held := (lr_held L)(i \<mapsto> saturating_add now (lr_lease L))\<rparr>) in
     case lr_held L i of
       Some expires \<Rightarrow> if now < expires then (Held_Lease, L) else grant
     | None \<Rightarrow> grant)"

definition lease_release :: "u32 \<Rightarrow> lease_registry \<Rightarrow> lease_registry" where
  "lease_release i L = L\<lparr>lr_held := (lr_held L)(i := None)\<rparr>"

definition lease_is_held :: "u32 \<Rightarrow> u64 \<Rightarrow> lease_registry \<Rightarrow> bool" where
  "lease_is_held i now L = (case lr_held L i of Some expires \<Rightarrow> now < expires | None \<Rightarrow> False)"

section \<open>Stored messages\<close>

definition queue_key :: "u32 \<Rightarrow> bytes" where
  "queue_key i = key_encode (key_new Queue 0 EmailSubmission i)"

definition id_counter_key :: bytes where
  "id_counter_key = key_encode (key_new Counter 0 EmailSubmission 0)"

record enqueue_request =
  en_created :: u64
  en_return_path :: bytes
  en_recipients :: "(bytes \<times> expiry) list"
  en_first_due :: u64

definition allocate_id :: "'s store \<Rightarrow> 's \<Rightarrow> (error + u32) \<times> 's" where
  "allocate_id S s =
    (case st_add_and_get S s id_counter_key 1 of
       (Inl e, s') \<Rightarrow> (Inl e, s')
     | (Inr n, s') \<Rightarrow> (Inr (ucast n), s'))"

text \<open>The state is the key-value store and the blob store.\<close>

definition enqueue ::
  "queued_message rkyv \<Rightarrow> 's store \<Rightarrow> 'b blob_store \<Rightarrow> bytes \<Rightarrow> enqueue_request \<Rightarrow> 's \<times> 'b
    \<Rightarrow> (error + u32 \<times> queued_message) \<times> ('s \<times> 'b)" where
  "enqueue A S B raw request = (\<lambda>(s, b).
    case bs_put B b raw of
      (Inl e, b') \<Rightarrow> (Inl e, (s, b'))
    | (Inr hash, b') \<Rightarrow>
        (case allocate_id S s of
           (Inl e, s') \<Rightarrow> (Inl e, (s', b'))
         | (Inr i, s') \<Rightarrow>
             (let message =
                \<lparr>qm_created = en_created request, qm_blob_hash = hash, qm_size = of_nat (length raw),
                 qm_return_path = en_return_path request,
                 qm_recipients = map (\<lambda>(address, e). recipient_new address (en_first_due request) e) (en_recipients request)\<rparr>
              in case rkyv_archive A message of
                   Inl e \<Rightarrow> (Inl e, (s', b'))
                 | Inr v \<Rightarrow>
                     (case st_put S s' (queue_key i) v of
                        (Inl e, s'') \<Rightarrow> (Inl e, (s'', b'))
                      | (Inr _, s'') \<Rightarrow> (Inr (i, message), (s'', b'))))))"

definition queue_load :: "queued_message rkyv \<Rightarrow> 's store \<Rightarrow> 's \<Rightarrow> u32 \<Rightarrow> error + queued_message option" where
  "queue_load A S s i =
    and_then (st_get S s (queue_key i))
      (\<lambda>v. case v of Some b \<Rightarrow> and_then (deserialize A b) (\<lambda>m. Inr (Some m)) | None \<Rightarrow> Inr None)"

definition queue_persist :: "queued_message rkyv \<Rightarrow> 's store \<Rightarrow> u32 \<Rightarrow> queued_message \<Rightarrow> 's \<Rightarrow> (error + unit) \<times> 's" where
  "queue_persist A S i m s =
    (case rkyv_archive A m of Inl e \<Rightarrow> (Inl e, s) | Inr v \<Rightarrow> st_put S s (queue_key i) v)"

definition queue_remove :: "'s store \<Rightarrow> u32 \<Rightarrow> 's \<Rightarrow> (error + unit) \<times> 's" where
  "queue_remove S i s = st_delete S s (queue_key i)"

definition retry_now :: "queued_message rkyv \<Rightarrow> 's store \<Rightarrow> u32 \<Rightarrow> u64 \<Rightarrow> 's \<Rightarrow> (error + bool) \<times> 's" where
  "retry_now A S i now s =
    (case queue_load A S s i of
       Inl e \<Rightarrow> (Inl e, s)
     | Inr None \<Rightarrow> (Inr False, s)
     | Inr (Some m) \<Rightarrow>
         (let m' = m\<lparr>qm_recipients := map (\<lambda>r.
               if is_pending (qr_status r) then r\<lparr>qr_retry := (qr_retry r)\<lparr>rt_due := now\<rparr>\<rparr> else r) (qm_recipients m)\<rparr>
          in case queue_persist A S i m' s of
               (Inl e, s') \<Rightarrow> (Inl e, s')
             | (Inr _, s') \<Rightarrow> (Inr True, s')))"

section \<open>The manager\<close>

abbreviation QUEUE_ID_OFFSET :: nat where
  "QUEUE_ID_OFFSET \<equiv> 1 + 4 + 1"

definition queue_id_of :: "bytes \<Rightarrow> error + u32" where
  "queue_id_of k =
    (if length k < QUEUE_ID_OFFSET + 4 then Inl (Store_Error ''queue key is too short to carry a queue id'')
     else Inr (of_nat (from_be (take 4 (drop QUEUE_ID_OFFSET k)))))"

record due_message =
  du_id :: u32
  du_message :: queued_message

record due_batch =
  db_messages :: "due_message list"
  db_next_due :: "u64 option"

definition scan_due_visit :: "queued_message rkyv \<Rightarrow> u64 \<Rightarrow> (due_message list \<times> u64 option) visitor" where
  "scan_due_visit A now k v = (\<lambda>(messages, next).
    and_then (deserialize A v) (\<lambda>m.
      if is_complete m then Inr (Continue, (messages, next))
      else if has_due_recipient m now
      then and_then (queue_id_of k) (\<lambda>i. Inr (Continue, (messages @ [\<lparr>du_id = i, du_message = m\<rparr>], next)))
      else case next_due m of
        Some due \<Rightarrow> Inr (Continue, (messages, Some (case next of Some earliest \<Rightarrow> min earliest due | None \<Rightarrow> due)))
      | None \<Rightarrow> Inr (Continue, (messages, next))))"

definition scan_due :: "queued_message rkyv \<Rightarrow> 's store \<Rightarrow> 's \<Rightarrow> u64 \<Rightarrow> error + due_batch" where
  "scan_due A S s now =
    and_then (visit_rows (scan_due_visit A now) (st_iterate S s (prefix_subspace Queue)) ([], None))
      (\<lambda>(messages, next). Inr \<lparr>db_messages = messages, db_next_due = next\<rparr>)"

definition scan_all_visit :: "queued_message rkyv \<Rightarrow> due_message list visitor" where
  "scan_all_visit A k v messages =
    and_then (deserialize A v) (\<lambda>m.
      if is_complete m then Inr (Continue, messages)
      else and_then (queue_id_of k) (\<lambda>i. Inr (Continue, messages @ [\<lparr>du_id = i, du_message = m\<rparr>])))"

definition scan_all :: "queued_message rkyv \<Rightarrow> 's store \<Rightarrow> 's \<Rightarrow> error + due_message list" where
  "scan_all A S s = visit_rows (scan_all_visit A) (st_iterate S s (prefix_subspace Queue)) []"

text \<open>The delay after which the manager wakes.\<close>

definition REFRESH_INTERVAL :: u64 where
  "REFRESH_INTERVAL = 300"

definition next_wake :: "u64 \<Rightarrow> u64 option \<Rightarrow> u64" where
  "next_wake now due = (case due of Some d \<Rightarrow> min (saturating_sub d now) REFRESH_INTERVAL | None \<Rightarrow> REFRESH_INTERVAL)"

section \<open>Scanning\<close>

lemma has_due_incomplete: "has_due_recipient m now \<Longrightarrow> \<not> is_complete m"
  by (auto simp: has_due_recipient_def is_complete_def recipient_is_due_def is_settled_def list_ex_iff list_all_iff)

lemma incomplete_next_due: "\<not> is_complete m \<Longrightarrow> next_due m \<noteq> None"
  by (auto simp: is_complete_def next_due_def is_settled_def list_all_iff filter_empty_conv split: list.split)

lemma fold_min_Min: "fold min ts t = Min (insert t (set ts))" for t :: "'a::linorder"
  using Min.set_eq_fold [of t ts] by simp

lemma next_due_later:
  assumes "\<not> has_due_recipient m now" and "next_due m = Some t"
  shows "now < t"
proof -
  let ?ts = "map (\<lambda>r. rt_due (qr_retry r)) (filter (\<lambda>r. is_pending (qr_status r)) (qm_recipients m))"
  have "t \<in> set ?ts"
  proof (cases ?ts)
    case (Cons u us)
    then have "t = Min (set ?ts)"
      using assms(2) by (simp add: next_due_def fold_min_Min)
    then show ?thesis
      using Cons Min_in [of "set ?ts"] by simp
  qed (use assms(2) in \<open>simp add: next_due_def\<close>)
  then show ?thesis
    using assms(1) by (auto simp: has_due_recipient_def recipient_is_due_def retry_is_due_def list_ex_iff)
qed

lemma in_map_filter: "y \<in> set (List.map_filter f xs) \<longleftrightarrow> (\<exists>x\<in>set xs. f x = Some y)"
  by (induction xs) (auto split: option.splits)

text \<open>What one row contributes to a scan.\<close>

definition due_entry :: "queued_message rkyv \<Rightarrow> u64 \<Rightarrow> row \<Rightarrow> due_message option" where
  "due_entry A now = (\<lambda>(k, v).
    case deserialize A v of
      Inr m \<Rightarrow> if has_due_recipient m now
        then (case queue_id_of k of Inr i \<Rightarrow> Some \<lparr>du_id = i, du_message = m\<rparr> | Inl _ \<Rightarrow> None) else None
    | Inl _ \<Rightarrow> None)"

definition later_entry :: "queued_message rkyv \<Rightarrow> u64 \<Rightarrow> row \<Rightarrow> u64 option" where
  "later_entry A now = (\<lambda>(k, v).
    case deserialize A v of
      Inr m \<Rightarrow> if is_complete m \<or> has_due_recipient m now then None else next_due m
    | Inl _ \<Rightarrow> None)"

definition earliest :: "u64 list \<Rightarrow> u64 option" where
  "earliest ts = (if ts = [] then None else Some (Min (set ts)))"

lemma earliest_snoc:
  "earliest (ts @ [t]) = Some (case earliest ts of Some u \<Rightarrow> min u t | None \<Rightarrow> t)"
  by (auto simp: earliest_def min.commute)

lemma scan_due_rows:
  assumes "visit_rows (scan_due_visit A now) (map Inr xs) (ms, earliest ts) = Inr (ms', next')"
  shows "(\<forall>(k, v)\<in>set xs. \<exists>m. deserialize A v = Inr m) \<and>
    ms' = ms @ List.map_filter (due_entry A now) xs \<and> next' = earliest (ts @ List.map_filter (later_entry A now) xs)"
  using assms
proof (induction xs arbitrary: ms ts)
  case (Cons x xs)
  obtain k v where x: "x = (k, v)"
    by (cases x)
  from Cons.prems obtain m where m: "deserialize A v = Inr m"
    by (cases "deserialize A v") (auto simp: x scan_due_visit_def)
  consider "is_complete m" | "\<not> is_complete m" "has_due_recipient m now" | "\<not> is_complete m" "\<not> has_due_recipient m now"
    by blast
  then show ?case
  proof cases
    case 1
    then have "\<not> has_due_recipient m now"
      using has_due_incomplete by blast
    then show ?thesis
      using Cons.prems Cons.IH [of ms ts] 1 m
      by (simp add: x scan_due_visit_def due_entry_def later_entry_def)
  next
    case 2
    then show ?thesis
      using Cons.prems m Cons.IH [of "ms @ [_]" ts]
      by (cases "queue_id_of k") (auto simp: x scan_due_visit_def due_entry_def later_entry_def)
  next
    case 3
    then obtain t where t: "next_due m = Some t"
      using incomplete_next_due by blast
    show ?thesis
      using Cons.prems m 3 t Cons.IH [of ms "ts @ [t]"]
      by (simp add: x scan_due_visit_def due_entry_def later_entry_def earliest_snoc)
  qed
qed (simp add:)

text \<open>The queue subspace holds queue records only.\<close>

definition queue_keys :: "content \<Rightarrow> bool" where
  "queue_keys m \<longleftrightarrow> (\<forall>k. m k \<noteq> None \<longrightarrow> prefix [subspace_byte Queue] k \<longrightarrow> (\<exists>i. k = queue_key i))"

lemma queue_key_props [simp]:
  "queue_key i = queue_key j \<longleftrightarrow> i = j" "queue_key i < queue_key j \<longleftrightarrow> i < j" "prefix ''q'' (queue_key i)"
  "queue_id_of (queue_key i) = Inr i" "subspace_of (queue_key i) = Inr Queue" "subspace_of id_counter_key = Inr Counter"
  "queue_key i \<noteq> id_counter_key" "id_counter_key \<noteq> queue_key i" "countable_key id_counter_key"
proof -
  show "queue_key i < queue_key j \<longleftrightarrow> i < j"
    by (simp add: queue_key_def key_encode_less)
  have "of_nat (from_be (be32 i)) = i"
    using try_word_bytes(1) [of i] by (simp add: try_be32_def)
  then show "queue_id_of (queue_key i) = Inr i"
    by (simp add: queue_id_of_def queue_key_def key_encode_def)
  show "prefix ''q'' (queue_key i)"
    by (simp add: queue_key_def key_encode_def)
  show "countable_key id_counter_key"
    by (simp add: id_counter_key_def key_encode_def countable_key_def)
qed (simp_all add: queue_key_def id_counter_key_def key_new_def)

context kv_store
begin

lemma scan_due_effect:
  assumes "scan_due A S s now = Inr batch" and "queue_keys (content s)"
  shows "(\<forall>i m. \<lparr>du_id = i, du_message = m\<rparr> \<in> set (db_messages batch) \<longleftrightarrow>
      (\<exists>v. content s (queue_key i) = Some v \<and> deserialize A v = Inr m \<and> has_due_recipient m now)) \<and>
    sorted_wrt (<) (map du_id (db_messages batch)) \<and>
    db_next_due batch = earliest (List.map_filter (later_entry A now) (scan (content s) [subspace_byte Queue] []))"
proof -
  let ?xs = "scan (content s) [subspace_byte Queue] []"
  from assms(1) obtain ms nx where "visit_rows (scan_due_visit A now) (st_iterate S s (prefix_subspace Queue)) ([], None) = Inr (ms, nx)"
    and b: "batch = \<lparr>db_messages = ms, db_next_due = nx\<rparr>"
    by (auto simp: scan_due_def and_then_eq_Inr)
  then have "visit_rows (scan_due_visit A now) (map Inr ?xs) ([], earliest []) = Inr (ms, nx)"
    using iterate_visit by (fastforce simp: earliest_def)
  from scan_due_rows [OF this] have ms: "ms = List.map_filter (due_entry A now) ?xs"
    and nx: "nx = earliest (List.map_filter (later_entry A now) ?xs)"
    by simp_all
  have keys: "\<exists>i. k = queue_key i" if "(k, v) \<in> set ?xs" for k v
    using that assms(2) by (auto simp: set_scan_content queue_keys_def)
  have "\<lparr>du_id = i, du_message = m\<rparr> \<in> set ms \<longleftrightarrow>
      (\<exists>v. content s (queue_key i) = Some v \<and> deserialize A v = Inr m \<and> has_due_recipient m now)" for i m
  proof
    assume "\<lparr>du_id = i, du_message = m\<rparr> \<in> set ms"
    then obtain k v where kv: "(k, v) \<in> set ?xs" "due_entry A now (k, v) = Some \<lparr>du_id = i, du_message = m\<rparr>"
      by (auto simp: ms in_map_filter)
    with keys obtain j where "k = queue_key j"
      by blast
    with kv show "\<exists>v. content s (queue_key i) = Some v \<and> deserialize A v = Inr m \<and> has_due_recipient m now"
      by (auto simp: due_entry_def set_scan_content split: sum.splits if_splits)
  next
    assume "\<exists>v. content s (queue_key i) = Some v \<and> deserialize A v = Inr m \<and> has_due_recipient m now"
    then obtain v where v: "content s (queue_key i) = Some v" "deserialize A v = Inr m" "has_due_recipient m now"
      by blast
    then have "(queue_key i, v) \<in> set ?xs" "due_entry A now (queue_key i, v) = Some \<lparr>du_id = i, du_message = m\<rparr>"
      by (simp_all add: set_scan_content due_entry_def)
    then show "\<lparr>du_id = i, du_message = m\<rparr> \<in> set ms"
      unfolding ms in_map_filter by blast
  qed
  moreover have "sorted_wrt (<) (map du_id ms)"
  proof -
    have "sorted_wrt (<) (map du_id (List.map_filter (due_entry A now) xs))"
      if "sorted_wrt (<) (map fst xs)" "\<forall>(k, v)\<in>set xs. \<exists>i. k = queue_key i" for xs
      using that
    proof (induction xs)
      case (Cons x xs)
      then show ?case
        by (fastforce simp: in_map_filter due_entry_def split: option.splits sum.splits if_splits)
    qed simp
    moreover have "sorted_wrt (<) (map fst ?xs)"
      using scan_sorted [of "content s" "[subspace_byte Queue]" "[]"] by (simp add: strict_sorted_iff)
    ultimately show ?thesis
      unfolding ms using keys by blast
  qed
  ultimately show ?thesis
    using nx by (simp add: b)
qed

end

text \<open>A stored message that is unfinished and not due yet.\<close>

definition waiting :: "queued_message rkyv \<Rightarrow> content \<Rightarrow> u64 \<Rightarrow> queued_message \<Rightarrow> bool" where
  "waiting A m now q \<longleftrightarrow>
    (\<exists>i v. m (queue_key i) = Some v \<and> deserialize A v = Inr q) \<and> \<not> is_complete q \<and> \<not> has_due_recipient q now"

lemma later_entries:
  assumes "finite (dom m)" and "queue_keys m"
  shows "t \<in> set (List.map_filter (later_entry A now) (scan m [subspace_byte Queue] [])) \<longleftrightarrow>
    (\<exists>q. waiting A m now q \<and> next_due q = Some t)"
  unfolding in_map_filter
proof
  assume "\<exists>x\<in>set (scan m [subspace_byte Queue] []). later_entry A now x = Some t"
  then obtain k v where kv: "(k, v) \<in> set (scan m [subspace_byte Queue] [])" "later_entry A now (k, v) = Some t"
    by auto
  with assms obtain i where "k = queue_key i" "m k = Some v"
    by (auto simp: set_scan queue_keys_def)
  with kv(2) show "\<exists>q. waiting A m now q \<and> next_due q = Some t"
    by (auto simp: later_entry_def waiting_def split: sum.splits if_splits)
next
  assume "\<exists>q. waiting A m now q \<and> next_due q = Some t"
  then obtain i v q where "m (queue_key i) = Some v" "deserialize A v = Inr q" "\<not> is_complete q" "\<not> has_due_recipient q now"
    "next_due q = Some t"
    by (auto simp: waiting_def)
  then have "(queue_key i, v) \<in> set (scan m [subspace_byte Queue] [])" "later_entry A now (queue_key i, v) = Some t"
    using assms(1) by (simp_all add: set_scan later_entry_def)
  then show "\<exists>x\<in>set (scan m [subspace_byte Queue] []). later_entry A now x = Some t"
    by blast
qed

lemma earliest_waiting:
  assumes "\<And>t. t \<in> set ts \<longleftrightarrow> (\<exists>q. waiting A m now q \<and> next_due q = Some t)"
  shows "case earliest ts of
      None \<Rightarrow> \<not> (\<exists>q. waiting A m now q)
    | Some t \<Rightarrow> now < t \<and> (\<exists>q. waiting A m now q \<and> next_due q = Some t) \<and>
        (\<forall>q. waiting A m now q \<longrightarrow> (\<exists>u\<ge>t. next_due q = Some u))"
proof -
  have some: "\<exists>u\<in>set ts. next_due q = Some u" if "waiting A m now q" for q
    using that assms incomplete_next_due by (fastforce simp: waiting_def)
  have later: "now < t" if "t \<in> set ts" for t
    using that assms next_due_later by (auto simp: waiting_def)
  show ?thesis
  proof (cases "ts = []")
    case True
    then show ?thesis
      using some by (force simp: earliest_def)
  next
    case False
    let ?t = "Min (set ts)"
    have t: "?t \<in> set ts"
      using False by simp
    have "\<exists>u\<ge>?t. next_due q = Some u" if "waiting A m now q" for q
      using some [OF that] Min_le [of "set ts"] by auto
    then show ?thesis
      using False later [OF t] assms [of ?t] t by (simp add: earliest_def)
  qed
qed

text \<open>
  C6. A pass over the queue is complete and exact.  A successful \<open>scan_due\<close> returns, in the order of
  their identifiers, exactly the stored messages with a recipient that is pending and due; and the
  time it reports is the earliest at which a waiting message becomes due, which lies in the future,
  and is absent only when no message waits.
\<close>

theorem scan_due_exact:
  assumes "rocksdb_laws R data" and "scan_due A (rocksdb_store R elapsed) d now = Inr batch"
    and "queue_keys (content_map (data d))"
  shows "(\<forall>i m. \<lparr>du_id = i, du_message = m\<rparr> \<in> set (db_messages batch) \<longleftrightarrow>
      (\<exists>v. content_map (data d) (queue_key i) = Some v \<and> deserialize A v = Inr m \<and> has_due_recipient m now)) \<and>
    sorted_wrt (<) (map du_id (db_messages batch)) \<and>
    (case db_next_due batch of
       None \<Rightarrow> \<not> (\<exists>q. waiting A (content_map (data d)) now q)
     | Some t \<Rightarrow> now < t \<and> (\<exists>q. waiting A (content_map (data d)) now q \<and> next_due q = Some t) \<and>
         (\<forall>q. waiting A (content_map (data d)) now q \<longrightarrow> (\<exists>u\<ge>t. next_due q = Some u)))"
proof -
  note kv = rocksdb_laws.store_contract [OF assms(1)]
  note eff = kv_store.scan_due_effect [OF kv assms(2,3)]
  have "case db_next_due batch of
       None \<Rightarrow> \<not> (\<exists>q. waiting A (content_map (data d)) now q)
     | Some t \<Rightarrow> now < t \<and> (\<exists>q. waiting A (content_map (data d)) now q \<and> next_due q = Some t) \<and>
         (\<forall>q. waiting A (content_map (data d)) now q \<longrightarrow> (\<exists>u\<ge>t. next_due q = Some u))"
    using earliest_waiting [OF later_entries [OF kv_store.finite_content [OF kv] assms(3)]] eff by simp
  then show ?thesis
    using eff by blast
qed

section \<open>Retrying\<close>

text \<open>The state of a recipient's schedule after deferrals at the times of a clock.\<close>

fun after_deferrals :: "expiry \<Rightarrow> (nat \<Rightarrow> u64) \<Rightarrow> retry_schedule \<Rightarrow> nat \<Rightarrow> retry_decision" where
  "after_deferrals e clock r 0 = Retry r"
| "after_deferrals e clock r (Suc n) =
    (case after_deferrals e clock r n of
       Bounce \<Rightarrow> Bounce
     | Retry r' \<Rightarrow> next_after_deferral r' e (clock n))"

lemma backoff_range: "BASE_BACKOFF \<le> backoff attempts \<and> backoff attempts \<le> MAX_BACKOFF"
proof -
  define k where "k = unat (min attempts MAX_SHIFT)"
  have "k \<le> 16"
    by (simp add: k_def min_def MAX_SHIFT_def word_le_nat_alt)
  then have p: "(2::nat) ^ k \<le> 2 ^ 16"
    by (rule power_increasing) simp
  have u: "unat (push_bit k 1 :: u64) = 2 ^ k"
    using p by (subst unsigned_push_bit_eq) (simp add: push_bit_eq_mult take_bit_eq_mod)
  have "unat (saturating_mul BASE_BACKOFF (push_bit k 1)) = 300 * 2 ^ k"
    using p u by (simp add: unat_saturating_mul BASE_BACKOFF_def)
  then have "BASE_BACKOFF \<le> saturating_mul BASE_BACKOFF (push_bit k 1)"
    by (simp add: word_le_nat_alt BASE_BACKOFF_def)
  then show ?thesis
    by (simp add: backoff_def k_def [symmetric] Let_def BASE_BACKOFF_def MAX_BACKOFF_def)
qed

lemma unat_succ_bound: "n < 2 ^ 32 - 1 \<Longrightarrow> unat (a :: u32) = n \<Longrightarrow> unat (saturating_add a 1) = Suc n"
  by (simp add: unat_saturating_add)

text \<open>
  C15. A recipient is not retried for ever.  After \<open>n\<close> deferrals at arbitrary times the recipient is
  given up exactly when the limit of attempts was reached, or the deadline had passed at one of
  them; otherwise \<open>n\<close> attempts are on record, and the next one is due between five minutes and two
  hours after the last, where the 64-bit clock does not end before.
\<close>

theorem retries_bounded:
  assumes "n < 2 ^ 32"
  shows "case after_deferrals e clock (retry_first start) n of
      Bounce \<Rightarrow> 0 < n \<and> (case e of
          Expiry_At deadline \<Rightarrow> \<exists>i<n. deadline \<le> clock i
        | Expiry_Attempts limit \<Rightarrow> unat limit \<le> n)
    | Retry r \<Rightarrow> unat (rt_attempts r) = n \<and>
        (0 < n \<longrightarrow> (case e of
            Expiry_At deadline \<Rightarrow> \<forall>i<n. clock i < deadline
          | Expiry_Attempts limit \<Rightarrow> n < unat limit) \<and>
          min (unat (clock (n - 1)) + 300) (2 ^ 64 - 1) \<le> unat (rt_due r) \<and>
          unat (rt_due r) \<le> unat (clock (n - 1)) + 7200)"
  using assms
proof (induction n)
  case 0
  then show ?case
    by (simp add: retry_first_def)
next
  case (Suc n)
  show ?case
  proof (cases "after_deferrals e clock (retry_first start) n")
    case Bounce
    then show ?thesis
      using Suc by (auto split: expiry.splits intro: less_SucI)
  next
    case (Retry r)
    have "unat (saturating_add (rt_attempts r) 1) = Suc n"
      using Suc Retry by (intro unat_succ_bound) auto
    then show ?thesis
      using Suc Retry backoff_range [of "rt_attempts r"]
      by (auto simp: next_after_deferral_def Let_def unat_saturating_add word_le_nat_alt word_less_nat_alt BASE_BACKOFF_def
          MAX_BACKOFF_def less_Suc_eq not_le split: expiry.splits)
  qed
qed

theorem retries_bounded_witness:
  "case after_deferrals (Expiry_Attempts 3) (\<lambda>i. of_nat i * 1000) (retry_first 0) 2 of
     Bounce \<Rightarrow> False
   | Retry r \<Rightarrow> unat (rt_attempts r) = 2 \<and> 1300 \<le> unat (rt_due r) \<and> unat (rt_due r) \<le> 8200"
  using retries_bounded [where n = 2 and e = "Expiry_Attempts 3" and clock = "\<lambda>i. of_nat i * 1000" and start = 0] by (auto split: retry_decision.splits)

section \<open>A queue\<close>

text \<open>Two messages in the queue, archived by their creation time.\<close>

definition sample_recipient :: "u64 \<Rightarrow> queue_recipient" where
  "sample_recipient due = recipient_new ''a@b'' due (Expiry_Attempts 3)"

definition sample_message :: "u64 \<Rightarrow> queued_message" where
  "sample_message due =
    \<lparr>qm_created = due, qm_blob_hash = ''h'', qm_size = 1, qm_return_path = ''s@x'', qm_recipients = [sample_recipient due]\<rparr>"

definition sample_rkyv :: "queued_message rkyv" where
  "sample_rkyv =
    \<lparr>rkyv_to_bytes = (\<lambda>m. if m = sample_message (qm_created m) then Inr (be64 (qm_created m)) else Inl ''other''),
     rkyv_access = (\<lambda>_. None),
     rkyv_deserialize = (\<lambda>v. case try_be64 v of Some t \<Rightarrow> Inr (sample_message t) | None \<Rightarrow> Inl ''length'')\<rparr>"

definition queue_db :: mem_db where
  "queue_db = [((Queue, queue_key 1), be64 10), ((Queue, queue_key 2), be64 70)]"

lemma queue_db_keys: "queue_keys (content_map (mem_data queue_db))"
  by (auto simp: queue_keys_def content_map_def mem_data_def queue_db_def split: sum.splits if_splits)

lemma queue_db_rows: "st_iterate mem_store queue_db (prefix_subspace Queue) = [Inr (queue_key 1, be64 10), Inr (queue_key 2, be64 70)]"
proof -
  have q: "subspace_of ''q'' = Inr Queue" "''q'' \<le> queue_key i" for i
    using subspace_of_subspace_byte [of Queue "[]"] by (simp_all add: prefix_le)
  have "queue_key 1 \<le> queue_key 2"
    by (simp add: less_imp_le)
  then show ?thesis
    by (subst mem_store_reads(3) [where s = Queue]) (simp_all add: mem_rows_def queue_db_def q)
qed

lemma sample_scan:
  "scan_due sample_rkyv mem_store queue_db 20 =
    Inr \<lparr>db_messages = [\<lparr>du_id = 1, du_message = sample_message 10\<rparr>], db_next_due = Some 70\<rparr>"
  by (simp add: scan_due_def queue_db_rows scan_due_visit_def deserialize_def sample_rkyv_def sample_message_def
      is_complete_def is_settled_def has_due_recipient_def recipient_is_due_def retry_is_due_def sample_recipient_def
      recipient_new_def retry_first_def next_due_def)

theorem scan_due_exact_witness:
  "scan_due sample_rkyv mem_store queue_db 20 =
      Inr \<lparr>db_messages = [\<lparr>du_id = 1, du_message = sample_message 10\<rparr>], db_next_due = Some 70\<rparr> \<and>
    (\<exists>q. waiting sample_rkyv (content_map (mem_data queue_db)) 20 q \<and> next_due q = Some 70)"
  using scan_due_exact [OF mem_laws sample_scan [unfolded mem_store_def] queue_db_keys] sample_scan by simp

end
