(* ===== verification/Smtp_Dsn.thy ===== *)
theory Smtp_Dsn
  imports Smtp_Queue Utf8 "HOL-Library.Signed_Division"
begin

text \<open>
  The delivery status notification for bounced recipients (\<open>crates/smtp/src/dsn.rs\<close>), with the
  calendar arithmetic behind its dates.
\<close>

section \<open>Dates\<close>

text \<open>
  The days since the epoch are below 2 to the 48, so that the 64-bit arithmetic is exact.  Division
  of signed integers truncates.
\<close>

record rfc822_date =
  rd_weekday :: nat
  rd_day :: nat
  rd_month :: nat
  rd_year :: int
  rd_hour :: nat
  rd_minute :: nat
  rd_second :: nat

definition date_from_timestamp :: "int \<Rightarrow> rfc822_date" where
  "date_from_timestamp timestamp =
    (let days = timestamp div 86400;
         seconds = timestamp mod 86400;
         z = days + 719468;
         era = (if 0 \<le> z then z else z - 146096) sdiv 146097;
         doe = nat (z - era * 146097);
         yoe = (doe - doe div 1460 + doe div 36524 - doe div 146096) div 365;
         year = int yoe + era * 400;
         doy = doe - (365 * yoe + yoe div 4 - yoe div 100);
         mp = (5 * doy + 2) div 153;
         day = doy - (153 * mp + 2) div 5 + 1;
         month = (if mp < 10 then mp + 3 else mp - 9)
     in \<lparr>rd_weekday = nat ((days mod 7 + 4) mod 7), rd_day = day, rd_month = month,
         rd_year = year + (if month \<le> 2 then 1 else 0), rd_hour = nat (seconds div 3600),
         rd_minute = nat (seconds div 60 mod 60), rd_second = nat (seconds mod 60)\<rparr>)"

text \<open>\<open>{:02}\<close> and \<open>{:04}\<close>: zeros go between the sign and the digits.\<close>

definition zero_pad :: "nat \<Rightarrow> bytes \<Rightarrow> bytes" where
  "zero_pad width s = replicate (width - length s) CHR ''0'' @ s"

definition show_year :: "int \<Rightarrow> bytes" where
  "show_year y = (if y < 0 then ''-'' @ zero_pad 3 (show_nat (nat (- y))) else zero_pad 4 (show_nat (nat y)))"

definition DAYS :: "bytes list" where
  "DAYS = [''Sun'', ''Mon'', ''Tue'', ''Wed'', ''Thu'', ''Fri'', ''Sat'']"

definition MONTHS :: "bytes list" where
  "MONTHS = [''Jan'', ''Feb'', ''Mar'', ''Apr'', ''May'', ''Jun'', ''Jul'', ''Aug'', ''Sep'', ''Oct'', ''Nov'', ''Dec'']"

definition show_date :: "rfc822_date \<Rightarrow> bytes" where
  "show_date d =
    DAYS ! rd_weekday d @ '', '' @ zero_pad 2 (show_nat (rd_day d)) @ '' '' @ MONTHS ! (rd_month d - 1) @ '' '' @
    show_year (rd_year d) @ '' '' @ zero_pad 2 (show_nat (rd_hour d)) @ '':'' @ zero_pad 2 (show_nat (rd_minute d)) @
    '':'' @ zero_pad 2 (show_nat (rd_second d)) @ '' +0000''"

section \<open>The notification\<close>

text \<open>\<open>{:x}\<close> and \<open>{:016x}\<close>.\<close>

fun show_hex :: "nat \<Rightarrow> bytes" where
  "show_hex n = (if n < 16 then [''0123456789abcdef'' ! n] else show_hex (n div 16) @ [''0123456789abcdef'' ! (n mod 16)])"

declare show_hex.simps [simp del]

definition leading_code :: "bytes \<Rightarrow> nat option" where
  "leading_code reason =
    (let digits = takeWhile is_ascii_digit reason in
     if length digits = 3 then Some (dec_val 0 digits) else None)"

definition status_code :: "bytes \<Rightarrow> bytes" where
  "status_code reason =
    (case leading_code reason of
       Some code \<Rightarrow>
         if 500 \<le> code \<and> code < 600 then
           (if code = 550 then ''5.1.1'' else if code = 551 then ''5.1.6'' else if code = 552 then ''5.2.2''
            else if code = 553 then ''5.1.3'' else ''5.0.0'')
         else ''5.0.0''
     | None \<Rightarrow> ''5.0.0'')"

fun one_line_loop :: "bool \<Rightarrow> bytes \<Rightarrow> bytes" where
  "one_line_loop last_was_space [] = []"
| "one_line_loop last_was_space (ch # reason) =
    (if ch = CR \<or> ch = LF
     then (if \<not> last_was_space then '' '' else []) @ one_line_loop True reason
     else ch # one_line_loop False reason)"

definition one_line :: "bytes \<Rightarrow> bytes" where
  "one_line reason = one_line_loop False reason"

definition dsn_subject :: "(bytes \<times> bytes) list \<Rightarrow> bytes" where
  "dsn_subject failures =
    (if length failures = 1 then ''Undelivered mail returned to sender''
     else ''Undelivered mail returned to sender (multiple recipients)'')"

definition human_summary :: "(bytes \<times> bytes) list \<Rightarrow> bytes" where
  "human_summary failures =
    ''Your message could not be delivered to the following recipients and has been returned:'' @ CRLF @ CRLF @
    concat (map (\<lambda>(address, reason). ''  <'' @ address @ ''>: '' @ reason @ CRLF) failures)"

definition status_part :: "queued_message \<Rightarrow> bytes \<Rightarrow> (bytes \<times> bytes) list \<Rightarrow> bytes" where
  "status_part m reporting_mta failures =
    ''Reporting-MTA: dns;'' @ reporting_mta @ CRLF @
    ''Arrival-Date: '' @ show_date (date_from_timestamp (sint (qm_created m))) @ CRLF @ CRLF @
    concat (map (\<lambda>(address, reason).
      ''Final-Recipient: rfc822;'' @ address @ CRLF @ ''Action: failed'' @ CRLF @
      ''Status: '' @ status_code reason @ CRLF @ ''Diagnostic-Code: smtp;'' @ one_line reason @ CRLF @ CRLF) failures)"

definition MAX_RETURNED_HEADERS :: nat where
  "MAX_RETURNED_HEADERS = 4096"

text \<open>\<open>find\<close> of a substring, as the length of the text before it.\<close>

fun find_text :: "bytes \<Rightarrow> bytes \<Rightarrow> nat option" where
  "find_text pat [] = (if pat = [] then Some 0 else None)"
| "find_text pat (c # s) = (if prefix pat (c # s) then Some 0 else map_option Suc (find_text pat s))"

definition returned_headers :: "bytes \<Rightarrow> bytes" where
  "returned_headers original =
    (let text = utf8_lossy (take MAX_RETURNED_HEADERS original) in
     case find_text (CRLF @ CRLF) text of
       Some n \<Rightarrow> take (n + 2) text
     | None \<Rightarrow>
         (case rsplit_once ((=) LF) text of
            Some (before, _) \<Rightarrow> before @ [LF]
          | None \<Rightarrow> text))"

definition boundary_for :: "queued_message \<Rightarrow> bytes" where
  "boundary_for m =
    (let acc = fold (\<lambda>b acc. acc * 31 + of_nat (byte_val b)) (qm_blob_hash m) (qm_created m)
     in ''=_irixmail_dsn_'' @ zero_pad 16 (show_hex (unat acc)))"

definition dsn_failures :: "queued_message \<Rightarrow> (bytes \<times> bytes) list" where
  "dsn_failures m =
    List.map_filter (\<lambda>r. case qr_status r of Bounced reason \<Rightarrow> Some (qr_address r, reason) | _ \<Rightarrow> None) (qm_recipients m)"

definition build_dsn :: "queued_message \<Rightarrow> bytes \<Rightarrow> bytes \<Rightarrow> u64 \<Rightarrow> bytes option" where
  "build_dsn m reporting_mta original_headers now =
    (let failures = dsn_failures m;
         boundary = boundary_for m
     in if qm_return_path m = [] \<or> failures = [] then None
        else Some (
          ''From: Mail Delivery Subsystem <MAILER-DAEMON@'' @ reporting_mta @ ''>'' @ CRLF @
          ''To: <'' @ qm_return_path m @ ''>'' @ CRLF @
          ''Subject: '' @ dsn_subject failures @ CRLF @
          ''Date: '' @ show_date (date_from_timestamp (sint now)) @ CRLF @
          ''Message-ID: <'' @ boundary @ ''.'' @ show_hex (unat now) @ ''@'' @ reporting_mta @ ''>'' @ CRLF @
          ''Auto-Submitted: auto-replied'' @ CRLF @
          ''MIME-Version: 1.0'' @ CRLF @
          ''Content-Type: multipart/report; report-type=delivery-status;'' @ CRLF @
          '' boundary='' @ [CHR 0x22] @ boundary @ [CHR 0x22] @ CRLF @
          CRLF @
          ''This is a delivery status notification, automatically generated.'' @ CRLF @ CRLF @
          ''--'' @ boundary @ CRLF @
          ''Content-Type: text/plain; charset=utf-8'' @ CRLF @ CRLF @
          human_summary failures @ CRLF @
          ''--'' @ boundary @ CRLF @
          ''Content-Type: message/delivery-status'' @ CRLF @ CRLF @
          status_part m reporting_mta failures @
          ''--'' @ boundary @ CRLF @
          ''Content-Type: text/rfc822-headers'' @ CRLF @ CRLF @
          returned_headers original_headers @ CRLF @
          ''--'' @ boundary @ ''--'' @ CRLF))"

section \<open>The proleptic Gregorian calendar\<close>

text \<open>
  The reference: leap years, month lengths and the number of days before a year and before a month.
  The epoch, the first of January 1970, is a Thursday.
\<close>

definition leap_year :: "int \<Rightarrow> bool" where
  "leap_year y \<longleftrightarrow> y mod 4 = 0 \<and> (y mod 100 \<noteq> 0 \<or> y mod 400 = 0)"

definition month_lengths :: "int \<Rightarrow> nat list" where
  "month_lengths y = [31, if leap_year y then 29 else 28, 31, 30, 31, 30, 31, 31, 30, 31, 30, 31]"

definition days_before_year :: "int \<Rightarrow> int" where
  "days_before_year y = 365 * (y - 1) + (y - 1) div 4 - (y - 1) div 100 + (y - 1) div 400"

definition days_from_civil :: "int \<Rightarrow> nat \<Rightarrow> nat \<Rightarrow> int" where
  "days_from_civil y m d =
    days_before_year y - days_before_year 1970 + int (sum_list (take (m - 1) (month_lengths y))) + int d - 1"

definition valid_date :: "int \<Rightarrow> nat \<Rightarrow> nat \<Rightarrow> bool" where
  "valid_date y m d \<longleftrightarrow> 1 \<le> m \<and> m \<le> 12 \<and> 1 \<le> d \<and> d \<le> month_lengths y ! (m - 1)"

lemma div_pred: "0 < n \<Longrightarrow> (y - 1) div n = y div n - (if y mod n = 0 then 1 else 0)" for y n :: int
proof -
  assume n: "0 < n"
  have y: "y - 1 = n * (y div n) + (y mod n - 1)" using mult_div_mod_eq [of n y] by simp
  have r: "0 \<le> y mod n" "y mod n < n" using n by simp_all
  show ?thesis
  proof (cases "y mod n = 0")
    case True
    then have "y - 1 = n * (y div n - 1) + (n - 1)" using y by (simp add: algebra_simps)
    then have "(y - 1) div n = y div n - 1" using n by (intro int_div_pos_eq [where r = "n - 1"]) simp_all
    then show ?thesis using True by simp
  next
    case False
    then have "(y - 1) div n = y div n" using r by (intro int_div_pos_eq [OF y]) linarith+
    then show ?thesis using False by simp
  qed
qed

lemma year_step: "days_before_year (y + 1) = days_before_year y + (if leap_year y then 366 else 365)"
proof -
  have "y mod 400 = 0 \<Longrightarrow> y mod 100 = 0"
    using dvd_trans [of 100 400 y] by (simp add: dvd_eq_mod_eq_0)
  moreover have "y mod 100 = 0 \<Longrightarrow> y mod 4 = 0"
    using dvd_trans [of 4 100 y] by (simp add: dvd_eq_mod_eq_0)
  ultimately show ?thesis
    by (auto simp: days_before_year_def leap_year_def div_pred)
qed

lemma era_div: "(if 0 \<le> z then z else z - 146096) sdiv 146097 = (z::int) div 146097"
proof (cases "0 \<le> z")
  case True
  then show ?thesis by (simp add: signed_divide_int_def sgn_if)
next
  case False
  have "z = 146097 * (z div 146097) + z mod 146097" "0 \<le> z mod 146097" "z mod 146097 < 146097" by simp_all
  then have "(146096 - z) div 146097 = - (z div 146097)"
    by (intro int_div_pos_eq [where r = "146096 - z mod 146097"]) linarith+
  then show ?thesis using False by (simp add: signed_divide_int_def sgn_if)
qed

text \<open>A day of an era, by century, olympiad, year and day of the year.\<close>

lemma era_split:
  fixes doe :: nat
  assumes "doe < 146097"
  obtains c q s k where "doe = 36524 * c + 1461 * q + 365 * s + k" "c < 4" "q < 25" "s < 4" "k \<le> 365"
    "k = 365 \<Longrightarrow> s = 3 \<and> (q \<noteq> 24 \<or> c = 3)"
proof -
  define c where "c = min 3 (doe div 36524)"
  define r1 where "r1 = doe - 36524 * c"
  define q where "q = r1 div 1461"
  define r2 where "r2 = r1 mod 1461"
  define s where "s = min 3 (r2 div 365)"
  have c: "36524 * c \<le> doe" "r1 \<le> 36524" "r1 = 36524 \<Longrightarrow> c = 3" "c < 4"
    using assms unfolding r1_def c_def by linarith+
  have q: "r1 = 1461 * q + r2" "r2 < 1461" unfolding q_def r2_def by simp_all
  have s: "365 * s \<le> r2" "r2 - 365 * s \<le> 365" "r2 - 365 * s = 365 \<Longrightarrow> s = 3" "s < 4"
    using q(2) unfolding s_def by linarith+
  show thesis
    by (rule that [of c q s "r2 - 365 * s"]) (use c q s r1_def in linarith)+
qed

lemma year_of_era:
  fixes doe :: nat
  assumes "doe = 36524 * c + 1461 * q + 365 * s + k" "c < 4" "q < 25" "s < 4" "k \<le> 365"
    "k = 365 \<Longrightarrow> s = 3 \<and> (q \<noteq> 24 \<or> c = 3)"
  shows "(doe - doe div 1460 + doe div 36524 - doe div 146096) div 365 = 100 * c + 4 * q + s"
    and "365 * (100 * c + 4 * q + s) + (100 * c + 4 * q + s) div 4 - (100 * c + 4 * q + s) div 100 + k = doe"
proof -
  have y: "(100 * c + 4 * q + s) div 4 = 25 * c + q" "(100 * c + 4 * q + s) div 100 = c"
    using assms(2-4) by (intro div_nat_eqI; simp)+
  show "365 * (100 * c + 4 * q + s) + (100 * c + 4 * q + s) div 4 - (100 * c + 4 * q + s) div 100 + k = doe"
    unfolding y using assms(1) by simp
  define e where "e = (24 * c + q + 365 * s + k) div 1460"
  have "doe = 1460 * (25 * c + q) + (24 * c + q + 365 * s + k)" using assms(1) by simp
  then have d1: "doe div 1460 = 25 * c + q + e" unfolding e_def by simp
  have e: "e \<le> k" "k \<le> 364 + e"
    using assms unfolding e_def by linarith+
  show "(doe - doe div 1460 + doe div 36524 - doe div 146096) div 365 = 100 * c + 4 * q + s"
  proof (cases "doe = 146096")
    case True
    then have "c = 3" "q = 24" "s = 3" using assms(1-5) by linarith+
    then show ?thesis using True by simp
  next
    case False
    have r: "1461 * q + 365 * s + k < 36524"
    proof (rule ccontr)
      assume "\<not> 1461 * q + 365 * s + k < 36524"
      then have "q = 24" "s = 3" "k = 365" using assms(3-5) by linarith+
      then show False using assms(1,6) False by simp
    qed
    have d2: "doe div 36524 = c" using r assms(1) by (intro div_nat_eqI) simp_all
    have d3: "doe div 146096 = 0" using r assms(1,2) by simp
    have "doe - (25 * c + q + e) + c - 0 = 365 * (100 * c + 4 * q + s) + (k - e)"
      using assms(1) e(1) by simp
    then show ?thesis unfolding d1 d2 d3 using e(2) by simp
  qed
qed

text \<open>Months counted from March: the day of the year is the days of the months before it and the day.\<close>

lemma month_of_year:
  fixes doy :: nat
  assumes "doy \<le> 365" "mp = (5 * doy + 2) div 153" "d = doy - (153 * mp + 2) div 5 + 1"
    "m = (if mp < 10 then mp + 3 else mp - 9)"
  shows "3 \<le> m \<Longrightarrow> valid_date y m d \<and>
      sum_list (take (m - 1) (month_lengths y)) + d = doy + (if leap_year y then 61 else 60)"
    and "m \<le> 2 \<Longrightarrow> doy < 365 \<or> leap_year y \<Longrightarrow> valid_date y m d \<and>
      sum_list (take (m - 1) (month_lengths y)) + d + 305 = doy"
proof -
  have b: "153 * mp \<le> 5 * doy + 2" "5 * doy + 2 < 153 * mp + 153" using assms(2) by linarith+
  then have "mp < 12" using assms(1) by linarith
  then have c: "mp \<in> {0, 1, 2, 3, 4, 5, 6, 7, 8, 9, 10, 11}" unfolding insert_iff empty_iff by presburger
  show "3 \<le> m \<Longrightarrow> valid_date y m d \<and>
      sum_list (take (m - 1) (month_lengths y)) + d = doy + (if leap_year y then 61 else 60)"
    using c b assms(3,4) by (elim insertE emptyE) (auto simp: valid_date_def month_lengths_def)
  show "m \<le> 2 \<Longrightarrow> doy < 365 \<or> leap_year y \<Longrightarrow> valid_date y m d \<and>
      sum_list (take (m - 1) (month_lengths y)) + d + 305 = doy"
    using c b assms(1,3,4) by (elim insertE emptyE) (auto simp: valid_date_def month_lengths_def)
qed

lemma days_before_next_year:
  assumes "c < 4" "q < 25" "s < 4"
  shows "days_before_year (int (100 * c + 4 * q + s) + era * 400 + 1) =
    146097 * era + int (36524 * c + 1461 * q + 365 * s)"
proof -
  let ?y = "int (100 * c + 4 * q + s) + era * 400"
  have "?y div 4 = 25 * int c + int q + 100 * era"
    using assms by (intro int_div_pos_eq [where r = "int s"]) auto
  moreover have "?y div 100 = int c + 4 * era"
    using assms by (intro int_div_pos_eq [where r = "int (4 * q + s)"]) auto
  moreover have "?y div 400 = era"
    using assms by (intro int_div_pos_eq [where r = "int (100 * c + 4 * q + s)"]) auto
  ultimately show ?thesis by (simp add: days_before_year_def)
qed

lemma last_day_leap:
  assumes "c < 4" "q < 25" "q \<noteq> 24 \<or> c = 3"
  shows "leap_year (int (100 * c + 4 * q + 3) + era * 400 + 1)"
proof -
  let ?y = "int (100 * c + 4 * q + 3) + era * 400 + 1"
  have "?y mod 4 = 0"
    by (intro int_mod_pos_eq [where q = "25 * int c + int q + 1 + 100 * era"]) auto
  moreover have "?y mod 100 \<noteq> 0" if "q \<noteq> 24"
  proof -
    have "?y mod 100 = 4 * int q + 4"
      using assms that by (intro int_mod_pos_eq [where q = "int c + 4 * era"]) auto
    then show ?thesis by simp
  qed
  moreover have "?y mod 400 = 0" if "q = 24"
    using assms that by (intro int_mod_pos_eq [where q = "era + 1"]) auto
  ultimately show ?thesis unfolding leap_year_def by (cases "q = 24") metis+
qed

lemma seconds_of_day:
  fixes n :: int
  assumes "0 \<le> n" "n < 86400"
  shows "nat (n div 3600) < 24" "nat (n div 60 mod 60) < 60" "nat (n mod 60) < 60"
    "3600 * int (nat (n div 3600)) + 60 * int (nat (n div 60 mod 60)) + int (nat (n mod 60)) = n"
proof -
  have "n div 3600 = n div 60 div 60" by (simp add: div_mult2_eq)
  then have "3600 * (n div 3600) + 60 * (n div 60 mod 60) + n mod 60 = n"
    using mult_div_mod_eq [of 60 "n div 60"] mult_div_mod_eq [of 60 n] by linarith
  then show "3600 * int (nat (n div 3600)) + 60 * int (nat (n div 60 mod 60)) + int (nat (n mod 60)) = n"
    using assms(1) by (simp add: pos_imp_zdiv_nonneg_iff)
  show "nat (n div 3600) < 24" using assms by linarith
qed (simp_all add: nat_less_iff)

lemma date_civil:
  "valid_date (rd_year (date_from_timestamp t)) (rd_month (date_from_timestamp t)) (rd_day (date_from_timestamp t)) \<and>
   days_from_civil (rd_year (date_from_timestamp t)) (rd_month (date_from_timestamp t)) (rd_day (date_from_timestamp t)) =
     t div 86400"
proof -
  define z where "z = t div 86400 + 719468"
  define era where "era = z div 146097"
  define doe where "doe = nat (z - era * 146097)"
  have doe: "doe < 146097" "z = 146097 * era + int doe"
    unfolding doe_def era_def by (simp_all add: minus_div_mult_eq_mod nat_less_iff)
  obtain c q s k where e: "doe = 36524 * c + 1461 * q + 365 * s + k" "c < 4" "q < 25" "s < 4" "k \<le> 365"
    "k = 365 \<Longrightarrow> s = 3 \<and> (q \<noteq> 24 \<or> c = 3)"
    using era_split [OF doe(1)] by metis
  define yoe where "yoe = 100 * c + 4 * q + s"
  define y where "y = int yoe + era * 400"
  define mp where "mp = (5 * k + 2) div 153"
  define d where "d = k - (153 * mp + 2) div 5 + 1"
  define m where "m = (if mp < 10 then mp + 3 else mp - 9)"
  note yoe = year_of_era [OF e, folded yoe_def]
  have k: "doe - (365 * yoe + yoe div 4 - yoe div 100) = k" using yoe(2) by simp
  have date: "rd_year (date_from_timestamp t) = y + (if m \<le> 2 then 1 else 0)"
    "rd_month (date_from_timestamp t) = m" "rd_day (date_from_timestamp t) = d"
    by (simp_all only: date_from_timestamp_def Let_def rfc822_date.simps z_def [symmetric] era_div era_def [symmetric]
      doe_def [symmetric] yoe(1) k mp_def [symmetric] d_def [symmetric] m_def [symmetric] y_def [symmetric])
  have b: "days_before_year (y + 1) = z - int k"
    using days_before_next_year [OF e(2-4), of era] doe(2) e(1) by (simp add: y_def yoe_def)
  have b70: "days_before_year 1970 = 719162" by (simp add: days_before_year_def)
  show ?thesis
  proof (cases "m \<le> 2")
    case True
    have "k < 365 \<or> leap_year (y + 1)"
      using last_day_leap [OF e(2,3), of era] e(5,6) unfolding y_def yoe_def by (cases "k = 365") auto
    from month_of_year(2) [OF e(5) mp_def d_def m_def True this]
    have v: "valid_date (y + 1) m d" and l: "sum_list (take (m - 1) (month_lengths (y + 1))) + d + 305 = k"
      by simp_all
    have "days_from_civil (y + 1) m d = t div 86400"
      using b b70 l z_def unfolding days_from_civil_def by linarith
    then show ?thesis using v True by (simp add: date)
  next
    case False
    then have "3 \<le> m" by simp
    from month_of_year(1) [OF e(5) mp_def d_def m_def this, of y]
    have v: "valid_date y m d"
      and l: "sum_list (take (m - 1) (month_lengths y)) + d = k + (if leap_year y then 61 else 60)"
      by simp_all
    have "days_from_civil y m d = t div 86400"
      using b b70 l z_def year_step [of y] unfolding days_from_civil_def by (simp split: if_splits)
    then show ?thesis using v False by (simp add: date)
  qed
qed

text \<open>
  C16. The date a notification carries is the right one: for every timestamp, before the epoch too,
  \<open>from_timestamp\<close> gives an existing day of the proleptic Gregorian calendar and a time of day that
  together are exactly that many seconds from the epoch, and the weekday of that day.
\<close>

theorem date_from_timestamp_correct:
  "let d = date_from_timestamp t in
   valid_date (rd_year d) (rd_month d) (rd_day d) \<and>
   rd_hour d < 24 \<and> rd_minute d < 60 \<and> rd_second d < 60 \<and>
   86400 * days_from_civil (rd_year d) (rd_month d) (rd_day d) +
     3600 * int (rd_hour d) + 60 * int (rd_minute d) + int (rd_second d) = t \<and>
   int (rd_weekday d) = (days_from_civil (rd_year d) (rd_month d) (rd_day d) + 4) mod 7"
proof -
  let ?d = "date_from_timestamp t"
  have r: "0 \<le> t mod 86400" "t mod 86400 < 86400" by simp_all
  have time: "rd_hour ?d = nat (t mod 86400 div 3600)" "rd_minute ?d = nat (t mod 86400 div 60 mod 60)"
    "rd_second ?d = nat (t mod 86400 mod 60)" "int (rd_weekday ?d) = (t div 86400 + 4) mod 7"
    by (simp_all only: date_from_timestamp_def Let_def rfc822_date.simps) (simp add: mod_add_left_eq)
  have civil: "valid_date (rd_year ?d) (rd_month ?d) (rd_day ?d)"
    "days_from_civil (rd_year ?d) (rd_month ?d) (rd_day ?d) = t div 86400"
    using date_civil [of t] by blast+
  have "86400 * (t div 86400) + 3600 * int (nat (t mod 86400 div 3600)) +
      60 * int (nat (t mod 86400 div 60 mod 60)) + int (nat (t mod 86400 mod 60)) = t"
    using seconds_of_day(4) [OF r] mult_div_mod_eq [of 86400 t] by linarith
  then show ?thesis
    unfolding Let_def civil(2) time using civil(1) seconds_of_day(1-3) [OF r] by blast
qed

end
