(* ===== verification/Spec2Isabelle.thy ===== *)
theory Spec2Isabelle
  imports Http_Sessions Store_Fts Directory_Domains Directory_Login Sieve_Runtime Store_ChangeLog_Props Store_Services
    Pop3_Props Mail_Resolve Smtp_Dsn
begin

text \<open>
  A verification library for irixmail, a mail server written in Rust.

  \<^bold>\<open>The program.\<close>  The server is a set of crates (\<open>src/crates\<close>).  \<open>store\<close> keeps all data in one ordered
  key-value store, RocksDB behind the trait \<open>Store\<close>, and message bodies in a blob store.
  \<open>directory\<close> holds domains, accounts, addresses and credentials in the registry subspace of that
  store and decides logins.  \<open>mail\<close> keeps the messages of an account: records, folders, a full-text
  index, a change log and quota counters.  The protocol servers \<open>smtp\<close>, \<open>imap\<close>, \<open>pop3\<close>, \<open>managesieve\<close>,
  \<open>jmap\<close> and \<open>dav\<close> and the administration interface \<open>http\<close> are clients of these.  \<open>sieve\<close> compiles and
  runs the filter scripts of delivery.  \<open>core\<close>, \<open>dns\<close>, \<open>tls\<close> and \<open>irixmail\<close> hold identifiers, configuration,
  look-ups, certificates and the start of the server.

  \<^bold>\<open>Style of the model.\<close>  Every function of the source is a HOL function of the same shape.  Bytes and
  Rust strings are lists of \<open>char\<close>, fixed-width integers are words, \<open>usize\<close> is \<open>nat\<close>.  A \<open>Result\<close> is a sum
  with the error on the left, a panic is a value of its own where the code can panic.  State is
  passed explicitly; a failing operation returns the state it leaves behind.  Callbacks of an
  iteration are visitors folded over the rows (\<open>visit_rows\<close>).  A clock or a random source is an
  argument.

  \<^bold>\<open>Theories.\<close>

  \<^item> \<open>Prelude\<close>, \<open>Utf8\<close>, \<open>Byte_Codec\<close>: results, bytes, decimal numbers, splitting, saturating
    arithmetic, UTF-8 and the fixed-width integer codecs of the standard library.

  \<^item> \<open>Store_Key\<close> (\<open>key.rs\<close>, \<open>batch.rs\<close>): the key layout; a prefix scan of an account returns the keys of
    that account only.  \<open>Store_Trait\<close> (\<open>traits_store.rs\<close>, \<open>core/error.rs\<close>): the trait as a record
    of operations and the locale \<open>kv_store\<close>, the contract of a store over an abstract map from keys
    to values.  All clients are proved inside this locale.  \<open>Store_Tags\<close>: scans of one tag.

  \<^item> \<open>Store_Rocksdb\<close> (\<open>rocksdb_store.rs\<close>, \<open>rocksdb_write.rs\<close>): the backend over RocksDB as a parameter
    whose documented behaviour is the locale \<open>rocksdb_laws\<close>; a \<open>sublocale\<close> gives the contract
    \<open>kv_store\<close> for the backend.  \<open>Store_Memory\<close>: an ordered map with transactions that satisfies the laws, so that
    every theorem about the backend has an instance; the refinement theorem, the atomicity of counter
    additions under interference and the bound on retries.

  \<^item> \<open>Store_ChangeLog\<close>, \<open>Store_ChangeLog_Props\<close> (\<open>changelog.rs\<close>): recording, paging and pruning of changes.
    \<open>Store_Services\<close> (\<open>quota.rs\<close>, \<open>ttl.rs\<close>, \<open>expiring.rs\<close>): quota counters, the expiring in-memory map
    refined to an abstract one, expiring keys.  \<open>Store_Fts\<close> (\<open>fts.rs\<close>): tokens, postings and
    queries; a search returns exactly the documents that satisfy the query.  \<open>Store_Archive\<close>
    (\<open>serialize.rs\<close>, \<open>traits_blob.rs\<close>): archived records and the blob store as parameters.

  \<^item> \<open>Directory_Records\<close>, \<open>Directory_Address\<close>, \<open>Directory_Accounts\<close>, \<open>Directory_Domains\<close>, \<open>Directory_Login\<close>
    (crate \<open>directory\<close>): the registries, with the invariant that records and address index agree
    after any sequence of operations, and logins with their throttle.

  \<^item> \<open>Mail_Store\<close> (\<open>message_data.rs\<close>, \<open>metadata.rs\<close>, \<open>mailbox.rs\<close>, \<open>provision.rs\<close>, \<open>index.rs\<close>, \<open>read.rs\<close>, \<open>cache.rs\<close>):
    the records of an account, its cache and the deletion of a message.  \<open>Mail_Resolve\<close> (\<open>resolve.rs\<close>): where
    the mail for a recipient goes.

  \<^item> \<open>Pop3_Wire\<close>, \<open>Pop3_Commands\<close>, \<open>Pop3_Session\<close>, \<open>Pop3_Props\<close> (crate \<open>pop3\<close>): the whole server but its listener,
    over the directory and the message store: the invariant of a session, the answer to every
    command, the effect of \<open>QUIT\<close>, and replies a client reads back.

  \<^item> \<open>Smtp_Queue\<close> (\<open>queue_model.rs\<close>, \<open>retry.rs\<close>, \<open>queue_lease.rs\<close>, \<open>queue_enqueue.rs\<close>, \<open>queue_manager.rs\<close>): the outbound
    queue, exactness of its scan and the bound on retries.  \<open>Smtp_Dsn\<close> (\<open>dsn.rs\<close>): the
    notification of a bounce, with the correctness of its calendar arithmetic.

  \<^item> \<open>Sieve_Types\<close>, \<open>Sieve_String\<close>, \<open>Sieve_Lexer\<close>, \<open>Sieve_Lexer_Props\<close>, \<open>Sieve_Grammar\<close>, \<open>Sieve_Grammar_Props\<close>, \<open>Sieve_Match\<close>,
    \<open>Sieve_Message\<close>, \<open>Sieve_Runtime\<close> (crate \<open>sieve\<close>): the tokenizer with its positions and a round trip, the
    compiler, which never panics and emits forward jumps only and no instruction of a capability
    that was not required, the matcher against its specification, and the interpreter with its
    limits.

  \<^item> \<open>Http_Sessions\<close> (\<open>http/sessions.rs\<close>): login sessions of the web interface.  \<open>Ids\<close> (\<open>core/id.rs\<close>): the generator of
    identifiers.

  \<^bold>\<open>Interfaces.\<close>  The locale \<open>kv_store\<close> is interpreted for the RocksDB backend by \<open>rocksdb_laws\<close>, and
  both for the map of \<open>Store_Memory\<close>.  Theorems about clients name the backend: they assume
  \<open>rocksdb_laws R data\<close>, speak of \<open>rocksdb_store R elapsed\<close> and of the content \<open>content_map (data d)\<close>, and are
  obtained from the lemmas of the locale.  Their witnesses run the operation on a concrete map.

  \<^bold>\<open>Parameters.\<close>  Third-party code is an argument: RocksDB, the archive library \<open>rkyv\<close>, JSON encoders,
  the bitmap and segmentation libraries of the index, Argon2, base64, the MIME parser.  Each
  theorem lists what it needs of them as hypotheses.

  \<^bold>\<open>Bounds and fuel.\<close>  Loops are structural recursions or functions with a termination proof.  The matcher
  of Sieve is a partial function of which termination is proved, as part of its correctness.  The
  retry loop of the backend ends because the number of attempts is bounded.  The interpreter
  has the step budget of the source, and a compiled script needs at most one step per
  instruction.  The command loop of POP3 runs once per line of the client's finite input.

  \<^bold>\<open>Findings.\<close>  Two theorems show defects.  The web sessions share their tag with the marker of the
  attachment backfill, so that sweeping sessions removes the marker.  The mail store keeps the lower 32 bits of
  64-bit account identifiers, and distinct identifiers agree on them.

  \<^bold>\<open>Not modelled.\<close>  The listeners and the asynchronous runtime (sockets, timers, tasks); TLS, ACME,
  DKIM, ARC, SPF and DMARC (cryptography and look-ups in third-party libraries); DNS; file I/O of
  configuration, blobs and backups; the receiving side of SMTP and the delivery attempts, which interleave network
  calls; IMAP, JMAP, DAV and ManageSieve, servers of their own size over third-party parsers of
  MIME, JSON, XML and calendars; the handlers of the HTTP interface; filing of incoming messages,
  which rests on the MIME parser; the remaining small registries of the directory (API keys,
  DKIM keys, IP rules, TOTP), which are cryptographic or single records in the store; the command line and
  the browser front end.  Log lines are left out everywhere.  Concurrency is modelled where the
  code handles it, in the transactions of the backend; elsewhere an operation runs alone.
\<close>

end
